(* ===== verification/Prelude.thy ===== *)
theory Prelude
  imports Main "HOL-Library.AList" "HOL-Library.Word"
begin

text \<open>
  Shared ground of the development.

  \<^item> Type synonyms for the Rust types the sources use (\<open>u8\<close>, \<open>u16\<close>, \<open>u32\<close>, \<open>u64\<close>, byte
    buffers, instants, results). A Rust \<open>String\<close> is the list of its UTF-8 bytes as
    \<open>char\<close>s, so \<open>length\<close> is Rust's \<open>len()\<close>.
  \<^item> The string operations of the Rust standard library the sources call (\<open>split\<close>, \<open>join\<close>,
    \<open>strip_prefix\<close>, \<open>starts_with\<close>, \<open>contains\<close>, ASCII lower-casing) with their laws.
  \<^item> \<open>std::collections::HashMap\<close> as an association list with distinct keys, its entries in
    the order an iteration would yield them, and the interface \<open>dict\<close> through which the
    components use it. Theorems about iterations quantify over every such list, hence over
    every iteration order.
  \<^item> \<open>transition_system\<close>, the induction principle for invariants of step relations.
\<close>

section \<open>Types\<close>

type_synonym u8 = "8 word"
type_synonym u16 = "16 word"
type_synonym u32 = "32 word"
type_synonym u64 = "64 word"
type_synonym bytes = "8 word list"
type_synonym ('e, 'a) result = "'e + 'a"

text \<open>\<open>SystemTime\<close>: nanoseconds relative to the Unix epoch, possibly before it.
  \<open>Instant\<close> and \<open>Duration\<close>: nanoseconds.\<close>

type_synonym system_time = int
type_synonym instant = nat
type_synonym duration = nat

section \<open>Named collections\<close>

named_theorems str_simps \<open>evaluation and inversion of the string operations\<close>
named_theorems codec_simps \<open>round-trip equations of the byte codecs\<close>

section \<open>Rust string operations\<close>

text \<open>\<open>str::split(c)\<close>: always at least one piece, and an empty piece between, before or
  after separators.\<close>

fun split_on :: "char \<Rightarrow> string \<Rightarrow> string list" where
  "split_on c [] = [[]]"
| "split_on c (x # xs) =
     (if x = c then [] # split_on c xs
      else (case split_on c xs of
              [] \<Rightarrow> [[x]]
            | y # ys \<Rightarrow> (x # y) # ys))"

text \<open>\<open>[&str]::join(sep)\<close> for a one-character separator.\<close>

fun join_with :: "char \<Rightarrow> string list \<Rightarrow> string" where
  "join_with c [] = []"
| "join_with c [x] = x"
| "join_with c (x # y # ys) = x @ c # join_with c (y # ys)"

text \<open>\<open>str::strip_prefix\<close> and \<open>[u8]::strip_prefix\<close>.\<close>

fun strip_prefix :: "'a list \<Rightarrow> 'a list \<Rightarrow> 'a list option" where
  "strip_prefix [] ys = Some ys"
| "strip_prefix (x # xs) [] = None"
| "strip_prefix (x # xs) (y # ys) = (if x = y then strip_prefix xs ys else None)"

definition starts_with :: "string \<Rightarrow> char \<Rightarrow> bool" where
  "starts_with s c = (case s of [] \<Rightarrow> False | x # _ \<Rightarrow> x = c)"

text \<open>\<open>slice::get\<close>: the element at an index, if there is one.\<close>

fun get_at :: "'a list \<Rightarrow> nat \<Rightarrow> 'a option" where
  "get_at [] i = None"
| "get_at (x # xs) 0 = Some x"
| "get_at (x # xs) (Suc i) = get_at xs i"

text \<open>\<open>slice::split_at_checked\<close>.\<close>

definition split_at_checked :: "nat \<Rightarrow> 'a list \<Rightarrow> ('a list \<times> 'a list) option" where
  "split_at_checked n xs = (if n \<le> length xs then Some (take n xs, drop n xs) else None)"

lemma split_on_nonempty [simp]: "split_on c s \<noteq> []"
  by (induction s) (auto split: list.splits)

lemma join_split [simp]: "join_with c (split_on c s) = s"
proof (induction s)
  case (Cons x xs)
  obtain y ys where "split_on c xs = y # ys"
    using split_on_nonempty [of c xs] by (cases "split_on c xs") auto
  with Cons show ?case by (cases ys) auto
qed simp

lemma split_no_sep: "p \<in> set (split_on c s) \<Longrightarrow> c \<notin> set p"
proof (induction s arbitrary: p)
  case (Cons x xs)
  obtain y ys where "split_on c xs = y # ys"
    using split_on_nonempty [of c xs] by (cases "split_on c xs") auto
  with Cons show ?case by (auto split: if_splits)
qed simp

lemma split_single: "c \<notin> set s \<Longrightarrow> split_on c s = [s]"
  by (induction s) auto

lemma split_append_sep: "c \<notin> set p \<Longrightarrow> split_on c (p @ c # s) = p # split_on c s"
  by (induction p) auto

lemma split_join [simp]:
  "ls \<noteq> [] \<Longrightarrow> \<forall>l\<in>set ls. c \<notin> set l \<Longrightarrow> split_on c (join_with c ls) = ls"
  by (induction c ls rule: join_with.induct) (auto simp: split_single split_append_sep)

lemma split_append: "split_on c (s @ c # t) = split_on c s @ split_on c t"
proof (induction s)
  case (Cons x xs)
  obtain y ys where "split_on c xs = y # ys"
    using split_on_nonempty [of c xs] by (cases "split_on c xs") auto
  with Cons show ?case by auto
qed simp

lemma strip_prefix_Some [str_simps]: "strip_prefix p s = Some r \<longleftrightarrow> s = p @ r"
  by (induction p s rule: strip_prefix.induct) auto

lemma strip_prefix_append [simp]: "strip_prefix p (p @ r) = Some r"
  by (simp add: strip_prefix_Some)

lemma strip_prefix_self [simp]: "strip_prefix p p = Some []"
  by (simp add: strip_prefix_Some)

lemma starts_with_simps [simp]:
  "starts_with [] c = False" "starts_with (x # xs) c = (x = c)"
  by (simp_all add: starts_with_def)

lemma get_at_nth: "get_at xs i = (if i < length xs then Some (xs ! i) else None)"
  by (induction xs i rule: get_at.induct) auto

lemma get_at_drop: "get_at xs i = (case drop i xs of [] \<Rightarrow> None | x # _ \<Rightarrow> Some x)"
  by (induction xs i rule: get_at.induct) auto

lemma split_at_checked_append [simp]:
  "split_at_checked (length xs) (xs @ ys) = Some (xs, ys)"
  by (simp add: split_at_checked_def)

lemma split_at_checked_length:
  "length xs = n \<Longrightarrow> split_at_checked n (xs @ ys) = Some (xs, ys)"
  by (auto simp: split_at_checked_def)

lemma split_at_checked_Some:
  "split_at_checked n xs = Some (a, b) \<longleftrightarrow> xs = a @ b \<and> length a = n"
  by (auto simp: split_at_checked_def)

lemma split_at_checked_None [simp]:
  "split_at_checked n xs = None \<longleftrightarrow> length xs < n"
  by (auto simp: split_at_checked_def)

section \<open>HashMap\<close>

text \<open>The contract of a finite map as the components use it: what \<open>get\<close> returns after
  \<open>insert\<close> and \<open>remove\<close>, and that \<open>entries\<close>, the iteration, lists each binding once.\<close>

locale dict =
  fixes empty :: 'm
    and get :: "'m \<Rightarrow> 'k \<Rightarrow> 'v option"
    and insert :: "'k \<Rightarrow> 'v \<Rightarrow> 'm \<Rightarrow> 'm"
    and remove :: "'k \<Rightarrow> 'm \<Rightarrow> 'm"
    and entries :: "'m \<Rightarrow> ('k \<times> 'v) list"
    and wf :: "'m \<Rightarrow> bool"
  assumes get_empty: "get empty k = None"
    and get_insert: "wf m \<Longrightarrow> get (insert k v m) k' = (if k' = k then Some v else get m k')"
    and get_remove: "wf m \<Longrightarrow> get (remove k m) k' = (if k' = k then None else get m k')"
    and get_entries: "wf m \<Longrightarrow> get m k = map_of (entries m) k"
    and entries_distinct: "wf m \<Longrightarrow> distinct (map fst (entries m))"
    and wf_empty: "wf empty"
    and wf_insert: "wf m \<Longrightarrow> wf (insert k v m)"
    and wf_remove: "wf m \<Longrightarrow> wf (remove k m)"
begin

lemma in_entries: "wf m \<Longrightarrow> (k, v) \<in> set (entries m) \<longleftrightarrow> get m k = Some v"
  by (simp add: get_entries entries_distinct)

lemma wf_insert_all: "wf m \<Longrightarrow> wf (foldl (\<lambda>m (k, v). insert k v m) m es)"
  by (induction es arbitrary: m) (auto simp: wf_insert)

text \<open>Inserting a list of bindings one by one: the last binding of a key wins.\<close>

lemma get_insert_all:
  "wf m \<Longrightarrow> get (foldl (\<lambda>m (k, v). insert k v m) m es) k =
     (case map_of (rev es) k of Some v \<Rightarrow> Some v | None \<Rightarrow> get m k)"
proof (induction es arbitrary: m)
  case (Cons e es)
  obtain k' v' where e: "e = (k', v')" by (cases e)
  from Cons.prems have "wf (insert k' v' m)" by (rule wf_insert)
  from Cons.IH [OF this] Cons.prems show ?case
    by (auto simp: e get_insert map_add_def split: option.splits)
qed simp

text \<open>Re-inserting the entries of one map into an empty one rebuilds it, whatever the
  order in which they are listed.\<close>

lemma get_rebuild:
  assumes "wf m"
  shows "get (foldl (\<lambda>m (k, v). insert k v m) empty (entries m)) k = get m k"
proof -
  have "map_of (rev (entries m)) = map_of (entries m)"
    using entries_distinct [OF assms] by (intro map_of_inject_set [THEN iffD2]) (auto simp: rev_map [symmetric])
  then show ?thesis
    using assms by (auto simp: get_insert_all wf_empty get_empty get_entries split: option.splits)
qed

lemma keys_finite: "wf m \<Longrightarrow> finite (dom (get m))"
proof -
  assume "wf m"
  then have "get m = map_of (entries m)" by (simp add: fun_eq_iff get_entries)
  then show ?thesis by (simp add: finite_dom_map_of)
qed

end

type_synonym ('k, 'v) hashmap = "('k \<times> 'v) list"

definition hm_get :: "('k, 'v) hashmap \<Rightarrow> 'k \<Rightarrow> 'v option" where
  "hm_get m k = map_of m k"

definition hm_insert :: "'k \<Rightarrow> 'v \<Rightarrow> ('k, 'v) hashmap \<Rightarrow> ('k, 'v) hashmap" where
  "hm_insert k v m = AList.update k v m"

definition hm_remove :: "'k \<Rightarrow> ('k, 'v) hashmap \<Rightarrow> ('k, 'v) hashmap" where
  "hm_remove k m = AList.delete k m"

text \<open>\<open>HashMap::retain\<close>: keep the entries a predicate accepts.\<close>

definition hm_retain :: "('k \<Rightarrow> 'v \<Rightarrow> bool) \<Rightarrow> ('k, 'v) hashmap \<Rightarrow> ('k, 'v) hashmap" where
  "hm_retain P m = filter (\<lambda>(k, v). P k v) m"

definition hm_wf :: "('k, 'v) hashmap \<Rightarrow> bool" where
  "hm_wf m = distinct (map fst m)"

interpretation hm: dict "[]" hm_get hm_insert hm_remove "\<lambda>m. m" hm_wf
  by unfold_locales
    (auto simp: hm_get_def hm_insert_def hm_remove_def hm_wf_def update_conv' delete_conv'
        distinct_update distinct_delete)

lemmas hm_simps [simp] =
  hm.get_empty hm.get_insert hm.get_remove hm.wf_empty hm.wf_insert hm.wf_remove

lemma hm_get_Nil [simp]: "hm_get [] k = None"
  by (rule hm.get_empty)

lemma hm_get_Cons [simp]: "hm_get ((k, v) # m) k' = (if k = k' then Some v else hm_get m k')"
  by (auto simp: hm_get_def)

lemma hm_wf_retain [simp]: "hm_wf m \<Longrightarrow> hm_wf (hm_retain P m)"
  unfolding hm_wf_def hm_retain_def by (rule distinct_map_filter)

lemma hm_get_retain:
  "hm_wf m \<Longrightarrow> hm_get (hm_retain P m) k =
     (case hm_get m k of Some v \<Rightarrow> if P k v then Some v else None | None \<Rightarrow> None)"
  unfolding hm_get_def hm_wf_def hm_retain_def
  by (induction m) (force split: option.splits simp: map_of_eq_None_iff)+

section \<open>Invariants of step relations\<close>

text \<open>An invariant that holds at the start and is kept by each step holds in every
  reachable state.\<close>

locale transition_system =
  fixes start :: "'s \<Rightarrow> bool"
    and step :: "'s \<Rightarrow> 's \<Rightarrow> bool"
    and inv :: "'s \<Rightarrow> bool"
  assumes inv_start: "start s \<Longrightarrow> inv s"
    and inv_step: "inv s \<Longrightarrow> step s t \<Longrightarrow> inv t"
begin

lemma inv_steps: "step\<^sup>*\<^sup>* s t \<Longrightarrow> inv s \<Longrightarrow> inv t"
  by (induction rule: rtranclp_induct) (auto intro: inv_step)

lemma inv_reachable: "start s \<Longrightarrow> step\<^sup>*\<^sup>* s t \<Longrightarrow> inv t"
  using inv_start inv_steps by blast

end

end
