(* ===== verification/Topic.thy ===== *)
theory Topic
  imports Prelude
begin

text \<open>
  \<open>crates/entmoot-core/src/topic.rs\<close>: MQTT topics and filters, their translation to bus
  key expressions and back, filter matching and filter coverage.

  The definitions keep the loops of the source (indices included); \<open>level_match\<close> and
  \<open>level_covers\<close> are the recursive reference definitions the loops are proved equal to.
  The lemmas show which strings validate, that each keyspace round-trips through its
  key expression and that coverage is sound, and complete up to one root case.
\<close>

section \<open>Definitions\<close>

datatype TopicError =
    Empty
  | EmptyLevel
  | WildcardInTopic char
  | HashNotLast
  | PartialWildcard string
  | ReservedChar char

definition SYS_PREFIX :: string where "SYS_PREFIX = ''$SYS''"
definition SYS_CHUNK :: string where "SYS_CHUNK = ''@sys''"
definition META_PREFIX :: string where "META_PREFIX = ''$meta''"
definition META_CHUNK :: string where "META_CHUNK = ''@meta''"
definition RETAINED_CHUNK :: string where "RETAINED_CHUNK = ''@retained''"

fun check_chars :: "string \<Rightarrow> (TopicError, unit) result" where
  "check_chars [] = Inr ()"
| "check_chars (c # cs) =
     (if c = CHR ''*'' \<or> c = CHR ''$'' \<or> c = CHR ''?'' then Inl (ReservedChar c)
      else check_chars cs)"

definition check_level_chars :: "string \<Rightarrow> (TopicError, unit) result" where
  "check_level_chars level =
     (if starts_with level CHR ''@'' then Inl (ReservedChar CHR ''@'')
      else check_chars level)"

definition levels :: "string \<Rightarrow> (TopicError, string list) result" where
  "levels s =
     (if s = [] then Inl Empty
      else let parts = split_on CHR ''/'' s
           in if list_ex (\<lambda>p. p = []) parts then Inl EmptyLevel else Inr parts)"

definition scoped :: "string \<Rightarrow> string \<Rightarrow> string" where
  "scoped scope ke = (if scope = [] then ke else scope @ ''/'' @ ke)"

fun check_topic_levels :: "string list \<Rightarrow> (TopicError, unit) result" where
  "check_topic_levels [] = Inr ()"
| "check_topic_levels (level # ls) =
     (if CHR ''+'' \<in> set level then Inl (WildcardInTopic CHR ''+'')
      else if CHR ''#'' \<in> set level then Inl (WildcardInTopic CHR ''#'')
      else (case check_level_chars level of
              Inl e \<Rightarrow> Inl e
            | Inr _ \<Rightarrow> check_topic_levels ls))"

definition topic_to_keyexpr :: "string \<Rightarrow> string \<Rightarrow> (TopicError, string) result" where
  "topic_to_keyexpr topic scope =
     (case levels topic of
        Inl e \<Rightarrow> Inl e
      | Inr parts \<Rightarrow>
          (case check_topic_levels parts of
             Inl e \<Rightarrow> Inl e
           | Inr _ \<Rightarrow> Inr (scoped scope (join_with CHR ''/'' parts))))"

text \<open>The \<open>match\<close> on one level of a filter, \<open>i\<close> its index and \<open>last_i\<close> the index of the
  final level, and the loop over the levels from index \<open>i\<close> on.\<close>

definition filter_level :: "nat \<Rightarrow> nat \<Rightarrow> string \<Rightarrow> (TopicError, string) result" where
  "filter_level i last_i l =
     (if l = SYS_PREFIX \<and> i = 0 then Inr SYS_CHUNK
      else if l = META_PREFIX \<and> i = 0 then Inr META_CHUNK
      else if l = ''+'' then Inr ''*''
      else if l = ''#'' then (if i \<noteq> last_i then Inl HashNotLast else Inr ''**'')
      else if CHR ''+'' \<in> set l \<or> CHR ''#'' \<in> set l then Inl (PartialWildcard l)
      else (case check_level_chars l of Inl e \<Rightarrow> Inl e | Inr _ \<Rightarrow> Inr l))"

fun filter_levels :: "nat \<Rightarrow> nat \<Rightarrow> string list \<Rightarrow> (TopicError, string list) result" where
  "filter_levels i last_i [] = Inr []"
| "filter_levels i last_i (l # ls) =
     (case filter_level i last_i l of
        Inl e \<Rightarrow> Inl e
      | Inr out \<Rightarrow>
          (case filter_levels (Suc i) last_i ls of
             Inl e \<Rightarrow> Inl e
           | Inr outs \<Rightarrow> Inr (out # outs)))"

definition filter_to_keyexpr :: "string \<Rightarrow> string \<Rightarrow> (TopicError, string) result" where
  "filter_to_keyexpr filt scope =
     (case levels filt of
        Inl e \<Rightarrow> Inl e
      | Inr parts \<Rightarrow>
          (case filter_levels 0 (length parts - 1) parts of
             Inl e \<Rightarrow> Inl e
           | Inr out \<Rightarrow> Inr (scoped scope (join_with CHR ''/'' out))))"

definition strip_scope :: "string \<Rightarrow> string \<Rightarrow> string option" where
  "strip_scope ke scope =
     (if scope = [] then Some ke
      else (case strip_prefix scope ke of
              None \<Rightarrow> None
            | Some rest \<Rightarrow> strip_prefix ''/'' rest))"

definition keyexpr_to_topic :: "string \<Rightarrow> string \<Rightarrow> string option" where
  "keyexpr_to_topic ke scope =
     (case strip_scope ke scope of
        None \<Rightarrow> None
      | Some rest \<Rightarrow>
          (case strip_prefix SYS_CHUNK rest of
             Some sys \<Rightarrow>
               (case strip_prefix ''/'' sys of
                  None \<Rightarrow> None
                | Some sys \<Rightarrow> Some (SYS_PREFIX @ ''/'' @ sys))
           | None \<Rightarrow>
               (case strip_prefix META_CHUNK rest of
                  Some meta \<Rightarrow>
                    (case strip_prefix ''/'' meta of
                       None \<Rightarrow> None
                     | Some meta \<Rightarrow> Some (META_PREFIX @ ''/'' @ meta))
                | None \<Rightarrow> if starts_with rest CHR ''@'' then None else Some rest)))"

text \<open>The loop of \<open>topic_matches\<close>: the remaining filter levels from index \<open>i\<close> on, against
  the whole list \<open>t\<close> of topic levels; \<open>n\<close> is the number of filter levels.\<close>

fun topic_matches_loop :: "nat \<Rightarrow> string list \<Rightarrow> nat \<Rightarrow> string list \<Rightarrow> bool" where
  "topic_matches_loop n [] i t = (n = length t)"
| "topic_matches_loop n (level # f) i t =
     (if level = ''#'' then True
      else if level = ''+'' then
        (if i \<ge> length t then False else topic_matches_loop n f (Suc i) t)
      else if get_at t i \<noteq> Some level then False
      else topic_matches_loop n f (Suc i) t)"

definition topic_matches :: "string \<Rightarrow> string \<Rightarrow> bool" where
  "topic_matches filt topic_name =
     (let f = split_on CHR ''/'' filt; t = split_on CHR ''/'' topic_name
      in topic_matches_loop (length f) f 0 t)"

function filter_covers_loop :: "string list \<Rightarrow> string list \<Rightarrow> nat \<Rightarrow> bool" where
  "filter_covers_loop os is idx =
     (case (get_at os idx, get_at is idx) of
        (Some ol, x) \<Rightarrow>
          (if ol = ''#'' then True
           else (case x of
                   None \<Rightarrow> False
                 | Some il \<Rightarrow>
                     (if ol = ''+'' then
                        (if il = ''#'' then False else filter_covers_loop os is (Suc idx))
                      else if ol \<noteq> il then False
                      else filter_covers_loop os is (Suc idx))))
      | (None, None) \<Rightarrow> True
      | (None, Some _) \<Rightarrow> False)"
  by pat_completeness auto
termination
  by (relation "measure (\<lambda>(os, is, idx). length os - idx)")
    (auto simp: get_at_nth split: if_splits)

declare filter_covers_loop.simps [simp del]

definition filter_covers :: "string \<Rightarrow> string \<Rightarrow> bool" where
  "filter_covers outer inner =
     filter_covers_loop (split_on CHR ''/'' outer) (split_on CHR ''/'' inner) 0"

definition retained_keyexpr :: "string \<Rightarrow> string \<Rightarrow> string" where
  "retained_keyexpr topic_name scope = scoped scope (RETAINED_CHUNK @ ''/'' @ topic_name)"

definition retained_filter :: "string \<Rightarrow> string" where
  "retained_filter scope = scoped scope (RETAINED_CHUNK @ ''/**'')"

definition retained_keyexpr_to_topic :: "string \<Rightarrow> string \<Rightarrow> string option" where
  "retained_keyexpr_to_topic ke scope =
     (case strip_scope ke scope of
        None \<Rightarrow> None
      | Some rest \<Rightarrow>
          (case strip_prefix RETAINED_CHUNK rest of
             None \<Rightarrow> None
           | Some r \<Rightarrow> strip_prefix ''/'' r))"

definition sys_keyexpr :: "string \<Rightarrow> string \<Rightarrow> string" where
  "sys_keyexpr suffix scope = scoped scope (SYS_CHUNK @ ''/'' @ suffix)"

definition meta_keyexpr :: "string \<Rightarrow> string \<Rightarrow> string" where
  "meta_keyexpr topic_name scope = scoped scope (META_CHUNK @ ''/'' @ topic_name)"

lemmas chunk_defs = SYS_PREFIX_def SYS_CHUNK_def META_PREFIX_def META_CHUNK_def RETAINED_CHUNK_def

section \<open>Which strings validate\<close>

text \<open>A level of a client topic: not empty, no separator, none of the characters that are
  MQTT or bus syntax, no leading \<open>@\<close>.\<close>

definition plain_level :: "string \<Rightarrow> bool" where
  "plain_level l \<longleftrightarrow> l \<noteq> [] \<and> CHR ''/'' \<notin> set l \<and> CHR ''+'' \<notin> set l \<and> CHR ''#'' \<notin> set l \<and>
     CHR ''*'' \<notin> set l \<and> CHR ''$'' \<notin> set l \<and> CHR ''?'' \<notin> set l \<and> \<not> starts_with l CHR ''@''"

definition valid_topic :: "string \<Rightarrow> bool" where
  "valid_topic t \<longleftrightarrow> (\<forall>l\<in>set (split_on CHR ''/'' t). plain_level l)"

text \<open>The levels of a filter the code accepts, \<open>first\<close> telling whether the head is the
  first level, and the key-expression chunks it emits for them.\<close>

definition level_ok :: "bool \<Rightarrow> bool \<Rightarrow> string \<Rightarrow> bool" where
  "level_ok first final l \<longleftrightarrow>
     first \<and> (l = SYS_PREFIX \<or> l = META_PREFIX) \<or> l = ''+'' \<or> l = ''#'' \<and> final \<or> plain_level l"

fun filter_ok :: "bool \<Rightarrow> string list \<Rightarrow> bool" where
  "filter_ok first [] = True"
| "filter_ok first (l # ls) = (level_ok first (ls = []) l \<and> filter_ok False ls)"

definition level_chunk :: "bool \<Rightarrow> string \<Rightarrow> string" where
  "level_chunk first l =
     (if first \<and> l = SYS_PREFIX then SYS_CHUNK
      else if first \<and> l = META_PREFIX then META_CHUNK
      else if l = ''+'' then ''*''
      else if l = ''#'' then ''**''
      else l)"

fun filter_chunks :: "bool \<Rightarrow> string list \<Rightarrow> string list" where
  "filter_chunks first [] = []"
| "filter_chunks first (l # ls) = level_chunk first l # filter_chunks False ls"

definition valid_filter :: "string \<Rightarrow> bool" where
  "valid_filter f \<longleftrightarrow> filter_ok True (split_on CHR ''/'' f)"

lemma check_chars_Inr [simp]:
  "check_chars l = Inr () \<longleftrightarrow> CHR ''*'' \<notin> set l \<and> CHR ''$'' \<notin> set l \<and> CHR ''?'' \<notin> set l"
  by (induction l) auto

lemma check_level_chars_Inr:
  "check_level_chars l = Inr () \<longleftrightarrow>
     \<not> starts_with l CHR ''@'' \<and> CHR ''*'' \<notin> set l \<and> CHR ''$'' \<notin> set l \<and> CHR ''?'' \<notin> set l"
  by (simp add: check_level_chars_def)

lemma levels_Inr:
  "levels s = Inr ps \<longleftrightarrow> ps = split_on CHR ''/'' s \<and> [] \<notin> set ps"
  by (auto simp: levels_def list_ex_iff Let_def)

lemma plain_level_check:
  assumes "l \<noteq> []" "CHR ''/'' \<notin> set l"
  shows "plain_level l \<longleftrightarrow>
    CHR ''+'' \<notin> set l \<and> CHR ''#'' \<notin> set l \<and> check_level_chars l = Inr ()"
  using assms by (auto simp: plain_level_def check_level_chars_Inr)

lemma check_topic_levels_Inr:
  assumes "\<forall>l\<in>set ls. l \<noteq> [] \<and> CHR ''/'' \<notin> set l"
  shows "check_topic_levels ls = Inr () \<longleftrightarrow> (\<forall>l\<in>set ls. plain_level l)"
  using assms
proof (induction ls)
  case (Cons l ls)
  then show ?case
    by (cases "check_level_chars l") (auto simp: plain_level_check)
qed simp

lemma topic_to_keyexpr_Inr:
  "topic_to_keyexpr t scope = Inr k \<longleftrightarrow> valid_topic t \<and> k = scoped scope t"
proof -
  have *: "\<forall>l\<in>set (split_on CHR ''/'' t). l \<noteq> [] \<and> CHR ''/'' \<notin> set l"
    if "levels t = Inr (split_on CHR ''/'' t)"
    using that split_no_sep by (auto simp: levels_Inr)
  show ?thesis
  proof (cases "levels t")
    case (Inl e)
    then have "[] \<in> set (split_on CHR ''/'' t)"
      using levels_Inr [of t "split_on CHR ''/'' t"] by auto
    with Inl show ?thesis
      by (auto simp: topic_to_keyexpr_def valid_topic_def plain_level_def)
  next
    case (Inr ps)
    then have ps: "ps = split_on CHR ''/'' t" by (simp add: levels_Inr)
    with Inr * have "check_topic_levels ps = Inr () \<longleftrightarrow> valid_topic t"
      by (simp add: valid_topic_def check_topic_levels_Inr)
    with Inr ps show ?thesis
      by (cases "check_topic_levels ps") (auto simp: topic_to_keyexpr_def)
  qed
qed

lemma filter_level_Inr:
  assumes "l \<noteq> []" "CHR ''/'' \<notin> set l"
  shows "filter_level i last_i l = Inr c \<longleftrightarrow>
    level_ok (i = 0) (i = last_i) l \<and> c = level_chunk (i = 0) l"
proof -
  have special: "\<not> plain_level ''+''" "\<not> plain_level ''#''" "\<not> plain_level SYS_PREFIX"
    "\<not> plain_level META_PREFIX"
    by (simp_all add: plain_level_def chunk_defs)
  have sys: "check_level_chars SYS_PREFIX = Inl (ReservedChar CHR ''$'')"
    "check_level_chars META_PREFIX = Inl (ReservedChar CHR ''$'')"
    by (simp_all add: check_level_chars_def chunk_defs)
  have ne: "SYS_PREFIX \<noteq> META_PREFIX" "SYS_PREFIX \<noteq> ''+''" "SYS_PREFIX \<noteq> ''#''"
    "META_PREFIX \<noteq> ''+''" "META_PREFIX \<noteq> ''#''"
    by (simp_all add: chunk_defs)
  consider "l = SYS_PREFIX" | "l = META_PREFIX" | "l = ''+''" | "l = ''#''"
    | "l \<noteq> SYS_PREFIX" "l \<noteq> META_PREFIX" "l \<noteq> ''+''" "l \<noteq> ''#''" by blast
  then show ?thesis
  proof cases
    case 5
    with assms show ?thesis
      by (cases "check_level_chars l")
        (auto simp: filter_level_def level_ok_def level_chunk_def plain_level_check)
  next
    case 1
    then show ?thesis
      using sys special ne [symmetric]
      by (cases "i = 0") (auto simp: filter_level_def level_ok_def level_chunk_def sys)
  next
    case 2
    then show ?thesis
      using sys special ne [symmetric]
      by (cases "i = 0") (auto simp: filter_level_def level_ok_def level_chunk_def sys)
  qed (use special ne [symmetric] in \<open>auto simp: filter_level_def level_ok_def level_chunk_def\<close>)
qed

lemma filter_levels_Inr:
  assumes "\<forall>l\<in>set ls. l \<noteq> [] \<and> CHR ''/'' \<notin> set l" and "i + length ls = Suc last_i"
  shows "filter_levels i last_i ls = Inr out \<longleftrightarrow>
    filter_ok (i = 0) ls \<and> out = filter_chunks (i = 0) ls"
  using assms
proof (induction ls arbitrary: i out)
  case (Cons l ls)
  have IH: "filter_levels (Suc i) last_i ls = Inr out \<longleftrightarrow>
    filter_ok False ls \<and> out = filter_chunks False ls" for out
    using Cons.IH [of "Suc i"] Cons.prems by simp
  have last: "i = last_i \<longleftrightarrow> ls = []"
    using Cons.prems(2) by (cases ls) auto
  have head: "filter_level i last_i l = Inr c \<longleftrightarrow>
      level_ok (i = 0) (ls = []) l \<and> c = level_chunk (i = 0) l" for c
    using Cons.prems(1) filter_level_Inr by (simp add: last)
  have "filter_levels i last_i (l # ls) = Inr out \<longleftrightarrow>
      (\<exists>c cs. filter_level i last_i l = Inr c \<and> filter_levels (Suc i) last_i ls = Inr cs \<and> out = c # cs)"
    by (auto split: sum.splits)
  then show ?case by (auto simp: IH head)
qed auto

lemma filter_ok_levels: "filter_ok b ls \<Longrightarrow> [] \<notin> set ls"
  by (induction b ls rule: filter_ok.induct) (auto simp: level_ok_def plain_level_def chunk_defs)

lemma filter_to_keyexpr_Inr:
  "filter_to_keyexpr f scope = Inr k \<longleftrightarrow>
     valid_filter f \<and> k = scoped scope (join_with CHR ''/'' (filter_chunks True (split_on CHR ''/'' f)))"
proof (cases "levels f")
  case (Inl e)
  then have "[] \<in> set (split_on CHR ''/'' f)"
    using levels_Inr [of f "split_on CHR ''/'' f"] by auto
  then show ?thesis
    using Inl filter_ok_levels by (auto simp: filter_to_keyexpr_def valid_filter_def)
next
  case (Inr ps)
  then have ps: "ps = split_on CHR ''/'' f" "[] \<notin> set ps" by (auto simp: levels_Inr)
  then have "\<forall>l\<in>set ps. l \<noteq> [] \<and> CHR ''/'' \<notin> set l"
    using split_no_sep by auto
  moreover have "0 + length ps = Suc (length ps - 1)"
    using ps(1) by (simp add: Suc_leI)
  ultimately have "filter_levels 0 (length ps - 1) ps = Inr out \<longleftrightarrow>
    filter_ok True ps \<and> out = filter_chunks True ps" for out
    using filter_levels_Inr [of ps 0 "length ps - 1" out] by simp
  moreover have "filter_to_keyexpr f scope = Inr k \<longleftrightarrow>
      (\<exists>out. filter_levels 0 (length ps - 1) ps = Inr out \<and> k = scoped scope (join_with CHR ''/'' out))"
    using Inr by (auto simp: filter_to_keyexpr_def split: sum.splits)
  ultimately show ?thesis
    by (simp add: valid_filter_def ps)
qed

lemma valid_topic_nonempty: "valid_topic t \<Longrightarrow> t \<noteq> []"
  by (auto simp: valid_topic_def plain_level_def)

lemma valid_topic_head:
  "valid_topic t \<Longrightarrow> \<not> starts_with t CHR ''@'' \<and> \<not> starts_with t CHR ''$''"
proof -
  assume v: "valid_topic t"
  then obtain c cs where t: "t = c # cs" using valid_topic_nonempty by (cases t) auto
  show ?thesis
  proof (cases "split_on CHR ''/'' cs")
    case (Cons y ys)
    with v show ?thesis
      by (auto simp: t valid_topic_def plain_level_def split: if_splits)
  qed simp
qed

section \<open>Matching and coverage: the loops and their reference definitions\<close>

fun level_match :: "string list \<Rightarrow> string list \<Rightarrow> bool" where
  "level_match [] t = (t = [])"
| "level_match (l # ls) t =
     (if l = ''#'' then True
      else (case t of [] \<Rightarrow> False | x # xs \<Rightarrow> (l = ''+'' \<or> l = x) \<and> level_match ls xs))"

fun level_covers :: "string list \<Rightarrow> string list \<Rightarrow> bool" where
  "level_covers [] is = (is = [])"
| "level_covers (ol # os) is =
     (if ol = ''#'' then True
      else (case is of [] \<Rightarrow> False
            | x # xs \<Rightarrow> (if ol = ''+'' then x \<noteq> ''#'' else ol = x) \<and> level_covers os xs))"

lemma topic_matches_loop_eq:
  "i \<le> length t \<Longrightarrow> topic_matches_loop (i + length f) f i t = level_match f (drop i t)"
proof (induction f arbitrary: i)
  case (Cons l f)
  show ?case
  proof (cases "i < length t")
    case True
    then have "drop i t = t ! i # drop (Suc i) t" by (rule Cons_nth_drop_Suc [symmetric])
    with True Cons.IH [of "Suc i"] show ?thesis by (auto simp: get_at_nth)
  next
    case False
    with Cons.prems show ?thesis by (simp add: get_at_nth)
  qed
qed auto

lemma topic_matches_level_match:
  "topic_matches f t = level_match (split_on CHR ''/'' f) (split_on CHR ''/'' t)"
  using topic_matches_loop_eq [of 0] by (simp add: topic_matches_def)

lemma filter_covers_loop_eq:
  "filter_covers_loop os is idx = level_covers (drop idx os) (drop idx is)"
proof (induction os "is" idx rule: filter_covers_loop.induct)
  case (1 os "is" idx)
  show ?case
  proof (cases "drop idx os")
    case Nil
    then show ?thesis
      by (cases "drop idx is") (simp_all add: filter_covers_loop.simps [of os "is" idx] get_at_drop)
  next
    case (Cons ol os')
    then have os': "drop (Suc idx) os = os'" by (metis drop_Suc tl_drop list.sel(3))
    show ?thesis
    proof (cases "drop idx is")
      case Nil
      with Cons show ?thesis
        by (simp add: filter_covers_loop.simps [of os "is" idx] get_at_drop)
    next
      case (Cons x is')
      then have is': "drop (Suc idx) is = is'" by (metis drop_Suc tl_drop list.sel(3))
      from \<open>drop idx os = ol # os'\<close> have o: "get_at os idx = Some ol" by (simp add: get_at_drop)
      from Cons have i: "get_at is idx = Some x" by (simp add: get_at_drop)
      have "ol \<noteq> ''#'' \<Longrightarrow> (if ol = ''+'' then x \<noteq> ''#'' else ol = x) \<Longrightarrow>
          filter_covers_loop os is (Suc idx) = level_covers os' is'"
        using "1.IH" o i by (auto simp: os' is' split: if_splits)
      with Cons \<open>drop idx os = ol # os'\<close> show ?thesis
        by (simp add: filter_covers_loop.simps [of os "is" idx] o i)
    qed
  qed
qed

lemma filter_covers_level_covers:
  "filter_covers outer inner = level_covers (split_on CHR ''/'' outer) (split_on CHR ''/'' inner)"
  by (simp add: filter_covers_def filter_covers_loop_eq)

lemma level_covers_sound: "level_covers os is \<Longrightarrow> level_match is t \<Longrightarrow> level_match os t"
  by (induction os "is" arbitrary: t rule: level_covers.induct)
    (auto split: list.splits if_splits)

text \<open>A concrete level of a topic name, as it may occur in any delivered topic
  (\<open>$SYS\<close> and \<open>$meta\<close> levels included).\<close>

definition topic_level :: "string \<Rightarrow> bool" where
  "topic_level l \<longleftrightarrow> l \<noteq> [] \<and> CHR ''/'' \<notin> set l \<and> l \<noteq> ''+'' \<and> l \<noteq> ''#''"

definition topic_name :: "string \<Rightarrow> bool" where
  "topic_name t \<longleftrightarrow> (\<forall>l\<in>set (split_on CHR ''/'' t). topic_level l)"

text \<open>The topic levels a filter matches when every \<open>+\<close> becomes \<open>w\<close> and \<open>#\<close> stands for
  no level.\<close>

fun level_instance :: "string \<Rightarrow> string list \<Rightarrow> string list" where
  "level_instance w [] = []"
| "level_instance w (l # ls) =
     (if l = ''#'' then [] else (if l = ''+'' then w else l) # level_instance w ls)"

lemma level_instance_match: "level_match ls (level_instance w ls)"
  by (induction ls) auto

lemma level_instance_levels:
  "\<forall>l\<in>set ls. l \<noteq> [] \<and> CHR ''/'' \<notin> set l \<Longrightarrow> topic_level w \<Longrightarrow>
     \<forall>l\<in>set (level_instance w ls). topic_level l"
proof (induction ls)
  case (Cons l ls)
  from Cons.prems(1) have "l \<noteq> ''+'' \<Longrightarrow> l \<noteq> ''#'' \<Longrightarrow> topic_level l"
    using bspec [OF Cons.prems(1), of l] by (simp add: topic_level_def)
  moreover from Cons have "\<forall>l\<in>set (level_instance w ls). topic_level l" by (meson list.set_intros(2))
  ultimately show ?case using Cons.prems(2) by simp
qed simp

lemma level_covers_complete:
  assumes "\<And>t. \<forall>l\<in>set t. topic_level l \<Longrightarrow> level_match is t \<Longrightarrow> level_match os t"
    and "\<forall>l\<in>set is. l \<noteq> [] \<and> CHR ''/'' \<notin> set l" and "topic_level w" and "w \<notin> set os"
  shows "level_covers os is"
  using assms
proof (induction os arbitrary: "is")
  case Nil
  have "level_instance w is = []"
    using Nil(1) [of "level_instance w is"] level_instance_match level_instance_levels Nil(2,3)
    by auto
  with Nil(1) [of "[w]"] Nil(3) show ?case
    by (cases "is") (auto split: if_splits)
next
  case (Cons ol os)
  show ?case
  proof (cases "ol = ''#''")
    case False
    then have "\<not> level_match is []"
      using Cons.prems(1) [of "[]"] by auto
    then obtain x xs where xs: "is = x # xs" "x \<noteq> ''#''"
      by (cases "is") (auto split: if_splits)
    define y where "y = (if x = ''+'' then w else x)"
    have y: "topic_level y"
      using Cons.prems(2,3) xs by (auto simp: y_def topic_level_def)
    have step: "(ol = ''+'' \<or> ol = y) \<and> level_match os t"
      if "\<forall>l\<in>set t. topic_level l" "level_match xs t" for t
      using Cons.prems(1) [of "y # t"] that xs False y by (auto simp: y_def split: if_splits)
    have "ol = ''+'' \<or> ol = y"
      using step [of "level_instance w xs"] level_instance_match level_instance_levels Cons.prems(2,3) xs
      by auto
    then have "if ol = ''+'' then x \<noteq> ''#'' else ol = x"
      using Cons.prems(4) xs by (auto simp: y_def split: if_splits)
    moreover have "level_covers os xs"
      by (rule Cons.IH) (use step Cons.prems(2,3,4) xs in auto)
    ultimately show ?thesis by (simp add: False xs)
  qed simp
qed

text \<open>A level longer than every level of a list, hence not among them.\<close>

definition fresh_level :: "string list \<Rightarrow> string" where
  "fresh_level ls = replicate (Suc (Suc (sum_list (map length ls)))) CHR ''x''"

lemma fresh_level_topic: "topic_level (fresh_level ls)"
  by (auto simp: topic_level_def fresh_level_def)

lemma fresh_level_notin: "fresh_level ls \<notin> set ls"
proof
  assume "fresh_level ls \<in> set ls"
  then have "length (fresh_level ls) \<le> sum_list (map length ls)"
    by (auto intro!: member_le_sum_list)
  then show False by (simp add: fresh_level_def)
qed

lemma split_topic_name:
  "t \<noteq> [] \<Longrightarrow> \<forall>l\<in>set t. topic_level l \<Longrightarrow>
     topic_name (join_with CHR ''/'' t) \<and> split_on CHR ''/'' (join_with CHR ''/'' t) = t"
  by (auto simp: topic_name_def topic_level_def)

section \<open>Scopes and keyspaces\<close>

lemma strip_scope_scoped [simp]: "strip_scope (scoped scope ke) scope = Some ke"
  by (simp add: strip_scope_def scoped_def)

lemma strip_prefix_head_None: "\<not> starts_with s c \<Longrightarrow> strip_prefix (c # p) s = None"
  by (cases s) auto

lemma keyexpr_to_topic_plain:
  assumes "\<not> starts_with s CHR ''@''"
  shows "keyexpr_to_topic (scoped scope s) scope = Some s"
  using assms by (simp add: keyexpr_to_topic_def chunk_defs strip_prefix_head_None)

section \<open>Properties\<close>

text \<open>A publish topic the node accepts comes back unchanged from its key expression,
  under every scope: what \<open>topic_to_keyexpr\<close> emits, \<open>keyexpr_to_topic\<close> maps back to the topic.\<close>

theorem publish_topic_roundtrip:
  assumes "topic_to_keyexpr t scope = Inr ke"
  shows "keyexpr_to_topic ke scope = Some t"
proof -
  from assms have "valid_topic t" and ke: "ke = scoped scope t"
    by (simp_all add: topic_to_keyexpr_Inr)
  then show ?thesis
    using valid_topic_head by (simp add: ke keyexpr_to_topic_plain)
qed

theorem publish_topic_roundtrip_witness:
  "topic_to_keyexpr ''plant/kiln1'' ''ent'' = Inr ''ent/plant/kiln1''
   \<and> keyexpr_to_topic ''ent/plant/kiln1'' ''ent'' = Some ''plant/kiln1''"
proof -
  have h: "topic_to_keyexpr ''plant/kiln1'' ''ent'' = Inr ''ent/plant/kiln1''" by code_simp
  show ?thesis using h publish_topic_roundtrip [OF h] by blast
qed

text \<open>The internal keyspaces are disjoint and come back as what they are: \<open>@sys\<close> keys as
  \<open>$SYS/...\<close> topics, \<open>@meta\<close> keys as \<open>$meta/...\<close> topics, \<open>@retained\<close> keys never as a client
  topic and only through the retained mapping, which recovers the topic; the retained mapping
  rejects the other two.\<close>

theorem keyspace_roundtrip:
  "keyexpr_to_topic (sys_keyexpr x scope) scope = Some (SYS_PREFIX @ ''/'' @ x)
   \<and> keyexpr_to_topic (meta_keyexpr x scope) scope = Some (META_PREFIX @ ''/'' @ x)
   \<and> keyexpr_to_topic (retained_keyexpr x scope) scope = None
   \<and> retained_keyexpr_to_topic (retained_keyexpr x scope) scope = Some x
   \<and> retained_keyexpr_to_topic (sys_keyexpr x scope) scope = None
   \<and> retained_keyexpr_to_topic (meta_keyexpr x scope) scope = None"
  by (simp add: keyexpr_to_topic_def retained_keyexpr_to_topic_def sys_keyexpr_def meta_keyexpr_def
      retained_keyexpr_def chunk_defs)

text \<open>(C22) Filter coverage is exact. For a filter the node accepts, other than \<open>#\<close> alone,
  \<open>filter_covers outer inner\<close> holds exactly when every concrete topic that \<open>inner\<close> matches is
  matched by \<open>outer\<close>. (For \<open>inner = #\<close> the code is conservative: \<open>+/#\<close> matches every topic too
  and is not reported as covering it.)\<close>

theorem filter_covers_exact:
  assumes "filter_to_keyexpr inner scope = Inr ke" and "inner \<noteq> ''#''"
  shows "filter_covers outer inner \<longleftrightarrow>
    (\<forall>t. topic_name t \<longrightarrow> topic_matches inner t \<longrightarrow> topic_matches outer t)"
proof
  assume "filter_covers outer inner"
  then show "\<forall>t. topic_name t \<longrightarrow> topic_matches inner t \<longrightarrow> topic_matches outer t"
    using level_covers_sound by (simp add: filter_covers_level_covers topic_matches_level_match)
next
  let ?os = "split_on CHR ''/'' outer" and ?is = "split_on CHR ''/'' inner"
  assume all: "\<forall>t. topic_name t \<longrightarrow> topic_matches inner t \<longrightarrow> topic_matches outer t"
  from assms(1) have ok: "filter_ok True ?is"
    by (simp add: filter_to_keyexpr_Inr valid_filter_def)
  have wf: "\<forall>l\<in>set ?is. l \<noteq> [] \<and> CHR ''/'' \<notin> set l"
    using filter_ok_levels [OF ok] split_no_sep by blast
  obtain l ls where ls: "?is = l # ls" by (cases ?is) auto
  have "l \<noteq> ''#''"
  proof
    assume l: "l = ''#''"
    then have "ls = []"
      using ok by (simp add: ls level_ok_def plain_level_def chunk_defs)
    with l ls have "join_with CHR ''/'' ?is = ''#''" by simp
    with assms(2) show False by (simp add: join_split)
  qed
  have "level_covers ?os ?is"
  proof (rule level_covers_complete [where w = "fresh_level ?os"])
    fix t assume t: "\<forall>l\<in>set t. topic_level l" "level_match ?is t"
    with ls \<open>l \<noteq> ''#''\<close> have "t \<noteq> []" by auto
    from split_topic_name [OF this t(1)] all t(2) show "level_match ?os t"
      by (metis topic_matches_level_match)
  qed (use wf fresh_level_topic fresh_level_notin in auto)
  then show "filter_covers outer inner" by (simp add: filter_covers_level_covers)
qed

theorem filter_covers_exact_witness:
  "filter_to_keyexpr ''plant/+/temp'' [] = Inr ''plant/*/temp''
   \<and> topic_matches ''plant/#'' ''plant/kiln1/temp''
   \<and> (\<exists>t. topic_name t \<and> topic_matches ''plant/+/temp'' t \<and> \<not> topic_matches ''plant/kiln1/#'' t)"
proof -
  have h: "filter_to_keyexpr ''plant/+/temp'' [] = Inr ''plant/*/temp''" by code_simp
  have c: "filter_covers ''plant/#'' ''plant/+/temp''" "\<not> filter_covers ''plant/kiln1/#'' ''plant/+/temp''"
    "topic_name ''plant/kiln1/temp''" "topic_matches ''plant/+/temp'' ''plant/kiln1/temp''"
    by code_simp+
  show ?thesis
    using h c filter_covers_exact [OF h, of "''plant/#''"] filter_covers_exact [OF h, of "''plant/kiln1/#''"]
    by auto
qed

end
