(* ===== verification/Keyexpr.thy ===== *)
theory Keyexpr
  imports Topic
begin

text \<open>
  The contract with the bus (Zenoh, not part of the repository): which samples a subscriber
  declared on a key expression receives. A key expression is a \<open>/\<close>-separated list of chunks;
  \<open>*\<close> stands for one chunk, \<open>**\<close> for any number of chunks, any other chunk for itself, and a
  chunk that begins with \<open>@\<close> is verbatim: no wildcard stands for it. The matching function is
  a parameter; the locale \<open>bus_matching\<close> names what the code relies on, and
  \<open>documented_match\<close> is an executable function with that behaviour.

  The properties here are the ones the whole node rests on: translating filters and topics
  and letting the bus match delivers exactly what MQTT matching says, and no client filter
  reaches the internal keyspaces.
\<close>

section \<open>The bus contract\<close>

definition verbatim :: "string \<Rightarrow> bool" where
  "verbatim c = starts_with c CHR ''@''"

definition literal_chunk :: "string \<Rightarrow> bool" where
  "literal_chunk c \<longleftrightarrow> CHR ''*'' \<notin> set c \<and> CHR ''$'' \<notin> set c"

text \<open>A scope the configuration may name: empty, or literal chunks.\<close>

definition scope_ok :: "string \<Rightarrow> bool" where
  "scope_ok scope \<longleftrightarrow> scope = [] \<or> (\<forall>c\<in>set (split_on CHR ''/'' scope). literal_chunk c)"

text \<open>A subscriber on \<open>ke\<close> receives a sample published on the concrete key \<open>k\<close>.\<close>

definition receives :: "(string list \<Rightarrow> string list \<Rightarrow> bool) \<Rightarrow> string \<Rightarrow> string \<Rightarrow> bool" where
  "receives m ke k = m (split_on CHR ''/'' ke) (split_on CHR ''/'' k)"

lemma level_ok_later:
  assumes "level_ok b e l" and "b \<Longrightarrow> l \<noteq> SYS_PREFIX \<and> l \<noteq> META_PREFIX"
  shows "l = [CHR ''+''] \<or> l = [CHR ''#''] \<and> e \<or>
    plain_level l \<and> l \<noteq> [CHR ''+''] \<and> l \<noteq> [CHR ''#'']"
proof -
  have "plain_level l \<Longrightarrow> l \<noteq> [CHR ''+''] \<and> l \<noteq> [CHR ''#'']" by (auto simp: plain_level_def)
  with assms show ?thesis unfolding level_ok_def by blast
qed

locale bus_matching =
  fixes m :: "string list \<Rightarrow> string list \<Rightarrow> bool"
  assumes match_nil: "m [] ks \<longleftrightarrow> ks = []"
    and match_star: "m (''*'' # ps) ks \<longleftrightarrow> (\<exists>k ks'. ks = k # ks' \<and> \<not> verbatim k \<and> m ps ks')"
    and match_dstar: "m (''**'' # ps) ks \<longleftrightarrow>
      m ps ks \<or> (\<exists>k ks'. ks = k # ks' \<and> \<not> verbatim k \<and> m (''**'' # ps) ks')"
    and match_literal: "literal_chunk p \<Longrightarrow> m (p # ps) ks \<longleftrightarrow> (\<exists>ks'. ks = p # ks' \<and> m ps ks')"
begin

lemma match_all: "m [''**''] ks \<longleftrightarrow> (\<forall>k\<in>set ks. \<not> verbatim k)"
proof (induction ks)
  case Nil
  show ?case by (subst match_dstar) (simp add: match_nil)
next
  case (Cons k ks)
  then show ?case by (subst match_dstar) (auto simp: match_nil)
qed

text \<open>Below the first level the emitted chunks match exactly as the filter does.\<close>

lemma match_filter_chunks:
  "filter_ok False fs \<Longrightarrow> \<forall>t\<in>set ts. \<not> verbatim t \<Longrightarrow>
     m (filter_chunks False fs) ts \<longleftrightarrow> level_match fs ts"
proof (induction fs arbitrary: ts)
  case (Cons f fs)
  from Cons.prems(1) have "level_ok False (fs = []) f" by simp
  then
    consider (plus) "f = [CHR ''+'']" | (hash) "f = [CHR ''#'']" "fs = []"
      | (plain) "plain_level f" "f \<noteq> [CHR ''+'']" "f \<noteq> [CHR ''#'']"
    using level_ok_later [of False "fs = []" f] by blast
  then show ?case
  proof cases
    case plus
    with Cons show ?thesis
      by (cases ts) (auto simp: level_chunk_def match_star)
  next
    case hash
    with Cons.prems(2) show ?thesis by (simp add: level_chunk_def match_all)
  next
    case plain
    then have "literal_chunk f" by (simp add: plain_level_def literal_chunk_def)
    with plain Cons show ?thesis
      by (cases ts) (auto simp: level_chunk_def match_literal)
  qed
qed (auto simp: match_nil)

lemma match_scope: "\<forall>c\<in>set sc. literal_chunk c \<Longrightarrow> m (sc @ ps) (sc @ ks) \<longleftrightarrow> m ps ks"
  by (induction sc) (auto simp: match_literal)

lemma receives_scoped:
  "scope_ok scope \<Longrightarrow> receives m (scoped scope ke) (scoped scope k) \<longleftrightarrow> receives m ke k"
  by (auto simp: receives_def scoped_def scope_ok_def split_append match_scope)

text \<open>A filter whose first level is not \<open>$SYS\<close> or \<open>$meta\<close> reaches no verbatim chunk.\<close>

lemma match_verbatim_head:
  assumes "filter_ok b fs" "fs \<noteq> []" "verbatim k" and "b \<Longrightarrow> hd fs \<noteq> SYS_PREFIX \<and> hd fs \<noteq> META_PREFIX"
  shows "\<not> m (filter_chunks b fs) (k # ks)"
proof -
  obtain f fs' where fs: "fs = f # fs'" using assms(2) by (cases fs) auto
  with assms(1,4) have "level_ok b (fs' = []) f" "b \<Longrightarrow> f \<noteq> SYS_PREFIX \<and> f \<noteq> META_PREFIX"
    by simp_all
  then
    consider (plus) "f = [CHR ''+'']" | (hash) "f = [CHR ''#'']" "fs' = []"
      | (plain) "plain_level f" "f \<noteq> [CHR ''+'']" "f \<noteq> [CHR ''#'']"
    using level_ok_later [of b "fs' = []" f] by blast
  then show ?thesis
  proof cases
    case plus
    with fs assms(3) show ?thesis by (simp add: level_chunk_def match_star chunk_defs)
  next
    case hash
    with fs assms(3) show ?thesis by (simp add: level_chunk_def match_all chunk_defs)
  next
    case plain
    then have "literal_chunk f" "\<not> verbatim f"
      by (simp_all add: plain_level_def literal_chunk_def verbatim_def)
    with plain fs assms(3,4) show ?thesis
      by (auto simp: level_chunk_def match_literal)
  qed
qed

end

section \<open>The documented behaviour, executable\<close>

function documented_match :: "string list \<Rightarrow> string list \<Rightarrow> bool" where
  "documented_match [] ks = (ks = [])"
| "documented_match (p # ps) ks =
     (if p = ''**'' then
        documented_match ps ks \<or>
        (case ks of [] \<Rightarrow> False | k # ks' \<Rightarrow> \<not> verbatim k \<and> documented_match (p # ps) ks')
      else
        (case ks of [] \<Rightarrow> False
         | k # ks' \<Rightarrow> (if p = ''*'' then \<not> verbatim k else p = k) \<and> documented_match ps ks'))"
  by pat_completeness auto
termination
  by (relation "measure (\<lambda>(ps, ks). length ps + length ks)") auto

declare documented_match.simps(2) [simp del]

interpretation documented: bus_matching documented_match
proof
  fix ps ks :: "string list"
  show "documented_match (''**'' # ps) ks \<longleftrightarrow>
      documented_match ps ks \<or> (\<exists>k ks'. ks = k # ks' \<and> \<not> verbatim k \<and> documented_match (''**'' # ps) ks')"
    by (subst documented_match.simps) (auto split: list.splits)
  show "documented_match (''*'' # ps) ks \<longleftrightarrow>
      (\<exists>k ks'. ks = k # ks' \<and> \<not> verbatim k \<and> documented_match ps ks')"
    by (subst documented_match.simps) (auto split: list.splits)
next
  fix p :: string and ps ks :: "string list"
  assume "literal_chunk p"
  then have "p \<noteq> ''*''" "p \<noteq> ''**''" by (auto simp: literal_chunk_def)
  then show "documented_match (p # ps) ks \<longleftrightarrow> (\<exists>ks'. ks = p # ks' \<and> documented_match ps ks')"
    by (subst documented_match.simps) (auto split: list.splits)
qed simp

section \<open>Shared lemmas\<close>

lemma filter_chunk_levels:
  "filter_ok b fs \<Longrightarrow> \<forall>l\<in>set fs. CHR ''/'' \<notin> set l \<Longrightarrow> \<forall>c\<in>set (filter_chunks b fs). CHR ''/'' \<notin> set c"
  by (induction b fs rule: filter_ok.induct) (auto simp: level_chunk_def chunk_defs)

lemma filter_chunks_nonempty: "fs \<noteq> [] \<Longrightarrow> filter_chunks b fs \<noteq> []"
  by (cases fs) auto

lemma split_filter_chunks:
  assumes "valid_filter f"
  shows "split_on CHR ''/'' (join_with CHR ''/'' (filter_chunks True (split_on CHR ''/'' f)))
    = filter_chunks True (split_on CHR ''/'' f)"
proof (rule split_join)
  show "filter_chunks True (split_on CHR ''/'' f) \<noteq> []"
    by (rule filter_chunks_nonempty) simp
  show "\<forall>c\<in>set (filter_chunks True (split_on CHR ''/'' f)). CHR ''/'' \<notin> set c"
    using assms split_no_sep by (intro filter_chunk_levels) (auto simp: valid_filter_def)
qed

lemma plain_not_verbatim: "plain_level l \<Longrightarrow> \<not> verbatim l"
  by (simp add: plain_level_def verbatim_def)

lemma plain_not_prefix: "plain_level l \<Longrightarrow> l \<noteq> SYS_PREFIX \<and> l \<noteq> META_PREFIX \<and> l \<noteq> SYS_CHUNK \<and> l \<noteq> META_CHUNK"
  by (auto simp: plain_level_def chunk_defs)

lemma chunk_literal: "literal_chunk SYS_CHUNK" "literal_chunk META_CHUNK"
  "verbatim SYS_CHUNK" "verbatim META_CHUNK" "verbatim RETAINED_CHUNK"
  by (simp_all add: literal_chunk_def verbatim_def chunk_defs)

lemma level_chunk_first:
  "level_chunk True SYS_PREFIX = SYS_CHUNK" "level_chunk True META_PREFIX = META_CHUNK"
  by (simp_all add: level_chunk_def chunk_defs)

lemma level_chunk_later: "f \<noteq> SYS_PREFIX \<Longrightarrow> f \<noteq> META_PREFIX \<Longrightarrow> level_chunk True f = level_chunk False f"
  by (simp add: level_chunk_def)

context bus_matching
begin

text \<open>Against the levels of a client topic the emitted chunks match as the filter does; a
  \<open>$SYS\<close> or \<open>$meta\<close> filter matches none of them on either side.\<close>

lemma match_first_chunks:
  assumes ok: "filter_ok True fs" and fs: "fs \<noteq> []" and plain: "\<forall>t\<in>set ts. plain_level t"
  shows "m (filter_chunks True fs) ts \<longleftrightarrow> level_match fs ts"
proof -
  obtain f fs' where f: "fs = f # fs'" using fs by (cases fs) auto
  show ?thesis
  proof (cases "f = SYS_PREFIX \<or> f = META_PREFIX")
    case True
    then have "f \<noteq> ''#''" "f \<noteq> ''+''" by (auto simp: chunk_defs)
    with True plain show ?thesis
      by (cases ts) (auto simp: f level_chunk_first match_literal chunk_literal dest: plain_not_prefix)
  next
    case False
    with ok have "filter_ok False fs" by (simp add: f level_ok_def)
    moreover from False have "filter_chunks True fs = filter_chunks False fs"
      by (simp add: f level_chunk_later)
    ultimately show ?thesis
      using match_filter_chunks plain plain_not_verbatim by simp
  qed
qed

end

section \<open>Properties\<close>

lemma routing:
  assumes "bus_matching m" and "scope_ok scope"
    and "filter_to_keyexpr f scope = Inr ke" and "topic_to_keyexpr t scope = Inr k"
  shows "receives m ke k \<longleftrightarrow> topic_matches f t"
proof -
  let ?f = "split_on CHR ''/'' f" and ?t = "split_on CHR ''/'' t"
  from assms(3) have f: "valid_filter f" and ke: "ke = scoped scope (join_with CHR ''/'' (filter_chunks True ?f))"
    by (simp_all add: filter_to_keyexpr_Inr)
  from assms(4) have t: "valid_topic t" and k: "k = scoped scope t"
    by (simp_all add: topic_to_keyexpr_Inr)
  have "receives m ke k \<longleftrightarrow> m (filter_chunks True ?f) ?t"
    unfolding ke k bus_matching.receives_scoped [OF assms(1,2)]
    by (simp add: receives_def split_filter_chunks [OF f])
  also have "\<dots> \<longleftrightarrow> level_match ?f ?t"
    using f t by (intro bus_matching.match_first_chunks [OF assms(1)])
      (auto simp: valid_filter_def valid_topic_def)
  finally show ?thesis by (simp add: topic_matches_level_match)
qed

text \<open>(C2) Routing is exact. For a filter and a publish topic the node accepts, under the same
  scope, the bus delivers the publication to the subscription if and only if the MQTT filter
  matches the topic; the only assumption is the bus's matching contract.\<close>

theorem routing_exact:
  assumes "bus_matching m" and "scope_ok scope"
    and "filter_to_keyexpr f scope = Inr ke" and "topic_to_keyexpr t scope = Inr k"
  shows "receives m ke k \<longleftrightarrow> topic_matches f t"
  by (rule routing [OF assms])

theorem routing_exact_witness:
  "receives documented_match ''ent/plant/*/temp'' ''ent/plant/kiln1/temp'' \<longleftrightarrow>
   topic_matches ''plant/+/temp'' ''plant/kiln1/temp''"
proof -
  have h: "scope_ok ''ent''" "filter_to_keyexpr ''plant/+/temp'' ''ent'' = Inr ''ent/plant/*/temp''"
    "topic_to_keyexpr ''plant/kiln1/temp'' ''ent'' = Inr ''ent/plant/kiln1/temp''"
    by code_simp+
  show ?thesis
    by (rule routing_exact [OF documented.bus_matching_axioms h])
qed

text \<open>(C18) The internal keyspaces are unobservable where they should be. No filter a client can
  subscribe to receives a retained-store key, and a filter that does not begin with a \<open>$SYS\<close>
  or \<open>$meta\<close> level (in particular \<open>#\<close> and \<open>+/...\<close>, MQTT-4.7.2-1) receives no \<open>$SYS\<close> and no
  \<open>$meta\<close> key either.\<close>

theorem internal_keys_isolated:
  assumes "bus_matching m" and "scope_ok scope" and "filter_to_keyexpr f scope = Inr ke"
  shows "\<not> receives m ke (retained_keyexpr x scope)
    \<and> (hd (split_on CHR ''/'' f) \<noteq> SYS_PREFIX \<and> hd (split_on CHR ''/'' f) \<noteq> META_PREFIX \<longrightarrow>
        \<not> receives m ke (sys_keyexpr x scope) \<and> \<not> receives m ke (meta_keyexpr x scope))"
proof -
  let ?f = "split_on CHR ''/'' f"
  from assms(3) have f: "valid_filter f" and ke: "ke = scoped scope (join_with CHR ''/'' (filter_chunks True ?f))"
    by (simp_all add: filter_to_keyexpr_Inr)
  have rec: "receives m ke (scoped scope (c @ ''/'' @ x)) \<longleftrightarrow>
      m (filter_chunks True ?f) (c # split_on CHR ''/'' x)" if "CHR ''/'' \<notin> set c" for c
    unfolding ke bus_matching.receives_scoped [OF assms(1,2)]
    using that by (simp add: receives_def split_filter_chunks [OF f] split_append_sep)
  have none: "\<not> m (filter_chunks True ?f) (c # ks)"
    if "verbatim c" "hd ?f \<noteq> SYS_PREFIX \<and> hd ?f \<noteq> META_PREFIX" for c ks
    using bus_matching.match_verbatim_head [OF assms(1), of True ?f c ks] f that
    by (auto simp: valid_filter_def)
  have "\<not> m (filter_chunks True ?f) (RETAINED_CHUNK # split_on CHR ''/'' x)"
  proof (cases "hd ?f \<noteq> SYS_PREFIX \<and> hd ?f \<noteq> META_PREFIX")
    case False
    obtain f' fs where fs: "?f = f' # fs" by (cases ?f) auto
    with False have "level_chunk True f' \<in> {SYS_CHUNK, META_CHUNK}"
      by (auto simp: level_chunk_first)
    then show ?thesis
      using bus_matching.match_literal [OF assms(1)] chunk_literal
      by (auto simp: fs chunk_defs)
  qed (use none chunk_literal in blast)
  then show ?thesis
    using rec [of RETAINED_CHUNK] rec [of SYS_CHUNK] rec [of META_CHUNK] none chunk_literal
    by (auto simp: retained_keyexpr_def sys_keyexpr_def meta_keyexpr_def chunk_defs)
qed

theorem internal_keys_isolated_witness:
  "\<not> receives documented_match ''**'' (retained_keyexpr ''a/b'' [])
   \<and> \<not> receives documented_match ''**'' (sys_keyexpr ''broker/n1'' [])"
proof -
  have h: "scope_ok []" "filter_to_keyexpr ''#'' [] = Inr ''**''"
    "hd (split_on CHR ''/'' ''#'') \<noteq> SYS_PREFIX" "hd (split_on CHR ''/'' ''#'') \<noteq> META_PREFIX"
    by code_simp+
  show ?thesis
    using internal_keys_isolated [OF documented.bus_matching_axioms h(1,2), of "''a/b''"]
      internal_keys_isolated [OF documented.bus_matching_axioms h(1,2), of "''broker/n1''"] h(3,4)
    by blast
qed

text \<open>Node statistics and annotations reach exactly the filters that name them: a filter
  \<open>$SYS/g\<close> receives the key of the node topic \<open>$SYS/x\<close> if and only if \<open>g\<close> matches \<open>x\<close>, and
  likewise for \<open>$meta\<close>, whenever \<open>x\<close> has no verbatim chunk.\<close>

theorem sys_meta_routing:
  assumes "bus_matching m" and "scope_ok scope"
    and "filter_to_keyexpr (SYS_PREFIX @ ''/'' @ g) scope = Inr kes"
    and "filter_to_keyexpr (META_PREFIX @ ''/'' @ g) scope = Inr kem"
    and "\<forall>c\<in>set (split_on CHR ''/'' x). \<not> verbatim c"
  shows "(receives m kes (sys_keyexpr x scope) \<longleftrightarrow> topic_matches g x)
    \<and> (receives m kem (meta_keyexpr x scope) \<longleftrightarrow> topic_matches g x)"
proof -
  let ?g = "split_on CHR ''/'' g" and ?x = "split_on CHR ''/'' x"
  have split: "split_on CHR ''/'' (p @ ''/'' @ g) = p # ?g" if "CHR ''/'' \<notin> set p" for p
    using that by (simp add: split_append_sep)
  have main: "receives m ke (scoped scope (c @ ''/'' @ x)) \<longleftrightarrow> level_match ?g ?x"
    if ke: "filter_to_keyexpr (p @ ''/'' @ g) scope = Inr ke" and p: "CHR ''/'' \<notin> set p"
      and c: "level_chunk True p = c" "literal_chunk c" "CHR ''/'' \<notin> set c" for p c ke
  proof -
    from ke have f: "valid_filter (p @ ''/'' @ g)"
      and ke': "ke = scoped scope (join_with CHR ''/'' (filter_chunks True (split_on CHR ''/'' (p @ ''/'' @ g))))"
      by (simp_all add: filter_to_keyexpr_Inr)
    have ok: "filter_ok False ?g" using f by (simp add: valid_filter_def split [OF p, simplified])
    have "receives m ke (scoped scope (c @ ''/'' @ x)) \<longleftrightarrow> m (c # filter_chunks False ?g) (c # ?x)"
      unfolding ke' bus_matching.receives_scoped [OF assms(1,2)]
      using c p split_filter_chunks [OF f]
      by (simp add: receives_def split_append_sep)
    also have "\<dots> \<longleftrightarrow> m (filter_chunks False ?g) ?x"
      using bus_matching.match_literal [OF assms(1) c(2)] by auto
    also have "\<dots> \<longleftrightarrow> level_match ?g ?x"
      by (rule bus_matching.match_filter_chunks [OF assms(1) ok assms(5)])
    finally show ?thesis .
  qed
  show ?thesis
    using main [OF assms(3)] main [OF assms(4)] level_chunk_first chunk_literal
    by (simp add: sys_keyexpr_def meta_keyexpr_def topic_matches_level_match chunk_defs)
qed

theorem sys_meta_routing_witness:
  "receives documented_match ''@sys/broker/*/uptime'' (sys_keyexpr ''broker/n1/uptime'' [])
   \<longleftrightarrow> topic_matches ''broker/+/uptime'' ''broker/n1/uptime''"
proof -
  have h: "scope_ok []"
    "filter_to_keyexpr (SYS_PREFIX @ ''/'' @ ''broker/+/uptime'') [] = Inr ''@sys/broker/*/uptime''"
    "filter_to_keyexpr (META_PREFIX @ ''/'' @ ''broker/+/uptime'') [] = Inr ''@meta/broker/*/uptime''"
    "\<forall>c\<in>set (split_on CHR ''/'' ''broker/n1/uptime''). \<not> verbatim c"
    by code_simp+
  show ?thesis
    using sys_meta_routing [OF documented.bus_matching_axioms h] by blast
qed

end
