(* ===== verification/Bytes.thy ===== *)
theory Bytes
  imports Prelude
begin

text \<open>
  Bytes, UTF-8, hexadecimal and big-endian encodings: what the sources take from the Rust
  standard library (\<open>as_bytes\<close>, \<open>String::from_utf8\<close>, \<open>to_be_bytes\<close>, \<open>from_be_bytes\<close>, the
  format \<open>{:02x}\<close>, \<open>to_lowercase\<close>), with the round-trip lemmas of the file codecs. The
  locale \<open>record_stream\<close> is the contract of a decode loop over a stream of records; the
  three file formats of the node (offline queue, subscriptions, retained snapshot) each
  interpret it.
\<close>

section \<open>Strings and bytes\<close>

definition char_u8 :: "char \<Rightarrow> u8" where
  "char_u8 c = word_of_nat (of_char c)"

definition u8_char :: "u8 \<Rightarrow> char" where
  "u8_char b = char_of (unat b)"

definition as_bytes :: "string \<Rightarrow> bytes" where
  "as_bytes s = map char_u8 s"

definition cont_byte :: "u8 \<Rightarrow> bool" where
  "cont_byte b \<longleftrightarrow> 0x80 \<le> unat b \<and> unat b \<le> 0xBF"

text \<open>Well-formed UTF-8, by the byte ranges \<open>String::from_utf8\<close> accepts.\<close>

fun utf8_valid :: "bytes \<Rightarrow> bool" where
  "utf8_valid [] = True"
| "utf8_valid (a # r) =
     (let n = unat a in
      if n \<le> 0x7F then utf8_valid r
      else if 0xC2 \<le> n \<and> n \<le> 0xDF then
        (case r of b # r' \<Rightarrow> cont_byte b \<and> utf8_valid r' | _ \<Rightarrow> False)
      else if 0xE0 \<le> n \<and> n \<le> 0xEF then
        (case r of b # c # r' \<Rightarrow>
           (let k = unat b in
            (if n = 0xE0 then 0xA0 \<le> k \<and> k \<le> 0xBF
             else if n = 0xED then 0x80 \<le> k \<and> k \<le> 0x9F
             else cont_byte b)) \<and> cont_byte c \<and> utf8_valid r'
         | _ \<Rightarrow> False)
      else if 0xF0 \<le> n \<and> n \<le> 0xF4 then
        (case r of b # c # d # r' \<Rightarrow>
           (let k = unat b in
            (if n = 0xF0 then 0x90 \<le> k \<and> k \<le> 0xBF
             else if n = 0xF4 then 0x80 \<le> k \<and> k \<le> 0x8F
             else cont_byte b)) \<and> cont_byte c \<and> cont_byte d \<and> utf8_valid r'
         | _ \<Rightarrow> False)
      else False)"

definition from_utf8 :: "bytes \<Rightarrow> string option" where
  "from_utf8 bs = (if utf8_valid bs then Some (map u8_char bs) else None)"

text \<open>Every Rust \<open>String\<close> is well-formed UTF-8: the type invariant of \<open>String\<close>.\<close>

definition rust_string :: "string \<Rightarrow> bool" where
  "rust_string s = utf8_valid (as_bytes s)"

lemma u8_less: "unat (b :: u8) < 256"
  using unsigned_less [of b, where ?'a = nat] by simp

lemma u8_char_char_u8 [simp]: "u8_char (char_u8 c) = c"
proof -
  have "of_char c < (256 :: nat)" by simp
  then show ?thesis by (simp add: u8_char_def char_u8_def unat_of_nat)
qed

lemma char_u8_u8_char [simp]: "char_u8 (u8_char b) = b"
proof -
  have "unat b < 256" by (rule u8_less)
  then show ?thesis by (simp add: u8_char_def char_u8_def)
qed

lemma length_as_bytes [simp]: "length (as_bytes s) = length s"
  by (simp add: as_bytes_def)

lemma as_bytes_inject [simp]: "as_bytes s = as_bytes t \<longleftrightarrow> s = t"
  unfolding as_bytes_def by (metis (mono_tags, lifting) list.inj_map_strong u8_char_char_u8)

lemma from_utf8_as_bytes [codec_simps]: "rust_string s \<Longrightarrow> from_utf8 (as_bytes s) = Some s"
  by (simp add: from_utf8_def rust_string_def as_bytes_def o_def)

lemma from_utf8_Some: "from_utf8 bs = Some s \<longleftrightarrow> utf8_valid bs \<and> as_bytes s = bs"
  by (auto simp: from_utf8_def as_bytes_def o_def)

lemma from_utf8_rust_string: "from_utf8 bs = Some s \<Longrightarrow> rust_string s"
  by (auto simp: from_utf8_Some rust_string_def)

section \<open>Lower case\<close>

text \<open>\<open>str::to_lowercase\<close> on ASCII; other bytes are kept. (The sources lower-case one thing, a
  configured password hash, and compare it with a lower-case hexadecimal digest. No
  non-ASCII character has a lower-case form made of hexadecimal digits, so a hash with such
  a character fails that comparison here as it does in Rust.)\<close>

definition char_lower :: "char \<Rightarrow> char" where
  "char_lower c =
     (let n = (of_char c :: nat) in if 65 \<le> n \<and> n \<le> 90 then char_of (n + 32) else c)"

definition to_lowercase :: "string \<Rightarrow> string" where
  "to_lowercase s = map char_lower s"

section \<open>Hexadecimal\<close>

definition hex_digit :: "nat \<Rightarrow> char" where
  "hex_digit n = (if n < 10 then char_of (48 + n) else char_of (87 + n))"

text \<open>The format \<open>{b:02x}\<close>.\<close>

definition hex_byte :: "u8 \<Rightarrow> string" where
  "hex_byte b = [hex_digit (unat b div 16), hex_digit (unat b mod 16)]"

definition hex_bytes :: "bytes \<Rightarrow> string" where
  "hex_bytes bs = concat (map hex_byte bs)"

lemma hex_digit_inject: "m < 16 \<Longrightarrow> n < 16 \<Longrightarrow> hex_digit m = hex_digit n \<longleftrightarrow> m = n"
  by (auto simp: hex_digit_def char_of_eq_iff take_bit_eq_mod)

lemma hex_byte_inject: "hex_byte a = hex_byte b \<longleftrightarrow> a = b"
proof -
  have lt: "unat x div 16 < 16" "unat x mod 16 < 16" for x :: u8
    using u8_less [of x] by auto
  have "hex_byte a = hex_byte b \<Longrightarrow> unat a = unat b"
    using lt [of a] lt [of b]
    by (simp add: hex_byte_def hex_digit_inject) (metis div_mult_mod_eq)
  then show ?thesis using unsigned_word_eqI by blast
qed

lemma hex_bytes_simps [simp]:
  "hex_bytes [] = []"
  "hex_bytes (b # bs) = hex_digit (unat b div 16) # hex_digit (unat b mod 16) # hex_bytes bs"
  by (simp_all add: hex_bytes_def hex_byte_def)

lemma hex_bytes_inject: "hex_bytes as = hex_bytes bs \<longleftrightarrow> as = bs"
proof
  show "hex_bytes as = hex_bytes bs \<Longrightarrow> as = bs"
  proof (induction as arbitrary: bs)
    case Nil
    then show ?case by (cases bs) auto
  next
    case (Cons a as)
    then obtain b bs' where bs: "bs = b # bs'" by (cases bs) auto
    with Cons.prems have "hex_byte a = hex_byte b" by (simp add: hex_byte_def)
    with Cons bs show ?case by (simp add: hex_byte_inject)
  qed
qed simp

section \<open>Big-endian integers\<close>

text \<open>The \<open>n\<close> bytes of \<open>v\<close>, most significant first, and their value.\<close>

fun be_bytes :: "nat \<Rightarrow> nat \<Rightarrow> bytes" where
  "be_bytes 0 v = []"
| "be_bytes (Suc n) v = word_of_nat (v div 256 ^ n) # be_bytes n v"

definition be_value :: "bytes \<Rightarrow> nat" where
  "be_value bs = foldl (\<lambda>acc b. acc * 256 + unat b) 0 bs"

definition u32_to_be_bytes :: "u32 \<Rightarrow> bytes" where
  "u32_to_be_bytes w = be_bytes 4 (unat w)"

definition u32_from_be_bytes :: "bytes \<Rightarrow> u32" where
  "u32_from_be_bytes bs = word_of_nat (be_value bs)"

definition u64_to_be_bytes :: "u64 \<Rightarrow> bytes" where
  "u64_to_be_bytes w = be_bytes 8 (unat w)"

definition u64_from_be_bytes :: "bytes \<Rightarrow> u64" where
  "u64_from_be_bytes bs = word_of_nat (be_value bs)"

lemma length_be_bytes [simp]: "length (be_bytes n v) = n"
  by (induction n) auto

text \<open>The two widths written out, for evaluation.\<close>

lemma be_bytes_unfold:
  "be_bytes 4 v = map (\<lambda>k. word_of_nat (v div 256 ^ k)) [3, 2, 1, 0]"
  "be_bytes 8 v = map (\<lambda>k. word_of_nat (v div 256 ^ k)) [7, 6, 5, 4, 3, 2, 1, 0]"
proof -
  have n: "(4 :: nat) = Suc (Suc (Suc (Suc 0)))"
    "(8 :: nat) = Suc (Suc (Suc (Suc (Suc (Suc (Suc (Suc 0)))))))"
    by simp_all
  show "be_bytes 4 v = map (\<lambda>k. word_of_nat (v div 256 ^ k)) [3, 2, 1, 0]"
    by (subst n(1)) simp
  show "be_bytes 8 v = map (\<lambda>k. word_of_nat (v div 256 ^ k)) [7, 6, 5, 4, 3, 2, 1, 0]"
    by (subst n(2)) simp
qed

lemma be_value_foldl:
  "foldl (\<lambda>acc b. acc * 256 + unat b) acc (be_bytes n v) = acc * 256 ^ n + v mod 256 ^ n"
proof (induction n arbitrary: acc)
  case (Suc n)
  have "v mod 256 ^ Suc n = 256 ^ n * (v div 256 ^ n mod 256) + v mod 256 ^ n"
    using mod_mult2_eq [of v "256 ^ n" 256] by (simp add: mult.commute)
  with Suc show ?case
    by (simp add: unat_of_nat algebra_simps)
qed simp

lemma be_value_be_bytes [simp]: "be_value (be_bytes n v) = v mod 256 ^ n"
  by (simp add: be_value_def be_value_foldl)

lemma u32_less: "unat (w :: u32) < 2 ^ 32" and u64_less: "unat (v :: u64) < 2 ^ 64"
  using unsigned_less [of w, where ?'a = nat] unsigned_less [of v, where ?'a = nat] by simp_all

lemma u32_roundtrip [simp]: "u32_from_be_bytes (u32_to_be_bytes w) = w"
  using u32_less [of w] by (simp add: u32_from_be_bytes_def u32_to_be_bytes_def)

lemma u64_roundtrip [simp]: "u64_from_be_bytes (u64_to_be_bytes w) = w"
  using u64_less [of w] by (simp add: u64_from_be_bytes_def u64_to_be_bytes_def)

lemma length_u32_bytes [simp]: "length (u32_to_be_bytes w) = 4"
  and length_u64_bytes [simp]: "length (u64_to_be_bytes v) = 8"
  by (simp_all add: u32_to_be_bytes_def u64_to_be_bytes_def)

section \<open>Length-prefixed chunks\<close>

datatype CodecError =
    Truncated
  | BadMagic
  | BadUtf8
  | BadQosByte u8
  | ChunkTooLarge
  | IoError

definition read_chunk :: "bytes \<Rightarrow> (CodecError, bytes \<times> bytes) result" where
  "read_chunk rest =
     (case split_at_checked 4 rest of
        None \<Rightarrow> Inl Truncated
      | Some (len_bytes, tail) \<Rightarrow>
          (let len = unat (u32_from_be_bytes len_bytes)
           in case split_at_checked len tail of
                None \<Rightarrow> Inl Truncated
              | Some (chunk, tail) \<Rightarrow> Inr (chunk, tail)))"

text \<open>\<open>u32::MAX as usize\<close>.\<close>

definition U32_MAX :: nat where
  "U32_MAX = 2 ^ 32 - 1"

definition write_chunk :: "bytes \<Rightarrow> bytes \<Rightarrow> (CodecError, bytes) result" where
  "write_chunk out chunk =
     (if length chunk > U32_MAX then Inl ChunkTooLarge
      else Inr (out @ u32_to_be_bytes (word_of_nat (length chunk)) @ chunk))"

text \<open>The bytes of one chunk, and when they are readable back: its length fits in 32 bits.\<close>

definition chunk_bytes :: "bytes \<Rightarrow> bytes" where
  "chunk_bytes chunk = u32_to_be_bytes (word_of_nat (length chunk)) @ chunk"

definition fits_u32 :: "'a list \<Rightarrow> bool" where
  "fits_u32 xs \<longleftrightarrow> length xs \<le> U32_MAX"

lemma write_chunk_eq:
  "write_chunk out chunk = (if fits_u32 chunk then Inr (out @ chunk_bytes chunk) else Inl ChunkTooLarge)"
  by (simp add: write_chunk_def chunk_bytes_def fits_u32_def)

lemma fits_as_bytes [simp]: "fits_u32 (as_bytes s) = fits_u32 s"
  by (simp add: fits_u32_def)

lemma read_chunk_bytes [codec_simps]:
  assumes "fits_u32 chunk"
  shows "read_chunk (chunk_bytes chunk @ rest) = Inr (chunk, rest)"
proof -
  have "unat (word_of_nat (length chunk) :: u32) = length chunk"
    using assms by (simp add: fits_u32_def U32_MAX_def unat_of_nat)
  then show ?thesis
    by (simp add: read_chunk_def chunk_bytes_def split_at_checked_length)
qed

lemma read_chunk_length: "read_chunk bs = Inr (c, rest) \<Longrightarrow> length rest + 4 \<le> length bs"
  by (auto simp: read_chunk_def split_at_checked_def Let_def split: if_splits option.splits)

text \<open>A chunk cut short is never misread as a shorter one.\<close>

lemma read_chunk_cut:
  assumes "fits_u32 chunk" and "chunk_bytes chunk = bs @ lost" and "lost \<noteq> []"
  shows "read_chunk bs = Inl Truncated"
proof (cases "length bs < 4")
  case True
  then show ?thesis by (simp add: read_chunk_def split_at_checked_def)
next
  case False
  let ?len = "u32_to_be_bytes (word_of_nat (length chunk))"
  have n: "unat (word_of_nat (length chunk) :: u32) = length chunk"
    using assms(1) by (simp add: fits_u32_def U32_MAX_def unat_of_nat)
  have "take 4 (bs @ lost) = ?len" "drop 4 (bs @ lost) = chunk"
    by (simp_all flip: assms(2) add: chunk_bytes_def)
  with False obtain tl where bs: "bs = ?len @ tl" and c: "chunk = tl @ lost"
    by (metis append_take_drop_id take_append drop_append diff_is_0_eq' drop_0 linorder_not_less
        append_Nil2 take_0 order.strict_implies_order)
  have "length tl < length chunk" using c assms(3) by simp
  then show ?thesis
    by (simp add: bs read_chunk_def split_at_checked_def n)
qed

text \<open>Cutting a concatenation cuts its first part, or keeps it and cuts the rest.\<close>

lemma append_cut:
  assumes "a @ b = bs @ lost"
  obtains (first) l where "a = bs @ l" "l \<noteq> []" | (rest) bs' where "bs = a @ bs'" "b = bs' @ lost"
  using assms by (auto simp: append_eq_append_conv2) blast

section \<open>Decode loops over a stream of records\<close>

text \<open>
  \<open>dec\<close> reads one record off the front of the input, \<open>enc\<close> writes one, \<open>ok\<close> says which records
  are written. \<open>run\<close> is a loop \<open>while !rest.is_empty()\<close> that folds the records into a state with
  \<open>push\<close>, ends with \<open>fin\<close>, and ends with \<open>fail\<close> at the first record that does not decode.
\<close>

locale record_stream =
  fixes dec :: "bytes \<Rightarrow> (CodecError, 'a \<times> bytes) result"
    and enc :: "'a \<Rightarrow> bytes"
    and ok :: "'a \<Rightarrow> bool"
    and push :: "'s \<Rightarrow> 'a \<Rightarrow> 's"
    and run :: "'s \<Rightarrow> bytes \<Rightarrow> 'r"
    and fin :: "'s \<Rightarrow> 'r"
    and fail :: "'s \<Rightarrow> CodecError \<Rightarrow> 'r"
  assumes run_nil: "run s [] = fin s"
    and run_record: "bs \<noteq> [] \<Longrightarrow> dec bs = Inr (x, rest) \<Longrightarrow> run s bs = run (push s x) rest"
    and run_error: "bs \<noteq> [] \<Longrightarrow> dec bs = Inl e \<Longrightarrow> run s bs = fail s e"
    and dec_enc: "ok x \<Longrightarrow> dec (enc x @ rest) = Inr (x, rest)"
    and dec_cut: "ok x \<Longrightarrow> enc x = bs @ lost \<Longrightarrow> bs \<noteq> [] \<Longrightarrow> lost \<noteq> [] \<Longrightarrow> dec bs = Inl Truncated"
    and enc_nonempty: "enc x \<noteq> []"
begin

lemma run_append:
  "\<forall>x\<in>set xs. ok x \<Longrightarrow> run s (concat (map enc xs) @ bs) = run (foldl push s xs) bs"
proof (induction xs arbitrary: s)
  case (Cons x xs)
  then have "dec (enc x @ concat (map enc xs) @ bs) = Inr (x, concat (map enc xs) @ bs)"
    by (simp add: dec_enc)
  with Cons enc_nonempty [of x] show ?case
    by (subst run_record) auto
qed simp

text \<open>What was written is read back, in order.\<close>

lemma run_concat: "\<forall>x\<in>set xs. ok x \<Longrightarrow> run s (concat (map enc xs)) = fin (foldl push s xs)"
  using run_append [of xs s "[]"] by (simp add: run_nil)

text \<open>A stream cut inside a record is reported as truncated after the records before it.\<close>

lemma run_cut:
  assumes "\<forall>x\<in>set xs. ok x" and "ok y" and "enc y = bs @ lost" and "bs \<noteq> []" and "lost \<noteq> []"
  shows "run s (concat (map enc xs) @ bs) = fail (foldl push s xs) Truncated"
  using run_error [OF assms(4) dec_cut [OF assms(2-5)]] by (simp add: run_append assms(1))

end

end
