(* ===== verification/Fs.thy ===== *)
theory Fs
  imports Bytes
begin

text \<open>
  The part of \<open>std::fs\<close> and \<open>std::path\<close> that the persistence code uses. The file system maps
  paths to contents; \<open>fs_write_fault\<close> and \<open>fs_io_fault\<close> say which operations the environment
  makes fail. A failing \<open>write\<close> may leave a prefix of the data behind, as a full disk does;
  \<open>rename\<close> is atomic.
\<close>

section \<open>Files\<close>

record fs =
  fs_files :: "(string, bytes) hashmap"
  fs_write_fault :: "string \<Rightarrow> nat option"
  fs_io_fault :: "string \<Rightarrow> bool"

definition fs_read :: "fs \<Rightarrow> string \<Rightarrow> (CodecError, bytes) result" where
  "fs_read fs p =
     (if fs_io_fault fs p then Inl IoError
      else (case hm_get (fs_files fs) p of None \<Rightarrow> Inl IoError | Some d \<Rightarrow> Inr d))"

definition fs_exists :: "fs \<Rightarrow> string \<Rightarrow> bool" where
  "fs_exists fs p \<longleftrightarrow> hm_get (fs_files fs) p \<noteq> None"

definition fs_put :: "string \<Rightarrow> bytes \<Rightarrow> fs \<Rightarrow> fs" where
  "fs_put p d fs = fs\<lparr>fs_files := hm_insert p d (fs_files fs)\<rparr>"

definition fs_write :: "string \<Rightarrow> bytes \<Rightarrow> fs \<Rightarrow> fs \<times> (CodecError, unit) result" where
  "fs_write p d fs =
     (case fs_write_fault fs p of
        Some n \<Rightarrow> (fs_put p (take n d) fs, Inl IoError)
      | None \<Rightarrow> (fs_put p d fs, Inr ()))"

definition fs_rename :: "string \<Rightarrow> string \<Rightarrow> fs \<Rightarrow> fs \<times> (CodecError, unit) result" where
  "fs_rename p q fs =
     (if fs_io_fault fs p then (fs, Inl IoError)
      else (case hm_get (fs_files fs) p of
              None \<Rightarrow> (fs, Inl IoError)
            | Some d \<Rightarrow> (fs\<lparr>fs_files := hm_insert q d (hm_remove p (fs_files fs))\<rparr>, Inr ())))"

text \<open>\<open>remove_file\<close>, with the error ignored (a missing file) or logged, as the callers do.\<close>

definition fs_remove :: "string \<Rightarrow> fs \<Rightarrow> fs" where
  "fs_remove p fs = (if fs_io_fault fs p then fs else fs\<lparr>fs_files := hm_remove p (fs_files fs)\<rparr>)"

text \<open>Write a temporary file, then rename it over the target: the idiom of every save.\<close>

definition fs_replace :: "string \<Rightarrow> string \<Rightarrow> bytes \<Rightarrow> fs \<Rightarrow> fs \<times> (CodecError, unit) result" where
  "fs_replace tmp path d fs =
     (case fs_write tmp d fs of
        (fs, Inl e) \<Rightarrow> (fs, Inl e)
      | (fs, Inr _) \<Rightarrow> fs_rename tmp path fs)"

definition fs_wf :: "fs \<Rightarrow> bool" where
  "fs_wf fs = hm_wf (fs_files fs)"

definition fs_get :: "fs \<Rightarrow> string \<Rightarrow> bytes option" where
  "fs_get fs p = hm_get (fs_files fs) p"

section \<open>Paths\<close>

definition path_join :: "string \<Rightarrow> string \<Rightarrow> string" where
  "path_join dir name =
     (if dir = [] \<or> last dir = CHR ''/'' then dir @ name else dir @ ''/'' @ name)"

definition path_dir :: "string \<Rightarrow> string" where
  "path_dir p = rev (dropWhile (\<lambda>c. c \<noteq> CHR ''/'') (rev p))"

definition path_file :: "string \<Rightarrow> string" where
  "path_file p = rev (takeWhile (\<lambda>c. c \<noteq> CHR ''/'') (rev p))"

text \<open>The file name split at its last dot, unless that dot begins the name.\<close>

definition split_ext :: "string \<Rightarrow> string \<times> string option" where
  "split_ext name =
     (let ext = rev (takeWhile (\<lambda>c. c \<noteq> CHR ''.'') (rev name));
          before = rev (dropWhile (\<lambda>c. c \<noteq> CHR ''.'') (rev name))
      in if before = [] \<or> butlast before = [] then (name, None) else (butlast before, Some ext))"

definition path_extension :: "string \<Rightarrow> string option" where
  "path_extension p = snd (split_ext (path_file p))"

definition with_extension :: "string \<Rightarrow> string \<Rightarrow> string" where
  "with_extension p ext = path_dir p @ fst (split_ext (path_file p)) @ ''.'' @ ext"

section \<open>Lemmas\<close>

lemma fs_put_simps [simp]:
  "fs_io_fault (fs_put p d fs) = fs_io_fault fs"
  "fs_write_fault (fs_put p d fs) = fs_write_fault fs"
  "fs_wf fs \<Longrightarrow> fs_wf (fs_put p d fs)"
  "fs_wf fs \<Longrightarrow> fs_get (fs_put p d fs) q = (if q = p then Some d else fs_get fs q)"
  by (simp_all add: fs_put_def fs_wf_def fs_get_def)

lemma fs_remove_simps [simp]:
  "fs_io_fault (fs_remove p fs) = fs_io_fault fs"
  "fs_write_fault (fs_remove p fs) = fs_write_fault fs"
  "fs_wf fs \<Longrightarrow> fs_wf (fs_remove p fs)"
  "fs_wf fs \<Longrightarrow> fs_get (fs_remove p fs) q = (if q = p \<and> \<not> fs_io_fault fs p then None else fs_get fs q)"
  by (auto simp: fs_remove_def fs_wf_def fs_get_def)

lemma fs_rename_eq:
  "fs_rename p q fs =
     (if fs_io_fault fs p then (fs, Inl IoError)
      else (case fs_get fs p of
              None \<Rightarrow> (fs, Inl IoError)
            | Some d \<Rightarrow> (fs_put q d (fs_remove p fs), Inr ())))"
  by (simp add: fs_rename_def fs_get_def fs_put_def fs_remove_def split: option.split)

lemma fs_replace_frame:
  assumes "fs_wf fs" and "fs_replace tmp path d fs = (fs', r)"
  shows "fs_wf fs'" and "fs_io_fault fs' = fs_io_fault fs" and "fs_write_fault fs' = fs_write_fault fs"
    and "q \<noteq> tmp \<Longrightarrow> q \<noteq> path \<Longrightarrow> fs_get fs' q = fs_get fs q"
  using assms
  by (auto simp: fs_replace_def fs_write_def fs_rename_eq split: option.splits if_splits)

text \<open>The target holds either what it held or all of the new data, whatever failed.\<close>

lemma fs_replace_atomic:
  assumes "fs_wf fs" and "tmp \<noteq> path" and "fs_replace tmp path d fs = (fs', r)"
  shows "fs_get fs' path = (case r of Inr _ \<Rightarrow> Some d | Inl _ \<Rightarrow> fs_get fs path)"
  using assms
  by (auto simp: fs_replace_def fs_write_def fs_rename_eq split: option.splits if_splits)

lemma fs_replace_ok:
  assumes "fs_wf fs" and "fs_write_fault fs tmp = None" and "\<not> fs_io_fault fs tmp"
  shows "\<exists>fs'. fs_replace tmp path d fs = (fs', Inr ())"
  using assms by (simp add: fs_replace_def fs_write_def fs_rename_eq)

text \<open>Paths of files in a directory, and their temporary companions.\<close>

lemma path_join_slash: "dir \<noteq> [] \<Longrightarrow> \<exists>d. path_join dir name = d @ ''/'' @ name"
  by (cases dir rule: rev_cases) (auto simp: path_join_def)

lemma path_split_join:
  assumes "CHR ''/'' \<notin> set name"
  shows "path_dir (d @ ''/'' @ name) = d @ ''/''" and "path_file (d @ ''/'' @ name) = name"
  using assms by (auto simp: path_dir_def path_file_def dropWhile_append takeWhile_append)

lemma path_split_none:
  assumes "CHR ''/'' \<notin> set name"
  shows "path_dir name = []" and "path_file name = name"
proof -
  have "dropWhile (\<lambda>c. c \<noteq> CHR ''/'') (rev name) = []" "takeWhile (\<lambda>c. c \<noteq> CHR ''/'') (rev name) = rev name"
    using assms by (auto simp: dropWhile_eq_Nil_conv takeWhile_eq_all_conv)
  then show "path_dir name = []" and "path_file name = name"
    by (simp_all only: path_dir_def path_file_def rev_rev_ident rev.simps)
qed

lemma path_file_join: "CHR ''/'' \<notin> set name \<Longrightarrow> path_file (path_join dir name) = name"
  using path_join_slash [of dir name] path_split_join(2) path_split_none(2)
  by (cases "dir = []") (auto simp: path_join_def)

lemma path_dir_join: "CHR ''/'' \<notin> set name \<Longrightarrow> path_dir (path_join dir name) @ other = path_join dir other"
  using path_split_join(1) [of name] path_split_join(1) [of name "_ @ [_]"] path_split_none(1) [of name]
  by (cases dir rule: rev_cases) (auto simp: path_join_def)

lemma split_ext_dot:
  assumes "stem \<noteq> []" and "CHR ''.'' \<notin> set ext"
  shows "split_ext (stem @ ''.'' @ ext) = (stem, Some ext)"
proof -
  have "takeWhile (\<lambda>c. c \<noteq> CHR ''.'') (rev (stem @ ''.'' @ ext)) = rev ext"
    "dropWhile (\<lambda>c. c \<noteq> CHR ''.'') (rev (stem @ ''.'' @ ext)) = CHR ''.'' # rev stem"
    using assms(2) by (auto simp: takeWhile_append dropWhile_append)
  with assms(1) show ?thesis by (simp add: split_ext_def Let_def)
qed

lemma path_join_inject: "path_join dir a = path_join dir b \<longleftrightarrow> a = b"
  by (auto simp: path_join_def)

end
