(* ===== verification/Session_Files.thy ===== *)
theory Session_Files
  imports Fs
begin

text \<open>
  The files of a persistent session (the free functions at the end of
  \<open>crates/entmoot-node/src/session.rs\<close>): the offline queue and the subscription list, their
  names, and the save and load functions.

  \<open>QoS\<close> is the enumeration of the \<open>mqttbytes\<close> crate. Its byte \<open>q as u8\<close> is the discriminant;
  the inverse \<open>mqttbytes::qos\<close> is an argument \<open>qos\<close> of the functions that call it, and what
  the code relies on is \<open>qos_inverse\<close>: it returns the level whose discriminant it is given.
\<close>

section \<open>Definitions\<close>

datatype QoS = AtMostOnce | AtLeastOnce | ExactlyOnce

definition qos_u8 :: "QoS \<Rightarrow> u8" where
  "qos_u8 q = (case q of AtMostOnce \<Rightarrow> 0 | AtLeastOnce \<Rightarrow> 1 | ExactlyOnce \<Rightarrow> 2)"

type_synonym qos_parser = "u8 \<Rightarrow> QoS option"

definition qos_inverse :: "qos_parser \<Rightarrow> bool" where
  "qos_inverse qos \<longleftrightarrow> (\<forall>q. qos (qos_u8 q) = Some q)"

definition QUEUE_MAGIC :: bytes where
  "QUEUE_MAGIC = as_bytes ''ENTMOOT-Q1'' @ [10]"

definition SUBS_MAGIC :: bytes where
  "SUBS_MAGIC = as_bytes ''ENTMOOT-S1'' @ [10]"

definition hex_name :: "string \<Rightarrow> string" where
  "hex_name s = hex_bytes (as_bytes s)"

definition remove_state_file :: "string \<Rightarrow> fs \<Rightarrow> fs" where
  "remove_state_file path fs = fs_remove path fs"

text \<open>\<open>create_dir_all(parent)\<close>: directories are not files of the model; what remains is that it
  may fail.\<close>

definition create_parent :: "string \<Rightarrow> fs \<Rightarrow> (CodecError, unit) result" where
  "create_parent path fs = (if fs_io_fault fs (path_dir path) then Inl IoError else Inr ())"

subsection \<open>Offline queue\<close>

type_synonym message = "string \<times> bytes"

definition queue_record :: "bytes \<Rightarrow> (CodecError, message \<times> bytes) result" where
  "queue_record rest =
     (case read_chunk rest of
        Inl e \<Rightarrow> Inl e
      | Inr (topic_bytes, rest) \<Rightarrow>
          (case from_utf8 topic_bytes of
             None \<Rightarrow> Inl BadUtf8
           | Some t \<Rightarrow>
               (case read_chunk rest of
                  Inl e \<Rightarrow> Inl e
                | Inr (payload, rest) \<Rightarrow> Inr ((t, payload), rest))))"

text \<open>The bounded push of the loader and of \<open>deliver\<close>: drop the oldest when full.\<close>

definition push_bounded :: "nat \<Rightarrow> 'a list \<Rightarrow> 'a \<Rightarrow> 'a list" where
  "push_bounded max_queue queue x = (if length queue \<ge> max_queue then tl queue else queue) @ [x]"

lemma queue_record_length: "queue_record bs = Inr (x, rest) \<Longrightarrow> length rest < length bs"
  by (auto simp: queue_record_def split: sum.splits option.splits dest!: read_chunk_length)

function load_queue_loop :: "nat \<Rightarrow> message list \<Rightarrow> bytes \<Rightarrow> (CodecError, message list) result" where
  "load_queue_loop max_queue queue rest =
     (if rest = [] then Inr queue
      else (case queue_record rest of
              Inl e \<Rightarrow> Inl e
            | Inr (x, rest) \<Rightarrow> load_queue_loop max_queue (push_bounded max_queue queue x) rest))"
  by pat_completeness auto
termination
  by (relation "measure (\<lambda>(_, _, rest). length rest)") (auto dest: queue_record_length)

declare load_queue_loop.simps [simp del]

definition load_queue :: "fs \<Rightarrow> string \<Rightarrow> nat \<Rightarrow> (CodecError, message list) result" where
  "load_queue fs path max_queue =
     (if max_queue = 0 then Inr []
      else (case fs_read fs path of
              Inl e \<Rightarrow> Inl e
            | Inr data \<Rightarrow>
                (case strip_prefix QUEUE_MAGIC data of
                   None \<Rightarrow> Inl BadMagic
                 | Some body \<Rightarrow> load_queue_loop max_queue [] body)))"

fun write_messages :: "bytes \<Rightarrow> message list \<Rightarrow> (CodecError, bytes) result" where
  "write_messages out [] = Inr out"
| "write_messages out ((t, payload) # queue) =
     (case write_chunk out (as_bytes t) of
        Inl e \<Rightarrow> Inl e
      | Inr out \<Rightarrow>
          (case write_chunk out payload of
             Inl e \<Rightarrow> Inl e
           | Inr out \<Rightarrow> write_messages out queue))"

definition save_queue :: "string \<Rightarrow> message list \<Rightarrow> fs \<Rightarrow> fs \<times> (CodecError, unit) result" where
  "save_queue path queue fs =
     (case create_parent path fs of
        Inl e \<Rightarrow> (fs, Inl e)
      | Inr _ \<Rightarrow>
          (case write_messages QUEUE_MAGIC queue of
             Inl e \<Rightarrow> (fs, Inl e)
           | Inr out \<Rightarrow> fs_replace (with_extension path ''queue.tmp'') path out fs))"

subsection \<open>Subscriptions\<close>

definition subs_record :: "qos_parser \<Rightarrow> bytes \<Rightarrow> (CodecError, (string \<times> QoS) \<times> bytes) result" where
  "subs_record qos rest =
     (case read_chunk rest of
        Inl e \<Rightarrow> Inl e
      | Inr (filter_bytes, rest) \<Rightarrow>
          (case from_utf8 filter_bytes of
             None \<Rightarrow> Inl BadUtf8
           | Some f \<Rightarrow>
               (case rest of
                  [] \<Rightarrow> Inl Truncated
                | b # rest \<Rightarrow>
                    (case qos b of
                       None \<Rightarrow> Inl (BadQosByte b)
                     | Some q \<Rightarrow> Inr ((f, q), rest)))))"

lemma subs_record_length: "subs_record qos bs = Inr (x, rest) \<Longrightarrow> length rest < length bs"
  by (auto simp: subs_record_def split: sum.splits option.splits list.splits dest!: read_chunk_length)

function load_subs_loop ::
    "qos_parser \<Rightarrow> (string \<times> QoS) list \<Rightarrow> bytes \<Rightarrow> (CodecError, (string \<times> QoS) list) result" where
  "load_subs_loop qos entries rest =
     (if rest = [] then Inr entries
      else (case subs_record qos rest of
              Inl e \<Rightarrow> Inl e
            | Inr (x, rest) \<Rightarrow> load_subs_loop qos (entries @ [x]) rest))"
  by pat_completeness auto
termination
  by (relation "measure (\<lambda>(_, _, rest). length rest)") (auto dest: subs_record_length)

declare load_subs_loop.simps [simp del]

definition read_string :: "bytes \<Rightarrow> (CodecError, string \<times> bytes) result" where
  "read_string rest =
     (case read_chunk rest of
        Inl e \<Rightarrow> Inl e
      | Inr (bs, rest) \<Rightarrow>
          (case from_utf8 bs of None \<Rightarrow> Inl BadUtf8 | Some s \<Rightarrow> Inr (s, rest)))"

type_synonym LoadedSubs = "string \<times> string \<times> (string \<times> QoS) list"

definition load_subs :: "qos_parser \<Rightarrow> fs \<Rightarrow> string \<Rightarrow> (CodecError, LoadedSubs) result" where
  "load_subs qos fs path =
     (case fs_read fs path of
        Inl e \<Rightarrow> Inl e
      | Inr data \<Rightarrow>
          (case strip_prefix SUBS_MAGIC data of
             None \<Rightarrow> Inl BadMagic
           | Some rest \<Rightarrow>
               (case read_string rest of
                  Inl e \<Rightarrow> Inl e
                | Inr (client_id, rest) \<Rightarrow>
                    (case read_string rest of
                       Inl e \<Rightarrow> Inl e
                     | Inr (identity, rest) \<Rightarrow>
                         (case load_subs_loop qos [] rest of
                            Inl e \<Rightarrow> Inl e
                          | Inr entries \<Rightarrow> Inr (client_id, identity, entries))))))"

fun write_subs :: "bytes \<Rightarrow> (string \<times> QoS) list \<Rightarrow> (CodecError, bytes) result" where
  "write_subs out [] = Inr out"
| "write_subs out ((f, q) # entries) =
     (case write_chunk out (as_bytes f) of
        Inl e \<Rightarrow> Inl e
      | Inr out \<Rightarrow> write_subs (out @ [qos_u8 q]) entries)"

definition save_subs ::
    "string \<Rightarrow> string \<Rightarrow> string \<Rightarrow> (string \<times> QoS) list \<Rightarrow> fs \<Rightarrow> fs \<times> (CodecError, unit) result" where
  "save_subs path client_id identity entries fs =
     (if entries = [] then (remove_state_file path fs, Inr ())
      else
        (case create_parent path fs of
           Inl e \<Rightarrow> (fs, Inl e)
         | Inr _ \<Rightarrow>
             (case write_chunk SUBS_MAGIC (as_bytes client_id) of
                Inl e \<Rightarrow> (fs, Inl e)
              | Inr out \<Rightarrow>
                  (case write_chunk out (as_bytes identity) of
                     Inl e \<Rightarrow> (fs, Inl e)
                   | Inr out \<Rightarrow>
                       (case write_subs out entries of
                          Inl e \<Rightarrow> (fs, Inl e)
                        | Inr out \<Rightarrow> fs_replace (with_extension path ''subs.tmp'') path out fs)))))"

subsection \<open>File names\<close>

definition queue_path :: "string option \<Rightarrow> string \<Rightarrow> string option" where
  "queue_path queue_dir client_id = map_option (\<lambda>dir. path_join dir (hex_name client_id @ ''.queue'')) queue_dir"

definition subs_path :: "string option \<Rightarrow> string \<Rightarrow> string option" where
  "subs_path queue_dir client_id = map_option (\<lambda>dir. path_join dir (hex_name client_id @ ''.subs'')) queue_dir"

section \<open>File name lemmas\<close>

lemma hex_digit_plain: "n < 16 \<Longrightarrow> hex_digit n \<noteq> CHR ''/'' \<and> hex_digit n \<noteq> CHR ''.''"
  by (auto simp: hex_digit_def char_of_eq_iff take_bit_eq_mod)

lemma hex_bytes_plain: "CHR ''/'' \<notin> set (hex_bytes bs) \<and> CHR ''.'' \<notin> set (hex_bytes bs)"
proof (induction bs)
  case (Cons b bs)
  have "unat b div 16 < 16" "unat b mod 16 < 16" using u8_less [of b] by auto
  from this [THEN hex_digit_plain] Cons show ?case by fastforce
qed simp

lemma hex_name_plain: "CHR ''/'' \<notin> set (hex_name s)" "CHR ''.'' \<notin> set (hex_name s)"
  using hex_bytes_plain by (simp_all add: hex_name_def)

lemma hex_name_inject: "hex_name s = hex_name t \<longleftrightarrow> s = t"
  by (simp add: hex_name_def hex_bytes_inject)

lemma hex_name_Nil [simp]: "hex_name s = [] \<longleftrightarrow> s = []"
  using hex_name_inject [of s "[]"] by (simp add: hex_name_def as_bytes_def)

text \<open>Two names with a dot-free stem are equal only if stem and suffix are.\<close>

lemma dot_names_eq:
  assumes "CHR ''.'' \<notin> set a" and "CHR ''.'' \<notin> set b"
  shows "a @ CHR ''.'' # x = b @ CHR ''.'' # y \<longleftrightarrow> a = b \<and> x = y"
proof
  assume "a @ CHR ''.'' # x = b @ CHR ''.'' # y"
  then show "a = b \<and> x = y"
    using assms by (induction a arbitrary: b) (auto simp: Cons_eq_append_conv append_eq_Cons_conv)
qed simp

definition state_path :: "string \<Rightarrow> string \<Rightarrow> string \<Rightarrow> string" where
  "state_path dir client_id ext = path_join dir (hex_name client_id @ CHR ''.'' # ext)"

lemma state_path_inject:
  "state_path dir c x = state_path dir d y \<longleftrightarrow> c = d \<and> x = y"
  by (simp add: state_path_def path_join_inject dot_names_eq hex_name_plain hex_name_inject)

lemma queue_path_Some: "queue_path (Some dir) c = Some (state_path dir c ''queue'')"
  and subs_path_Some: "subs_path (Some dir) c = Some (state_path dir c ''subs'')"
  by (simp_all add: queue_path_def subs_path_def state_path_def)

lemma with_extension_state:
  assumes "c \<noteq> []" and "CHR ''.'' \<notin> set ext" and "CHR ''/'' \<notin> set ext"
  shows "with_extension (state_path dir c ext) x = state_path dir c x"
proof -
  let ?name = "hex_name c @ CHR ''.'' # ext"
  have plain: "CHR ''/'' \<notin> set ?name" using assms(3) hex_name_plain(1) [of c] by simp
  have "split_ext ?name = (hex_name c, Some ext)"
    using split_ext_dot [of "hex_name c" ext] assms(1,2) by simp
  then show ?thesis
    using path_dir_join [OF plain, of dir "hex_name c @ CHR ''.'' # x"] path_file_join [OF plain]
    by (simp add: with_extension_def state_path_def)
qed

lemma path_extension_state:
  assumes "c \<noteq> []" and "CHR ''.'' \<notin> set ext" and "CHR ''/'' \<notin> set ext"
  shows "path_extension (state_path dir c ext) = Some ext"
  using assms path_file_join [of "hex_name c @ CHR ''.'' # ext" dir] hex_name_plain(1) [of c]
    split_ext_dot [of "hex_name c" ext]
  by (simp add: path_extension_def state_path_def)

section \<open>The queue file as a record stream\<close>

definition message_bytes :: "message \<Rightarrow> bytes" where
  "message_bytes m = (case m of (t, p) \<Rightarrow> chunk_bytes (as_bytes t) @ chunk_bytes p)"

definition message_ok :: "message \<Rightarrow> bool" where
  "message_ok m \<longleftrightarrow> (case m of (t, p) \<Rightarrow> rust_string t \<and> fits_u32 t \<and> fits_u32 p)"

lemma write_messages_ok:
  "\<forall>m\<in>set q. message_ok m \<Longrightarrow> write_messages out q = Inr (out @ concat (map message_bytes q))"
  by (induction out q rule: write_messages.induct) (auto simp: message_ok_def message_bytes_def write_chunk_eq)

lemma queue_record_cut:
  assumes "message_ok x" and "message_bytes x = bs @ lost" and "lost \<noteq> []"
  shows "queue_record bs = Inl Truncated"
proof -
  obtain t p where x: "x = (t, p)" by (cases x)
  with assms(1) have *: "rust_string t" "fits_u32 (as_bytes t)" "fits_u32 p" by (simp_all add: message_ok_def)
  from assms(2) have "chunk_bytes (as_bytes t) @ chunk_bytes p = bs @ lost"
    by (simp add: x message_bytes_def)
  then show ?thesis
  proof (cases rule: append_cut)
    case (first l)
    with read_chunk_cut [OF *(2)] show ?thesis by (simp add: queue_record_def)
  next
    case (rest bs')
    with read_chunk_cut [OF *(3) rest(2) assms(3)] read_chunk_bytes [OF *(2)] *(1) show ?thesis
      by (simp add: queue_record_def codec_simps)
  qed
qed

interpretation queue_stream: record_stream queue_record message_bytes message_ok
  "push_bounded max_queue" "load_queue_loop max_queue" Inr "\<lambda>_. Inl" for max_queue
proof
  fix st :: "message list" and bs x rest e lost
  show "load_queue_loop max_queue st [] = Inr st"
    by (simp add: load_queue_loop.simps)
  show "bs \<noteq> [] \<Longrightarrow> queue_record bs = Inr (x, rest) \<Longrightarrow>
      load_queue_loop max_queue st bs = load_queue_loop max_queue (push_bounded max_queue st x) rest"
    by (simp add: load_queue_loop.simps [of _ _ bs])
  show "bs \<noteq> [] \<Longrightarrow> queue_record bs = Inl e \<Longrightarrow> load_queue_loop max_queue st bs = Inl e"
    by (simp add: load_queue_loop.simps [of _ _ bs])
  show "message_ok x \<Longrightarrow> queue_record (message_bytes x @ rest) = Inr (x, rest)"
    by (cases x) (simp add: message_ok_def message_bytes_def queue_record_def codec_simps)
  show "message_ok x \<Longrightarrow> message_bytes x = bs @ lost \<Longrightarrow> bs \<noteq> [] \<Longrightarrow> lost \<noteq> [] \<Longrightarrow>
      queue_record bs = Inl Truncated"
    by (rule queue_record_cut)
  show "message_bytes x \<noteq> []"
    by (cases x) (auto simp: message_bytes_def chunk_bytes_def simp flip: length_0_conv)
qed

text \<open>Pushing a list of messages keeps the newest ones.\<close>

lemma push_bounded_length: "0 < n \<Longrightarrow> length q \<le> n \<Longrightarrow> length (push_bounded n q x) \<le> n"
  by (cases q) (auto simp: push_bounded_def)

lemma push_bounded_newest:
  "0 < n \<Longrightarrow> length q \<le> n \<Longrightarrow> push_bounded n q x = drop (length (q @ [x]) - n) (q @ [x])"
  by (cases q) (auto simp: push_bounded_def)

lemma foldl_push_bounded:
  "0 < n \<Longrightarrow> length q \<le> n \<Longrightarrow> foldl (push_bounded n) q xs = drop (length (q @ xs) - n) (q @ xs)"
proof (induction xs arbitrary: q)
  case (Cons x xs)
  let ?q = "push_bounded n q x"
  have q: "?q = drop (Suc (length q) - n) (q @ [x])" using push_bounded_newest Cons.prems by simp
  have "foldl (push_bounded n) ?q xs = drop (length (?q @ xs) - n) (?q @ xs)"
    by (rule Cons.IH [OF Cons.prems(1) push_bounded_length [OF Cons.prems]])
  moreover have "?q @ xs = drop (Suc (length q) - n) (q @ x # xs)"
    using q Cons.prems by simp
  moreover have "Suc (length q) - n + (length (?q @ xs) - n) = length (q @ x # xs) - n"
    using q Cons.prems by simp
  ultimately show ?case by (simp only: foldl_Cons drop_drop add.commute)
qed simp

text \<open>After a successful save the file loads back: all of the queue if it fits the bound, its
  newest messages otherwise.\<close>

lemma load_saved_queue:
  assumes "fs_wf fs" and "with_extension path ''queue.tmp'' \<noteq> path" and "\<forall>m\<in>set q. message_ok m"
    and "save_queue path q fs = (fs', Inr ())" and "\<not> fs_io_fault fs path" and "0 < n"
  shows "load_queue fs' path n = Inr (drop (length q - n) q)"
proof -
  let ?body = "concat (map message_bytes q)"
  have rep: "fs_replace (with_extension path ''queue.tmp'') path (QUEUE_MAGIC @ ?body) fs = (fs', Inr ())"
    using assms(4) by (simp add: save_queue_def write_messages_ok [OF assms(3)] split: sum.splits)
  have "fs_get fs' path = Some (QUEUE_MAGIC @ ?body)" "fs_io_fault fs' = fs_io_fault fs"
    using fs_replace_atomic [OF assms(1,2) rep] fs_replace_frame(2) [OF assms(1) rep] by simp_all
  then have "fs_read fs' path = Inr (QUEUE_MAGIC @ ?body)"
    using assms(5) by (simp add: fs_read_def fs_get_def)
  then show ?thesis
    using assms(6) queue_stream.run_concat [OF assms(3), of n "[]"]
    by (simp add: load_queue_def foldl_push_bounded)
qed

section \<open>The subscription file as a record stream\<close>

definition sub_bytes :: "string \<times> QoS \<Rightarrow> bytes" where
  "sub_bytes x = (case x of (f, q) \<Rightarrow> chunk_bytes (as_bytes f) @ [qos_u8 q])"

definition sub_ok :: "string \<times> QoS \<Rightarrow> bool" where
  "sub_ok x \<longleftrightarrow> (case x of (f, q) \<Rightarrow> rust_string f \<and> fits_u32 f)"

lemma write_subs_ok:
  "\<forall>x\<in>set xs. sub_ok x \<Longrightarrow> write_subs out xs = Inr (out @ concat (map sub_bytes xs))"
  by (induction out xs rule: write_subs.induct) (auto simp: sub_ok_def sub_bytes_def write_chunk_eq)

lemma subs_record_cut:
  assumes "sub_ok x" and "sub_bytes x = bs @ lost" and "lost \<noteq> []"
  shows "subs_record qos bs = Inl Truncated"
proof -
  obtain f q where x: "x = (f, q)" by (cases x)
  with assms(1) have *: "rust_string f" "fits_u32 (as_bytes f)" by (simp_all add: sub_ok_def)
  from assms(2) have "chunk_bytes (as_bytes f) @ [qos_u8 q] = bs @ lost"
    by (simp add: x sub_bytes_def)
  then show ?thesis
  proof (cases rule: append_cut)
    case (first l)
    with read_chunk_cut [OF *(2)] show ?thesis by (simp add: subs_record_def)
  next
    case (rest bs')
    with assms(3) have "bs' = []" by (cases bs') auto
    with rest(1) read_chunk_bytes [OF *(2), of "[]"] *(1) show ?thesis
      by (simp add: subs_record_def codec_simps)
  qed
qed

text \<open>The loop with the parser fixed to one that inverts the discriminants.\<close>

definition qos_std :: qos_parser where
  "qos_std b = (if b = 0 then Some AtMostOnce else if b = 1 then Some AtLeastOnce
     else if b = 2 then Some ExactlyOnce else None)"

lemma qos_std_inverse: "qos_inverse qos_std"
  by (simp add: qos_inverse_def qos_std_def qos_u8_def split: QoS.split)

lemma subs_record_entry:
  assumes "qos_inverse qos" and "sub_ok x"
  shows "subs_record qos (sub_bytes x @ rest) = Inr (x, rest)"
  using assms
  by (cases x) (simp add: sub_ok_def sub_bytes_def subs_record_def qos_inverse_def codec_simps)

lemma subs_stream_any:
  assumes "qos_inverse qos"
  shows "record_stream (subs_record qos) sub_bytes sub_ok (\<lambda>xs x. xs @ [x]) (load_subs_loop qos) Inr (\<lambda>_. Inl)"
proof
  fix st :: "(string \<times> QoS) list" and bs x rest e lost
  show "load_subs_loop qos st [] = Inr st"
    by (simp add: load_subs_loop.simps)
  show "bs \<noteq> [] \<Longrightarrow> subs_record qos bs = Inr (x, rest) \<Longrightarrow>
      load_subs_loop qos st bs = load_subs_loop qos (st @ [x]) rest"
    by (simp add: load_subs_loop.simps [of _ _ bs])
  show "bs \<noteq> [] \<Longrightarrow> subs_record qos bs = Inl e \<Longrightarrow> load_subs_loop qos st bs = Inl e"
    by (simp add: load_subs_loop.simps [of _ _ bs])
  show "sub_ok x \<Longrightarrow> subs_record qos (sub_bytes x @ rest) = Inr (x, rest)"
    by (rule subs_record_entry [OF assms])
  show "sub_ok x \<Longrightarrow> sub_bytes x = bs @ lost \<Longrightarrow> bs \<noteq> [] \<Longrightarrow> lost \<noteq> [] \<Longrightarrow>
      subs_record qos bs = Inl Truncated"
    by (rule subs_record_cut)
  show "sub_bytes x \<noteq> []" by (cases x) (simp add: sub_bytes_def)
qed

interpretation subs_stream: record_stream "subs_record qos_std" sub_bytes sub_ok
  "\<lambda>xs x. xs @ [x]" "load_subs_loop qos_std" Inr "\<lambda>_. Inl"
  by (rule subs_stream_any [OF qos_std_inverse])

lemma foldl_snoc: "foldl (\<lambda>xs x. xs @ [x]) acc ys = acc @ ys"
  by (induction ys arbitrary: acc) auto

lemma load_subs_bytes:
  assumes "qos_inverse qos" and "rust_string c" "fits_u32 c" "rust_string i" "fits_u32 i"
    and "\<forall>x\<in>set entries. sub_ok x"
    and "fs_read fs path = Inr (SUBS_MAGIC @ chunk_bytes (as_bytes c) @ chunk_bytes (as_bytes i)
      @ concat (map sub_bytes entries))"
  shows "load_subs qos fs path = Inr (c, i, entries)"
  using assms(2-5,7) record_stream.run_concat [OF subs_stream_any [OF assms(1)] assms(6), of "[]"]
  by (simp add: load_subs_def read_string_def codec_simps foldl_snoc)

lemma load_saved_subs:
  assumes "qos_inverse qos" and "fs_wf fs" and "with_extension path ''subs.tmp'' \<noteq> path"
    and "rust_string c" "fits_u32 c" "rust_string i" "fits_u32 i" and "\<forall>x\<in>set entries. sub_ok x"
    and "entries \<noteq> []" and "save_subs path c i entries fs = (fs', Inr ())" and "\<not> fs_io_fault fs path"
  shows "load_subs qos fs' path = Inr (c, i, entries)"
proof -
  let ?body = "chunk_bytes (as_bytes c) @ chunk_bytes (as_bytes i) @ concat (map sub_bytes entries)"
  have rep: "fs_replace (with_extension path ''subs.tmp'') path (SUBS_MAGIC @ ?body) fs = (fs', Inr ())"
    using assms(4-10)
    by (simp add: save_subs_def write_chunk_eq write_subs_ok [OF assms(8)] split: sum.splits)
  have "fs_get fs' path = Some (SUBS_MAGIC @ ?body)" "fs_io_fault fs' = fs_io_fault fs"
    using fs_replace_atomic [OF assms(2,3) rep] fs_replace_frame(2) [OF assms(2) rep] by simp_all
  then have "fs_read fs' path = Inr (SUBS_MAGIC @ ?body)"
    using assms(11) by (simp add: fs_read_def fs_get_def)
  then show ?thesis by (rule load_subs_bytes [OF assms(1,4-8)])
qed

section \<open>Frames\<close>

lemma save_queue_frame:
  assumes "fs_wf fs" and "save_queue path q fs = (fs', r)"
  shows "fs_wf fs'" and "fs_io_fault fs' = fs_io_fault fs" and "fs_write_fault fs' = fs_write_fault fs"
    and "p \<noteq> with_extension path ''queue.tmp'' \<Longrightarrow> p \<noteq> path \<Longrightarrow> fs_get fs' p = fs_get fs p"
  using assms fs_replace_frame [OF assms(1)] by (auto simp: save_queue_def split: sum.splits)

lemma save_subs_frame:
  assumes "fs_wf fs" and "save_subs path c i es fs = (fs', r)"
  shows "fs_wf fs'" and "fs_io_fault fs' = fs_io_fault fs" and "fs_write_fault fs' = fs_write_fault fs"
    and "p \<noteq> with_extension path ''subs.tmp'' \<Longrightarrow> p \<noteq> path \<Longrightarrow> fs_get fs' p = fs_get fs p"
  using assms fs_replace_frame [OF assms(1)]
  by (auto simp: save_subs_def remove_state_file_def split: sum.splits if_splits)

section \<open>Properties\<close>

text \<open>Sessions cannot touch each other's files, whatever their client ids contain: saving the
  queue of one client leaves the queue file of every other client and every subscription
  file as they were, saving the subscriptions of one client likewise, whether the save
  succeeds or fails.\<close>

theorem session_files_isolated:
  assumes "fs_wf fs" and "c \<noteq> []"
    and "queue_path (Some dir) c = Some qp" and "subs_path (Some dir) c = Some sp"
    and "queue_path (Some dir) other = Some qo" and "subs_path (Some dir) other = Some so"
  shows "(c \<noteq> other \<longrightarrow> fs_get (fst (save_queue qp q fs)) qo = fs_get fs qo)
    \<and> fs_get (fst (save_queue qp q fs)) so = fs_get fs so
    \<and> fs_get (fst (save_subs sp c i es fs)) qo = fs_get fs qo
    \<and> (c \<noteq> other \<longrightarrow> fs_get (fst (save_subs sp c i es fs)) so = fs_get fs so)"
proof -
  have p: "qp = state_path dir c ''queue''" "sp = state_path dir c ''subs''"
    "qo = state_path dir other ''queue''" "so = state_path dir other ''subs''"
    using assms(3-6) by (simp_all add: queue_path_Some subs_path_Some)
  note w = with_extension_state [OF assms(2)]
  note qf = save_queue_frame(4) [OF assms(1) surjective_pairing]
  note sf = save_subs_frame(4) [OF assms(1) surjective_pairing]
  have "c \<noteq> other \<Longrightarrow> fs_get (fst (save_queue qp q fs)) qo = fs_get fs qo"
    by (rule qf) (auto simp: p w state_path_inject)
  moreover have "fs_get (fst (save_queue qp q fs)) so = fs_get fs so"
    by (rule qf) (auto simp: p w state_path_inject)
  moreover have "fs_get (fst (save_subs sp c i es fs)) qo = fs_get fs qo"
    by (rule sf) (auto simp: p w state_path_inject)
  moreover have "c \<noteq> other \<Longrightarrow> fs_get (fst (save_subs sp c i es fs)) so = fs_get fs so"
    by (rule sf) (auto simp: p w state_path_inject)
  ultimately show ?thesis by blast
qed

definition one_file_fs :: "string \<Rightarrow> bytes \<Rightarrow> fs" where
  "one_file_fs p d = \<lparr>fs_files = [(p, d)], fs_write_fault = (\<lambda>_. None), fs_io_fault = (\<lambda>_. False)\<rparr>"

theorem session_files_isolated_witness:
  "fs_get (fst (save_queue (state_path ''d'' ''../b'' ''queue'') [(''t'', [1])]
      (one_file_fs (state_path ''d'' ''b'' ''queue'') [7]))) (state_path ''d'' ''b'' ''queue'') = Some [7]"
proof -
  have "fs_wf (one_file_fs (state_path ''d'' ''b'' ''queue'') [7])"
    by (simp add: fs_wf_def one_file_fs_def hm_wf_def)
  from session_files_isolated [OF this _ queue_path_Some subs_path_Some queue_path_Some subs_path_Some,
      of "''../b''" "''b''" "''d''" "[(''t'', [1])]"]
  show ?thesis by (simp add: one_file_fs_def fs_get_def)
qed

text \<open>The offline queue survives a restart: after a save that reported success, loading the
  client's queue file with any positive bound yields the newest messages of the queue, in
  order; all of them if the bound allows.\<close>

theorem queue_file_roundtrip:
  assumes "fs_wf fs" and "c \<noteq> []" and "queue_path (Some dir) c = Some path"
    and "\<forall>(t, p)\<in>set q. rust_string t \<and> fits_u32 t \<and> fits_u32 p"
    and "save_queue path q fs = (fs', Inr ())" and "\<not> fs_io_fault fs path" and "0 < max_queue"
  shows "load_queue fs' path max_queue = Inr (drop (length q - max_queue) q)"
proof (rule load_saved_queue [OF assms(1) _ _ assms(5-7)])
  show "with_extension path ''queue.tmp'' \<noteq> path"
    using assms(2,3) by (auto simp: queue_path_Some with_extension_state state_path_inject)
  show "\<forall>m\<in>set q. message_ok m" using assms(4) by (auto simp: message_ok_def)
qed

lemma save_queue_ok:
  assumes "fs_wf fs" and "\<forall>m\<in>set q. message_ok m" and "\<not> fs_io_fault fs (path_dir path)"
    and "fs_write_fault fs (with_extension path ''queue.tmp'') = None"
    and "\<not> fs_io_fault fs (with_extension path ''queue.tmp'')"
  shows "save_queue path q fs = (fst (save_queue path q fs), Inr ())"
proof -
  have "\<exists>fs'. save_queue path q fs = (fs', Inr ())"
    using fs_replace_ok [OF assms(1,4,5)] assms(3)
    by (simp add: save_queue_def create_parent_def write_messages_ok [OF assms(2)])
  then show ?thesis by (metis fst_conv)
qed

theorem queue_file_roundtrip_witness:
  "load_queue (fst (save_queue (state_path ''d'' ''dev1'' ''queue'') [(''a'', [1]), (''b'', [])]
     (one_file_fs ''x'' []))) (state_path ''d'' ''dev1'' ''queue'') 1 = Inr [(''b'', [])]"
proof -
  let ?q = "[(''a'', [1]), (''b'', [])] :: message list" and ?fs = "one_file_fs ''x'' []"
  have wf: "fs_wf ?fs" by (simp add: fs_wf_def one_file_fs_def hm_wf_def)
  have ok: "\<forall>(t, p)\<in>set ?q. rust_string t \<and> fits_u32 t \<and> fits_u32 p"
    by (simp add: rust_string_def as_bytes_def char_u8_def fits_u32_def U32_MAX_def)
  then have "\<forall>m\<in>set ?q. message_ok m" by (auto simp: message_ok_def)
  from save_queue_ok [OF wf this, of "state_path ''d'' ''dev1'' ''queue''"]
  have "save_queue (state_path ''d'' ''dev1'' ''queue'') ?q ?fs =
      (fst (save_queue (state_path ''d'' ''dev1'' ''queue'') ?q ?fs), Inr ())"
    by (simp add: one_file_fs_def)
  from queue_file_roundtrip [OF wf _ queue_path_Some ok this, of 1] show ?thesis
    by (simp add: one_file_fs_def)
qed

text \<open>The subscription file survives a restart: after a save of a non-empty list that
  reported success, loading it yields the client id, the owning identity and the filters
  with their levels, in order. \<open>mqttbytes::qos\<close> is any parser that inverts the
  discriminants.\<close>

theorem subs_file_roundtrip:
  assumes "qos_inverse qos" and "fs_wf fs" and "c \<noteq> []" and "subs_path (Some dir) c = Some path"
    and "rust_string c" "fits_u32 c" "rust_string i" "fits_u32 i"
    and "\<forall>(f, q)\<in>set entries. rust_string f \<and> fits_u32 f" and "entries \<noteq> []"
    and "save_subs path c i entries fs = (fs', Inr ())" and "\<not> fs_io_fault fs path"
  shows "load_subs qos fs' path = Inr (c, i, entries)"
proof (rule load_saved_subs [OF assms(1,2) _ assms(5-8) _ assms(10-12)])
  show "with_extension path ''subs.tmp'' \<noteq> path"
    using assms(3,4) by (auto simp: subs_path_Some with_extension_state state_path_inject)
  show "\<forall>x\<in>set entries. sub_ok x" using assms(9) by (auto simp: sub_ok_def)
qed

lemma save_subs_ok:
  assumes "fs_wf fs" and "\<forall>x\<in>set es. sub_ok x" and "es \<noteq> []" and "fits_u32 c" and "fits_u32 i"
    and "\<not> fs_io_fault fs (path_dir path)" and "fs_write_fault fs (with_extension path ''subs.tmp'') = None"
    and "\<not> fs_io_fault fs (with_extension path ''subs.tmp'')"
  shows "save_subs path c i es fs = (fst (save_subs path c i es fs), Inr ())"
proof -
  have "\<exists>fs'. save_subs path c i es fs = (fs', Inr ())"
    using fs_replace_ok [OF assms(1,7,8)] assms(3-6)
    by (simp add: save_subs_def create_parent_def write_chunk_eq write_subs_ok [OF assms(2)])
  then show ?thesis by (metis fst_conv)
qed

theorem subs_file_roundtrip_witness:
  "load_subs qos_std (fst (save_subs (state_path ''d'' ''dev1'' ''subs'') ''dev1'' ''bob'' [(''a/#'', AtLeastOnce)]
     (one_file_fs ''x'' []))) (state_path ''d'' ''dev1'' ''subs'') = Inr (''dev1'', ''bob'', [(''a/#'', AtLeastOnce)])"
proof -
  let ?p = "state_path ''d'' ''dev1'' ''subs''" and ?es = "[(''a/#'', AtLeastOnce)]" and ?fs = "one_file_fs ''x'' []"
  have wf: "fs_wf ?fs" by (simp add: fs_wf_def one_file_fs_def hm_wf_def)
  have ok: "rust_string ''dev1''" "fits_u32 ''dev1''" "rust_string ''bob''" "fits_u32 ''bob''"
    "\<forall>(f, q)\<in>set ?es. rust_string f \<and> fits_u32 f"
    by (simp_all add: rust_string_def as_bytes_def char_u8_def fits_u32_def U32_MAX_def)
  then have es: "\<forall>x\<in>set ?es. sub_ok x" by (simp add: sub_ok_def)
  have "save_subs ?p ''dev1'' ''bob'' ?es ?fs = (fst (save_subs ?p ''dev1'' ''bob'' ?es ?fs), Inr ())"
    by (rule save_subs_ok [OF wf es]) (use ok in \<open>simp_all add: one_file_fs_def\<close>)
  from subs_file_roundtrip [OF qos_std_inverse wf _ subs_path_Some ok _ this] show ?thesis
    by (simp add: one_file_fs_def)
qed

end
