(* ===== verification/Metrics.thy ===== *)
theory Metrics
  imports Prelude
begin

text \<open>The counters of \<open>crates/entmoot-node/src/metrics.rs\<close>: atomics of 64 bits that wrap. The pages
  made from them are in \<open>Http\<close>, next to the broker they read.\<close>

record Metrics =
  connections_total :: u64
  connect_refused_total :: u64
  connect_shed_total :: u64
  messages_in_total :: u64
  messages_out_total :: u64
  messages_queued_total :: u64
  publish_denied_total :: u64
  subscribe_denied_total :: u64
  subscribes_total :: u64
  stale_retained_total :: u64
  rate_limit_disconnects_total :: u64
  slow_consumer_evictions_total :: u64

definition Metrics_default :: Metrics where
  "Metrics_default =
     \<lparr>connections_total = 0, connect_refused_total = 0, connect_shed_total = 0, messages_in_total = 0,
      messages_out_total = 0, messages_queued_total = 0, publish_denied_total = 0,
      subscribe_denied_total = 0, subscribes_total = 0, stale_retained_total = 0,
      rate_limit_disconnects_total = 0, slow_consumer_evictions_total = 0\<rparr>"

text \<open>\<open>Metrics::bump\<close> on the counter an update function selects, as in
  \<open>bump messages_in_total_update\<close>.\<close>

definition bump :: "((u64 \<Rightarrow> u64) \<Rightarrow> Metrics \<Rightarrow> Metrics) \<Rightarrow> Metrics \<Rightarrow> Metrics" where
  "bump counter m = counter (\<lambda>n. n + 1) m"

end
