(* ===== verification/Session.thy ===== *)
theory Session
  imports Session_Files Metrics "HOL-Library.Sublist"
begin

text \<open>
  \<open>SessionState\<close> of \<open>crates/entmoot-node/src/session.rs\<close>: one MQTT session, its lock-protected
  \<open>Inner\<close>, and every method. A channel sender and a \<open>Notify\<close> are named by numbers, so
  \<open>same_channel\<close> is equality. What a method does outside the session (files, notified
  connections, aborted tasks, counters) it does to the record \<open>env\<close>; \<open>Instant::now()\<close> is the
  argument \<open>now\<close>.

  \<open>deliver\<close> waits on a channel between two locked sections, so it is modelled at the grain of
  those sections: \<open>deliver_step\<close> is one section, \<open>session_step\<close> interleaves any number of
  deliveries with connections that come and go, and \<open>deliver\<close> runs one delivery alone.
\<close>

section \<open>Definitions\<close>

record SubEntry =
  sub_qos :: QoS
  sub_task :: nat

record Inner =
  epoch :: u64
  sink :: "nat option"
  kick :: "nat option"
  kick_reason :: "string option"
  identity :: string
  subs :: "(string, SubEntry) hashmap"
  queue :: "message list"
  dropped :: u64
  offline_since :: "instant option"

record SessionState =
  client_id :: string
  pkid :: u16
  max_queue :: nat
  slow_grace :: "duration option"
  q_path :: "string option"
  s_path :: "string option"
  inner :: Inner

record env =
  env_fs :: fs
  env_notified :: "nat list"
  env_aborted :: "nat list"
  env_metrics :: Metrics

datatype Delivery = Sent | Queued | Dropped

definition KICK_TAKEOVER :: string where
  "KICK_TAKEOVER = ''session taken over by a new connection''"

definition KICK_SLOW :: string where
  "KICK_SLOW = ''slow consumer: outbound queue stayed full past the grace period''"

definition SessionState_new ::
    "fs \<Rightarrow> string \<Rightarrow> nat \<Rightarrow> duration option \<Rightarrow> string option \<Rightarrow> string option \<Rightarrow> SessionState" where
  "SessionState_new fs cid maxq grace qp sp =
     (let q = (case qp of
                 None \<Rightarrow> []
               | Some path \<Rightarrow> (case load_queue fs path maxq of Inr q \<Rightarrow> q | Inl _ \<Rightarrow> []))
      in \<lparr>client_id = cid, pkid = 1, max_queue = maxq, slow_grace = grace, q_path = qp, s_path = sp,
          inner = \<lparr>epoch = 0, sink = None, kick = None, kick_reason = None, identity = '''',
                   subs = [], queue = q, dropped = 0, offline_since = None\<rparr>\<rparr>)"

definition take_kick_reason :: "SessionState \<Rightarrow> string option \<times> SessionState" where
  "take_kick_reason s = (kick_reason (inner s), s\<lparr>inner := (inner s)\<lparr>kick_reason := None\<rparr>\<rparr>)"

text \<open>The loop of \<open>next_pkid\<close> on the atomic: the id and the new counter.\<close>

function draw_pkid :: "u16 \<Rightarrow> u16 \<times> u16" where
  "draw_pkid n = (if n \<noteq> 0 then (n, n + 1) else draw_pkid (n + 1))"
  by pat_completeness auto
termination
  by (relation "measure (\<lambda>n. if n = 0 then 1 else 0)") auto

declare draw_pkid.simps [simp del]

definition next_pkid :: "SessionState \<Rightarrow> u16 \<times> SessionState" where
  "next_pkid s = (let (n, p) = draw_pkid (pkid s) in (n, s\<lparr>pkid := p\<rparr>))"

subsection \<open>Files of the session\<close>

definition discard_file :: "string option \<Rightarrow> env \<Rightarrow> env" where
  "discard_file path e =
     (case path of None \<Rightarrow> e | Some p \<Rightarrow> e\<lparr>env_fs := remove_state_file p (env_fs e)\<rparr>)"

definition discard_queue_file :: "SessionState \<Rightarrow> env \<Rightarrow> env" where
  "discard_queue_file s = discard_file (q_path s)"

definition discard_subs_file :: "SessionState \<Rightarrow> env \<Rightarrow> env" where
  "discard_subs_file s = discard_file (s_path s)"

definition discard_state_files :: "SessionState \<Rightarrow> env \<Rightarrow> env" where
  "discard_state_files s e = discard_subs_file s (discard_queue_file s e)"

definition persist_queue :: "SessionState \<Rightarrow> env \<Rightarrow> env" where
  "persist_queue s e =
     (case q_path s of
        None \<Rightarrow> e
      | Some path \<Rightarrow> e\<lparr>env_fs := fst (save_queue path (queue (inner s)) (env_fs e))\<rparr>)"

definition persist_subs :: "SessionState \<Rightarrow> env \<Rightarrow> env" where
  "persist_subs s e =
     (case s_path s of
        None \<Rightarrow> e
      | Some path \<Rightarrow>
          e\<lparr>env_fs := fst (save_subs path (client_id s) (identity (inner s))
               (map (\<lambda>(f, en). (f, sub_qos en)) (subs (inner s))) (env_fs e))\<rparr>)"

subsection \<open>Connections\<close>

definition notify :: "nat \<Rightarrow> env \<Rightarrow> env" where
  "notify k e = e\<lparr>env_notified := k # env_notified e\<rparr>"

text \<open>The locked part of \<open>attach_conn\<close>, and the whole: the queue file is removed after the lock
  is released.\<close>

definition attach_locked ::
    "string \<Rightarrow> nat \<Rightarrow> nat \<Rightarrow> SessionState \<times> env \<Rightarrow> (u64 \<times> message list) \<times> SessionState \<times> env" where
  "attach_locked who tx k = (\<lambda>(s, e).
     let i = inner s;
         e = (case kick i of None \<Rightarrow> e | Some old \<Rightarrow> notify old e);
         i = (case kick i of None \<Rightarrow> i | Some _ \<Rightarrow> i\<lparr>kick := None, kick_reason := Some KICK_TAKEOVER\<rparr>);
         i = i\<lparr>epoch := epoch i + 1, sink := Some tx, kick := Some k, offline_since := None\<rparr>;
         changed = (identity i \<noteq> who);
         i = (if changed then i\<lparr>identity := who\<rparr> else i);
         e = (if changed \<and> subs i \<noteq> [] then persist_subs (s\<lparr>inner := i\<rparr>) e else e)
     in ((epoch i, queue i), s\<lparr>inner := i\<lparr>queue := []\<rparr>\<rparr>, e))"

definition attach_conn ::
    "string \<Rightarrow> nat \<Rightarrow> nat \<Rightarrow> SessionState \<times> env \<Rightarrow> (u64 \<times> message list) \<times> SessionState \<times> env" where
  "attach_conn who tx k se =
     (case attach_locked who tx k se of (r, s, e) \<Rightarrow> (r, s, discard_queue_file s e))"

definition detach_conn :: "instant \<Rightarrow> u64 \<Rightarrow> SessionState \<Rightarrow> bool \<times> SessionState" where
  "detach_conn now ep s =
     (let i = inner s
      in if epoch i \<noteq> ep then (False, s)
         else (True, s\<lparr>inner := i\<lparr>sink := None, kick := None, offline_since := Some now\<rparr>\<rparr>))"

definition kick_current :: "SessionState \<times> env \<Rightarrow> SessionState \<times> env" where
  "kick_current = (\<lambda>(s, e).
     case kick (inner s) of
       None \<Rightarrow> (s, e)
     | Some k \<Rightarrow> (s\<lparr>inner := (inner s)\<lparr>kick_reason := Some KICK_TAKEOVER\<rparr>\<rparr>, notify k e))"

definition expired :: "instant \<Rightarrow> duration \<Rightarrow> SessionState \<Rightarrow> bool" where
  "expired now expiry s =
     (case offline_since (inner s) of None \<Rightarrow> False | Some t \<Rightarrow> now - t > expiry)"

definition evict_slow :: "instant \<Rightarrow> nat \<Rightarrow> SessionState \<times> env \<Rightarrow> SessionState \<times> env" where
  "evict_slow now tx = (\<lambda>(s, e).
     let i = inner s
     in if sink i \<noteq> Some tx then (s, e)
        else
          (let e = e\<lparr>env_metrics := bump slow_consumer_evictions_total_update (env_metrics e)\<rparr>;
               i = i\<lparr>kick_reason := Some KICK_SLOW\<rparr>;
               e = (case kick i of None \<Rightarrow> e | Some k \<Rightarrow> notify k e)
           in (s\<lparr>inner := i\<lparr>sink := None, offline_since := Some now\<rparr>\<rparr>, e)))"

subsection \<open>Subscriptions\<close>

definition abort_task :: "nat \<Rightarrow> env \<Rightarrow> env" where
  "abort_task t e = e\<lparr>env_aborted := t # env_aborted e\<rparr>"

definition insert_sub :: "string \<Rightarrow> QoS \<Rightarrow> nat \<Rightarrow> SessionState \<times> env \<Rightarrow> SessionState \<times> env" where
  "insert_sub f q task = (\<lambda>(s, e).
     let i = inner s;
         e = (case hm_get (subs i) f of None \<Rightarrow> e | Some old \<Rightarrow> abort_task (sub_task old) e);
         s = s\<lparr>inner := i\<lparr>subs := hm_insert f \<lparr>sub_qos = q, sub_task = task\<rparr> (subs i)\<rparr>\<rparr>
     in (s, persist_subs s e))"

definition remove_sub :: "string \<Rightarrow> SessionState \<times> env \<Rightarrow> SessionState \<times> env" where
  "remove_sub f = (\<lambda>(s, e).
     let i = inner s;
         e = (case hm_get (subs i) f of None \<Rightarrow> e | Some old \<Rightarrow> abort_task (sub_task old) e);
         s = s\<lparr>inner := i\<lparr>subs := hm_remove f (subs i)\<rparr>\<rparr>
     in (s, persist_subs s e))"

definition abort_subs :: "SessionState \<times> env \<Rightarrow> SessionState \<times> env" where
  "abort_subs = (\<lambda>(s, e).
     (s\<lparr>inner := (inner s)\<lparr>subs := []\<rparr>\<rparr>,
      foldl (\<lambda>e (_, entry). abort_task (sub_task entry) e) e (subs (inner s))))"

subsection \<open>Delivery\<close>

text \<open>What the channel answers to \<open>send_timeout\<close> (or to \<open>send\<close>, which does not time out).\<close>

datatype SendOutcome = SendOk | SendTimeout | SendClosed

record Publish =
  p_topic :: string
  p_qos :: QoS
  p_payload :: bytes
  p_retain :: bool
  p_pkid :: u16

definition Publish_new :: "string \<Rightarrow> QoS \<Rightarrow> bytes \<Rightarrow> Publish" where
  "Publish_new t q payload = \<lparr>p_topic = t, p_qos = q, p_payload = payload, p_retain = False, p_pkid = 0\<rparr>"

text \<open>Where a delivery is: at the head of the loop, waiting on a channel with its packet, about to
  clear the sink after a failed send, about to queue, or finished.\<close>

datatype deliver_pc = AtLoop | AtSend nat Publish | AtClear nat | AtQueue | Done Delivery

definition deliver_step ::
    "string \<Rightarrow> bytes \<Rightarrow> QoS \<Rightarrow> instant \<Rightarrow> SendOutcome \<Rightarrow> deliver_pc \<times> SessionState \<times> env
       \<Rightarrow> deliver_pc \<times> SessionState \<times> env" where
  "deliver_step t payload q now outcome = (\<lambda>(pc, s, e).
     case pc of
       AtLoop \<Rightarrow>
         (case sink (inner s) of
            Some tx \<Rightarrow>
              (let p = Publish_new t q payload
               in if q \<noteq> AtMostOnce
                  then (let (n, s) = next_pkid s in (AtSend tx (p\<lparr>p_pkid := n\<rparr>), s, e))
                  else (AtSend tx p, s, e))
          | None \<Rightarrow>
              if q = AtMostOnce \<or> max_queue s = 0 then (Done Dropped, s, e) else (AtQueue, s, e))
     | AtSend tx p \<Rightarrow>
         (case slow_grace s of
            Some grace \<Rightarrow>
              (case outcome of
                 SendOk \<Rightarrow> (Done Sent, s, e)
               | SendTimeout \<Rightarrow> (let (s, e) = evict_slow now tx (s, e) in (AtClear tx, s, e))
               | SendClosed \<Rightarrow> (AtClear tx, s, e))
          | None \<Rightarrow> if outcome = SendOk then (Done Sent, s, e) else (AtClear tx, s, e))
     | AtClear tx \<Rightarrow>
         (let i = inner s
          in (AtLoop,
              if sink i = Some tx then s\<lparr>inner := i\<lparr>sink := None, offline_since := Some now\<rparr>\<rparr> else s, e))
     | AtQueue \<Rightarrow>
         (let i = inner s
          in if sink i \<noteq> None then (AtLoop, s, e)
             else
               (let i = (if length (queue i) \<ge> max_queue s
                         then i\<lparr>queue := tl (queue i), dropped := dropped i + 1\<rparr> else i);
                    s = s\<lparr>inner := i\<lparr>queue := queue i @ [(t, payload)]\<rparr>\<rparr>
                in (Done Queued, s, persist_queue s e)))
     | Done d \<Rightarrow> (Done d, s, e))"

text \<open>One delivery with nothing else running, every send answered \<open>outcome\<close>; \<open>None\<close> when the fuel
  runs out.\<close>

fun deliver_run ::
    "nat \<Rightarrow> string \<Rightarrow> bytes \<Rightarrow> QoS \<Rightarrow> instant \<Rightarrow> SendOutcome \<Rightarrow> deliver_pc \<times> SessionState \<times> env
       \<Rightarrow> (Delivery \<times> SessionState \<times> env) option" where
  "deliver_run fuel t payload q now outcome (Done d, s, e) = Some (d, s, e)"
| "deliver_run 0 t payload q now outcome (pc, s, e) = None"
| "deliver_run (Suc fuel) t payload q now outcome (pc, s, e) =
     deliver_run fuel t payload q now outcome (deliver_step t payload q now outcome (pc, s, e))"

definition deliver ::
    "string \<Rightarrow> bytes \<Rightarrow> QoS \<Rightarrow> instant \<Rightarrow> SendOutcome \<Rightarrow> SessionState \<times> env
       \<Rightarrow> (Delivery \<times> SessionState \<times> env) option" where
  "deliver t payload q now outcome se = deliver_run 5 t payload q now outcome (AtLoop, se)"

subsection \<open>All interleavings\<close>

text \<open>
  A session with its deliveries in progress and what happened so far: the packets accepted by
  channels, the messages that entered the offline queue (in order), the messages handed to
  reconnecting clients (in order), and the number of attachments. \<open>session_step\<close> is one locked
  section or one answered send of any of them.
\<close>

record thread =
  th_topic :: string
  th_payload :: bytes
  th_qos :: QoS
  th_pc :: deliver_pc

record machine =
  m_session :: SessionState
  m_env :: env
  m_threads :: "thread list"
  m_queued :: "message list"
  m_drained :: "message list"
  m_attached :: nat

definition machine_init :: "SessionState \<Rightarrow> env \<Rightarrow> machine" where
  "machine_init s e =
     \<lparr>m_session = s, m_env = e, m_threads = [], m_queued = queue (inner s), m_drained = [], m_attached = 0\<rparr>"

inductive session_step :: "machine \<Rightarrow> machine \<Rightarrow> bool" where
  start: "session_step m (m\<lparr>m_threads := m_threads m @
     [\<lparr>th_topic = t, th_payload = p, th_qos = q, th_pc = AtLoop\<rparr>]\<rparr>)"
| work: "i < length (m_threads m) \<Longrightarrow> th = m_threads m ! i \<Longrightarrow>
     deliver_step (th_topic th) (th_payload th) (th_qos th) now outcome (th_pc th, m_session m, m_env m)
       = (pc, s, e) \<Longrightarrow>
     session_step m (m\<lparr>m_session := s, m_env := e, m_threads := (m_threads m)[i := th\<lparr>th_pc := pc\<rparr>],
       m_queued := (if pc = Done Queued \<and> th_pc th \<noteq> Done Queued
                    then m_queued m @ [(th_topic th, th_payload th)] else m_queued m)\<rparr>)"
| attach: "attach_locked who tx k (m_session m, m_env m) = ((ep, backlog), s, e) \<Longrightarrow>
     session_step m (m\<lparr>m_session := s, m_env := e, m_drained := m_drained m @ backlog,
       m_attached := m_attached m + 1\<rparr>)"
| discard: "session_step m (m\<lparr>m_env := discard_queue_file (m_session m) (m_env m)\<rparr>)"
| detach: "detach_conn now ep (m_session m) = (b, s) \<Longrightarrow> session_step m (m\<lparr>m_session := s\<rparr>)"
| kicked: "kick_current (m_session m, m_env m) = (s, e) \<Longrightarrow>
     session_step m (m\<lparr>m_session := s, m_env := e\<rparr>)"
| reason: "take_kick_reason (m_session m) = (r, s) \<Longrightarrow> session_step m (m\<lparr>m_session := s\<rparr>)"
| pkid: "next_pkid (m_session m) = (n, s) \<Longrightarrow> session_step m (m\<lparr>m_session := s\<rparr>)"
| subscribed: "insert_sub f q task (m_session m, m_env m) = (s, e) \<Longrightarrow>
     session_step m (m\<lparr>m_session := s, m_env := e\<rparr>)"
| unsubscribed: "remove_sub f (m_session m, m_env m) = (s, e) \<Longrightarrow>
     session_step m (m\<lparr>m_session := s, m_env := e\<rparr>)"
| aborted: "abort_subs (m_session m, m_env m) = (s, e) \<Longrightarrow>
     session_step m (m\<lparr>m_session := s, m_env := e\<rparr>)"

section \<open>Packet identifiers\<close>

lemma draw_pkid_eq: "draw_pkid n = (if n = 0 then (1, 2) else (n, n + 1))"
  by (simp add: draw_pkid.simps [of n] draw_pkid.simps [of 1])

text \<open>The counter after \<open>k\<close> draws and the id of draw \<open>k\<close>.\<close>

fun pkid_state :: "u16 \<Rightarrow> nat \<Rightarrow> u16" where
  "pkid_state n 0 = n"
| "pkid_state n (Suc k) = snd (draw_pkid (pkid_state n k))"

definition pkid_nth :: "u16 \<Rightarrow> nat \<Rightarrow> u16" where
  "pkid_nth n k = fst (draw_pkid (pkid_state n k))"

lemma pkid_nth_nonzero: "pkid_nth n k \<noteq> 0"
  by (simp add: pkid_nth_def draw_pkid_eq)

lemma u16_less: "unat (w :: u16) < 65536"
  using unsigned_less [of w, where ?'a = nat] by simp

lemma unat_numeral_65535: "unat (65535 :: u16) = 65535" and minus_one_65535: "(- 1 :: u16) = 65535"
  by simp_all

lemma pkid_nth_Suc: "pkid_nth n (Suc k) = (if pkid_nth n k = 65535 then 1 else pkid_nth n k + 1)"
proof -
  have "w + 1 = 0 \<longleftrightarrow> w = 65535" for w :: u16
    by (simp only: eq_neg_iff_add_eq_0 [symmetric] minus_one_65535)
  then show ?thesis
    by (auto simp: pkid_nth_def draw_pkid_eq)
qed

lemma pkid_nth_unat: "unat (pkid_nth n k) = (unat (pkid_nth n 0) - 1 + k) mod 65535 + 1"
proof (induction k)
  case 0
  have "0 < unat (pkid_nth n 0)" using pkid_nth_nonzero by (simp add: unat_gt_0)
  with u16_less [of "pkid_nth n 0"] show ?case by simp
next
  case (Suc k)
  let ?x = "unat (pkid_nth n 0) - 1 + k"
  show ?case
  proof (cases "pkid_nth n k = 65535")
    case True
    with Suc have "?x mod 65535 = 65534" by simp
    then have "Suc ?x mod 65535 = 0" by (simp add: mod_Suc)
    with True show ?thesis by (simp add: pkid_nth_Suc)
  next
    case False
    then have ne: "unat (pkid_nth n k) \<noteq> 65535" by (metis unat_numeral_65535 unsigned_word_eqI)
    with Suc have "Suc ?x mod 65535 = Suc (?x mod 65535)" by (simp add: mod_Suc)
    moreover have "unat (pkid_nth n k + 1) = unat (pkid_nth n k) + 1"
      using ne u16_less [of "pkid_nth n k"] by (simp add: unat_word_ariths)
    ultimately show ?thesis using False Suc by (simp add: pkid_nth_Suc)
  qed
qed

lemma pkid_nth_distinct:
  assumes "j < i + 65535" and "i < j"
  shows "pkid_nth n i \<noteq> pkid_nth n j"
proof
  let ?b = "unat (pkid_nth n 0) - 1"
  assume "pkid_nth n i = pkid_nth n j"
  then have "(?b + i) mod 65535 = (?b + j) mod 65535"
    using pkid_nth_unat [of n i] pkid_nth_unat [of n j] by simp
  then have "65535 dvd (j - i)"
    using assms(2) mod_eq_dvd_iff_nat [of "?b + i" "?b + j" 65535] by (simp add: eq_commute)
  with assms show False by (auto dest: dvd_imp_le)
qed

section \<open>Invariants\<close>

text \<open>What every method keeps: the queue is within its bound, a session with a live connection has
  an empty queue, a way to kick that connection and no offline time, and each filter is
  subscribed once.\<close>

definition session_inv :: "SessionState \<Rightarrow> bool" where
  "session_inv s \<longleftrightarrow>
     length (queue (inner s)) \<le> max_queue s
   \<and> (sink (inner s) \<noteq> None \<longrightarrow>
        queue (inner s) = [] \<and> kick (inner s) \<noteq> None \<and> offline_since (inner s) = None)
   \<and> hm_wf (subs (inner s))"

text \<open>What is fixed for the life of a session.\<close>

definition same_config :: "SessionState \<Rightarrow> SessionState \<Rightarrow> bool" where
  "same_config s s' \<longleftrightarrow> client_id s' = client_id s \<and> max_queue s' = max_queue s
     \<and> slow_grace s' = slow_grace s \<and> q_path s' = q_path s \<and> s_path s' = s_path s"

text \<open>The part of the state that the history is about.\<close>

definition books :: "SessionState \<Rightarrow> message list \<times> u64 \<times> u64" where
  "books s = (queue (inner s), dropped (inner s), epoch (inner s))"

named_theorems session_defs \<open>the methods of a session\<close>

lemmas [session_defs] = take_kick_reason_def next_pkid_def attach_locked_def detach_conn_def
  kick_current_def evict_slow_def insert_sub_def remove_sub_def abort_subs_def Let_def

lemma load_queue_bound: "load_queue fs p n = Inr q \<Longrightarrow> length q \<le> n"
proof -
  have "length q \<le> n \<Longrightarrow> 0 < n \<Longrightarrow> load_queue_loop n q bs = Inr q' \<Longrightarrow> length q' \<le> n" for q bs q'
  proof (induction n q bs rule: load_queue_loop.induct)
    case (1 n q bs)
    show ?case
    proof (cases "bs = []")
      case True
      with 1(2-) show ?thesis by (simp add: load_queue_loop.simps)
    next
      case False
      with 1(4) obtain x rest where x: "queue_record bs = Inr (x, rest)"
        by (auto simp: load_queue_loop.simps [of n q bs] split: sum.splits)
      with 1(4) False have "load_queue_loop n (push_bounded n q x) rest = Inr q'"
        by (simp add: load_queue_loop.simps [of n q bs])
      with 1(1) [OF False x refl] push_bounded_length [OF 1(3,2)] 1(3) show ?thesis by simp
    qed
  qed
  from this [of "[]"] show "load_queue fs p n = Inr q \<Longrightarrow> length q \<le> n"
    by (auto simp: load_queue_def split: if_splits sum.splits option.splits)
qed

lemma session_new_inv: "session_inv (SessionState_new fs c n g qp sp)"
  by (auto simp: session_inv_def SessionState_new_def Let_def split: option.split sum.split
      dest: load_queue_bound)

lemma session_new_books:
  "books (SessionState_new fs c n g qp sp) = (queue (inner (SessionState_new fs c n g qp sp)), 0, 0)"
  by (simp add: books_def SessionState_new_def Let_def)

lemma attach_inv: "session_inv s \<Longrightarrow> attach_locked who tx k (s, e) = (r, s', e') \<Longrightarrow> session_inv s'"
  by (auto simp: session_inv_def session_defs split: option.splits if_splits)

lemma detach_inv: "session_inv s \<Longrightarrow> detach_conn now ep s = (b, s') \<Longrightarrow> session_inv s'"
  by (auto simp: session_inv_def session_defs split: if_splits)

lemma kick_inv: "session_inv s \<Longrightarrow> kick_current (s, e) = (s', e') \<Longrightarrow> session_inv s'"
  by (auto simp: session_inv_def session_defs split: option.splits)

lemma evict_inv: "session_inv s \<Longrightarrow> evict_slow now tx (s, e) = (s', e') \<Longrightarrow> session_inv s'"
  by (auto simp: session_inv_def session_defs split: option.splits if_splits)

lemma pkid_inv: "session_inv s \<Longrightarrow> next_pkid s = (n, s') \<Longrightarrow> session_inv s'"
  by (auto simp: session_inv_def session_defs split: prod.splits)

lemma subs_inv:
  "session_inv s \<Longrightarrow> insert_sub f q task (s, e) = (s', e') \<Longrightarrow> session_inv s'"
  "session_inv s \<Longrightarrow> remove_sub f (s, e) = (s', e') \<Longrightarrow> session_inv s'"
  "session_inv s \<Longrightarrow> abort_subs (s, e) = (s', e') \<Longrightarrow> session_inv s'"
  "session_inv s \<Longrightarrow> take_kick_reason s = (rs, s') \<Longrightarrow> session_inv s'"
  by (auto simp: session_inv_def session_defs)

lemmas method_inv = attach_inv detach_inv kick_inv evict_inv pkid_inv subs_inv

lemma deliver_step_inv:
  assumes "session_inv s" and "deliver_step t p q now outcome (pc, s, e) = (pc', s', e')"
    and "pc = AtQueue \<Longrightarrow> 0 < max_queue s"
  shows "session_inv s'"
proof (cases pc)
  case AtLoop
  with assms show ?thesis
    by (auto simp: deliver_step_def Let_def split: option.splits if_splits prod.splits dest: pkid_inv)
next
  case (AtSend tx pb)
  with assms show ?thesis
    by (auto simp: deliver_step_def Let_def split: option.splits if_splits SendOutcome.splits prod.splits
        dest: evict_inv)
next
  case (AtClear tx)
  with assms show ?thesis
    by (auto simp: deliver_step_def Let_def session_inv_def split: if_splits)
next
  case AtQueue
  with assms have "0 < max_queue s" by simp
  with AtQueue assms(1,2) show ?thesis
    by (auto simp: deliver_step_def Let_def session_inv_def split: if_splits)
next
  case (Done d)
  with assms show ?thesis by (simp add: deliver_step_def)
qed

text \<open>The effect of one section of a delivery on the books: none, unless it queues.\<close>

lemma books_methods:
  "evict_slow now tx (s, e) = (s', e') \<Longrightarrow> books s' = books s \<and> same_config s s'"
  "next_pkid s = (n, s') \<Longrightarrow> books s' = books s \<and> same_config s s'"
  "detach_conn now ep s = (b, s') \<Longrightarrow> books s' = books s \<and> same_config s s'"
  "kick_current (s, e) = (s', e') \<Longrightarrow> books s' = books s \<and> same_config s s'"
  "take_kick_reason s = (rs, s') \<Longrightarrow> books s' = books s \<and> same_config s s'"
  "insert_sub f q task (s, e) = (s', e') \<Longrightarrow> books s' = books s \<and> same_config s s'"
  "remove_sub f (s, e) = (s', e') \<Longrightarrow> books s' = books s \<and> same_config s s'"
  "abort_subs (s, e) = (s', e') \<Longrightarrow> books s' = books s \<and> same_config s s'"
  by (auto simp: books_def same_config_def session_defs split: option.splits if_splits prod.splits)

lemma attach_books:
  "attach_locked who tx k (s, e) = ((ep, backlog), s', e') \<Longrightarrow>
     books s' = ([], dropped (inner s), epoch (inner s) + 1) \<and> backlog = queue (inner s)
     \<and> ep = epoch (inner s) + 1 \<and> same_config s s'"
  by (auto simp: books_def same_config_def session_defs split: option.splits if_splits)

lemma deliver_step_books:
  assumes "deliver_step t p q now outcome (pc, s, e) = (pc', s', e')"
  shows "same_config s s' \<and> (pc' = AtQueue \<longrightarrow> 0 < max_queue s)
    \<and> (if pc' = Done Queued \<and> pc \<noteq> Done Queued
       then sink (inner s) = None \<and> books s' = (push_bounded (max_queue s) (queue (inner s)) (t, p),
         (if max_queue s \<le> length (queue (inner s)) then dropped (inner s) + 1 else dropped (inner s)),
         epoch (inner s))
       else books s' = books s)"
proof (cases pc)
  case AtLoop
  with assms show ?thesis
    by (auto simp: deliver_step_def Let_def same_config_def books_def split: option.splits if_splits prod.splits
        dest!: books_methods(2))
next
  case (AtSend tx pb)
  with assms show ?thesis
    by (auto simp: deliver_step_def Let_def same_config_def split: option.splits if_splits SendOutcome.splits
        prod.splits dest!: books_methods(1))
next
  case (AtClear tx)
  with assms show ?thesis
    by (auto simp: deliver_step_def Let_def same_config_def books_def split: if_splits)
next
  case AtQueue
  with assms show ?thesis
    by (auto simp: deliver_step_def Let_def same_config_def books_def push_bounded_def split: if_splits)
next
  case (Done d)
  with assms show ?thesis by (auto simp: deliver_step_def same_config_def)
qed

text \<open>The history agrees with the state: what was handed out and what is still queued is, in this
  order, what was queued, less as many messages as were counted dropped; the epoch counts
  the attachments.\<close>

definition machine_inv :: "machine \<Rightarrow> bool" where
  "machine_inv m \<longleftrightarrow>
     session_inv (m_session m)
   \<and> (\<forall>th\<in>set (m_threads m). th_pc th = AtQueue \<longrightarrow> 0 < max_queue (m_session m))
   \<and> (case books (m_session m) of (q, d, ep) \<Rightarrow>
        subseq (m_drained m @ q) (m_queued m)
      \<and> word_of_nat (length (m_queued m)) = word_of_nat (length (m_drained m @ q)) + d
      \<and> ep = word_of_nat (m_attached m))"

lemma machine_init_inv:
  assumes "session_inv s" and "books s = (queue (inner s), 0, 0)"
  shows "machine_inv (machine_init s e)"
  using assms by (simp add: machine_inv_def machine_init_def)

text \<open>A step that keeps the books keeps the invariant, if it keeps the session's.\<close>

lemma machine_inv_frame:
  assumes "machine_inv m" and "session_inv s" and "books s = books (m_session m)" and "same_config (m_session m) s"
  shows "machine_inv (m\<lparr>m_session := s, m_env := e\<rparr>)" and "machine_inv (m\<lparr>m_session := s\<rparr>)"
  using assms by (simp_all add: machine_inv_def same_config_def)

lemma subseq_push_bounded:
  assumes "subseq (xs @ q) hist"
  shows "subseq (xs @ push_bounded n q x) (hist @ [x])"
proof -
  have "subseq (xs @ (if n \<le> length q then tl q else q)) (xs @ q)"
    by (cases q) (auto intro: list_emb_append_mono)
  with assms have "subseq (xs @ (if n \<le> length q then tl q else q)) hist"
    by (rule subseq_order.trans [rotated])
  then show ?thesis by (simp add: push_bounded_def flip: append_assoc)
qed

lemma deliver_queued_at:
  "deliver_step t p q now outcome (pc, s, e) = (Done Queued, s', e') \<Longrightarrow> pc \<noteq> Done Queued \<Longrightarrow> pc = AtQueue"
  by (auto simp: deliver_step_def Let_def split: deliver_pc.splits option.splits if_splits SendOutcome.splits
      prod.splits)

lemma machine_inv_work:
  assumes inv: "machine_inv m" and i: "i < length (m_threads m)" "th = m_threads m ! i"
    and st: "deliver_step (th_topic th) (th_payload th) (th_qos th) now outcome
      (th_pc th, m_session m, m_env m) = (pc, s, e)"
  shows "machine_inv (m\<lparr>m_session := s, m_env := e, m_threads := (m_threads m)[i := th\<lparr>th_pc := pc\<rparr>],
       m_queued := (if pc = Done Queued \<and> th_pc th \<noteq> Done Queued
                    then m_queued m @ [(th_topic th, th_payload th)] else m_queued m)\<rparr>)"
proof -
  let ?s = "m_session m" and ?x = "(th_topic th, th_payload th)"
  have th: "th \<in> set (m_threads m)" using i by simp
  with inv have pos: "th_pc th = AtQueue \<Longrightarrow> 0 < max_queue ?s" by (auto simp: machine_inv_def)
  have s: "session_inv s" using deliver_step_inv [OF _ st pos] inv by (simp add: machine_inv_def)
  note b = deliver_step_books [OF st]
  have threads: "\<forall>th'\<in>set ((m_threads m)[i := th\<lparr>th_pc := pc\<rparr>]). th_pc th' = AtQueue \<longrightarrow> 0 < max_queue s"
    using inv b by (auto simp: machine_inv_def same_config_def dest!: set_update_subset_insert [THEN subsetD])
  show ?thesis
  proof (cases "pc = Done Queued \<and> th_pc th \<noteq> Done Queued")
    case True
    obtain q d ep where bk: "books ?s = (q, d, ep)" by (cases "books ?s")
    then have q: "q = queue (inner ?s)" "d = dropped (inner ?s)" "ep = epoch (inner ?s)"
      by (auto simp: books_def)
    have "books s = (push_bounded (max_queue ?s) q ?x, if max_queue ?s \<le> length q then d + 1 else d, ep)"
      using True b by (simp add: q)
    moreover have "word_of_nat (length (push_bounded (max_queue ?s) q ?x)) +
        (if max_queue ?s \<le> length q then d + 1 else d) = word_of_nat (length q) + d + 1"
      using pos True deliver_queued_at [of _ _ _ now outcome "th_pc th"] st
      by (cases q) (auto simp: push_bounded_def algebra_simps)
    ultimately show ?thesis
      using True inv s threads bk subseq_push_bounded [of "m_drained m" q "m_queued m" "max_queue ?s" ?x]
      by (auto simp: machine_inv_def algebra_simps)
  next
    case False
    with b have "books s = books ?s" by auto
    then show ?thesis using False inv s threads by (auto simp: machine_inv_def)
  qed
qed

lemma machine_inv_step:
  assumes inv: "machine_inv m" and "session_step m m'"
  shows "machine_inv m'"
  using assms(2)
proof cases
  case (start t p q)
  with inv show ?thesis by (simp add: machine_inv_def)
next
  case (work i th now outcome pc s e)
  with machine_inv_work [OF inv work(2-4)] show ?thesis by simp
next
  case (attach who tx k ep backlog s e)
  have "session_inv s" using inv attach_inv [OF _ attach(2)] by (simp add: machine_inv_def)
  with inv attach_books [OF attach(2)] show ?thesis
    by (auto simp: machine_inv_def attach(1) books_def same_config_def)
next
  case discard
  with inv show ?thesis by (simp add: machine_inv_def)
qed (use inv in \<open>auto intro!: machine_inv_frame intro: method_inv dest: books_methods simp: machine_inv_def [of m]\<close>)

definition fresh_machine :: "machine \<Rightarrow> bool" where
  "fresh_machine m \<longleftrightarrow> (\<exists>fs c n g qp sp e. m = machine_init (SessionState_new fs c n g qp sp) e)"

lemma fresh_machineI: "fresh_machine (machine_init (SessionState_new fs c n g qp sp) e)"
  unfolding fresh_machine_def by blast

interpretation session_runs: transition_system fresh_machine session_step machine_inv
  by unfold_locales (auto simp: fresh_machine_def session_new_inv session_new_books intro: machine_init_inv machine_inv_step)

lemma step_attached: "session_step m m' \<Longrightarrow> m_attached m \<le> m_attached m'"
  by (induction rule: session_step.induct) auto

lemma steps_attached: "session_step\<^sup>*\<^sup>* m m' \<Longrightarrow> m_attached m \<le> m_attached m'"
  by (induction rule: rtranclp_induct) (auto dest: step_attached)

lemma machine_epoch: "machine_inv m \<Longrightarrow> epoch (inner (m_session m)) = word_of_nat (m_attached m)"
  by (auto simp: machine_inv_def books_def)

section \<open>Properties\<close>

text \<open>(C7) In every interleaving of deliveries, connections, disconnections, evictions and
  subscription changes on a session, its offline queue stays within the bound, and while a
  connection is attached the queue is empty, the connection can be kicked and the session is
  not counted offline.\<close>

theorem session_safe:
  assumes "session_step\<^sup>*\<^sup>* (machine_init (SessionState_new fs c n g qp sp) e) m"
  shows "length (queue (inner (m_session m))) \<le> max_queue (m_session m)
    \<and> (\<forall>tx. sink (inner (m_session m)) = Some tx \<longrightarrow>
         queue (inner (m_session m)) = [] \<and> kick (inner (m_session m)) \<noteq> None
         \<and> offline_since (inner (m_session m)) = None)"
  using session_runs.inv_reachable [OF fresh_machineI assms]
  by (auto simp: machine_inv_def session_inv_def)

definition demo_env :: env where
  "demo_env = \<lparr>env_fs = \<lparr>fs_files = [], fs_write_fault = (\<lambda>_. None), fs_io_fault = (\<lambda>_. False)\<rparr>,
     env_notified = [], env_aborted = [], env_metrics = Metrics_default\<rparr>"

abbreviation demo_session :: SessionState where
  "demo_session \<equiv> SessionState_new (env_fs demo_env) ''dev1'' 2 (Some 5) None None"

text \<open>A run: a message is queued, then a client connects and takes it.\<close>

definition demo_thread :: "deliver_pc \<Rightarrow> thread" where
  "demo_thread pc = \<lparr>th_topic = ''t'', th_payload = [1], th_qos = AtLeastOnce, th_pc = pc\<rparr>"

definition demo_queued :: machine where
  "demo_queued = (machine_init demo_session demo_env)
     \<lparr>m_session := demo_session\<lparr>inner := (inner demo_session)\<lparr>queue := [(''t'', [1])]\<rparr>\<rparr>,
      m_threads := [demo_thread (Done Queued)], m_queued := [(''t'', [1])]\<rparr>"

definition demo_taken :: machine where
  "demo_taken = demo_queued
     \<lparr>m_session := fst (snd (attach_locked ''bob'' 7 8 (m_session demo_queued, demo_env))),
      m_drained := [(''t'', [1])], m_attached := 1\<rparr>"

lemma demo_run: "session_step\<^sup>*\<^sup>* (machine_init demo_session demo_env) demo_queued" "session_step demo_queued demo_taken"
proof -
  let ?m0 = "machine_init demo_session demo_env"
  let ?m1 = "?m0\<lparr>m_threads := [demo_thread AtLoop]\<rparr>" and ?m2 = "?m0\<lparr>m_threads := [demo_thread AtQueue]\<rparr>"
  have "session_step ?m0 ?m1"
    using session_step.start [of ?m0 "''t''" "[1]" AtLeastOnce] by (simp add: machine_init_def demo_thread_def)
  moreover have "session_step ?m1 ?m2"
    using session_step.work [of 0 ?m1 "demo_thread AtLoop" 0 SendOk AtQueue demo_session demo_env]
    by (simp add: machine_init_def demo_thread_def deliver_step_def SessionState_new_def Let_def)
  moreover have "session_step ?m2 demo_queued"
    using session_step.work [of 0 ?m2 "demo_thread AtQueue" 0 SendOk "Done Queued" "m_session demo_queued" demo_env]
    by (simp add: machine_init_def demo_thread_def demo_queued_def deliver_step_def SessionState_new_def Let_def
        persist_queue_def)
  ultimately show "session_step\<^sup>*\<^sup>* ?m0 demo_queued"
    by (intro converse_rtranclp_into_rtranclp [of _ ?m0 ?m1] converse_rtranclp_into_rtranclp [of _ ?m1 ?m2]
        r_into_rtranclp)
  have "attach_locked ''bob'' 7 8 (m_session demo_queued, m_env demo_queued) =
      ((1, [(''t'', [1])]), m_session demo_taken, demo_env)"
    by (simp add: attach_locked_def demo_taken_def demo_queued_def machine_init_def SessionState_new_def Let_def)
  from session_step.attach [OF this] show "session_step demo_queued demo_taken"
    by (simp add: demo_taken_def demo_queued_def machine_init_def)
qed

lemmas demo_reach = rtranclp.rtrancl_into_rtrancl [OF demo_run]

lemma demo_taken_state: "sink (inner (m_session demo_taken)) = Some 7" "m_drained demo_taken = [(''t'', [1])]"
  "m_attached demo_taken = 1" "m_attached demo_queued = 0" "epoch (inner (m_session demo_queued)) = 0"
  by (simp_all add: demo_taken_def demo_queued_def attach_locked_def machine_init_def SessionState_new_def Let_def)

theorem session_safe_witness:
  "sink (inner (m_session demo_taken)) = Some 7 \<and> queue (inner (m_session demo_taken)) = []
     \<and> kick (inner (m_session demo_taken)) \<noteq> None"
  using session_safe [OF demo_reach] demo_taken_state(1) by blast

text \<open>(C8) Offline messages are kept in order and every loss is counted: in every interleaving, the
  messages handed to reconnecting clients followed by those still queued are the messages
  that entered the queue, in the order they entered, less some; and the number missing is
  the session's dropped counter (modulo its 64 bits).\<close>

theorem backlog_in_order:
  assumes "session_step\<^sup>*\<^sup>* (machine_init (SessionState_new fs c n g qp sp) e) m"
  shows "subseq (m_drained m @ queue (inner (m_session m))) (m_queued m)
    \<and> word_of_nat (length (m_queued m)) =
       word_of_nat (length (m_drained m @ queue (inner (m_session m)))) + dropped (inner (m_session m))"
  using session_runs.inv_reachable [OF fresh_machineI assms]
  by (auto simp: machine_inv_def books_def)

theorem backlog_in_order_witness:
  "subseq ([(''t'', [1])] @ queue (inner (m_session demo_taken))) (m_queued demo_taken)"
  using backlog_in_order [OF demo_reach] by (simp add: demo_taken_state)

text \<open>The loser of a takeover cannot detach the winner: whatever happened since a connection
  attached with epoch \<open>ep\<close>, once at least one more connection attached (and fewer than
  2 to the 64 did), a detach with \<open>ep\<close> is refused and changes nothing.\<close>

theorem takeover_epoch_safe:
  assumes "session_step\<^sup>*\<^sup>* (machine_init (SessionState_new fs c n g qp sp) e) m"
    and "ep = epoch (inner (m_session m))"
    and "session_step\<^sup>*\<^sup>* m m'" and "m_attached m < m_attached m'" and "m_attached m' < m_attached m + 2 ^ 64"
  shows "detach_conn now ep (m_session m') = (False, m_session m')"
proof -
  have inv: "machine_inv m" by (rule session_runs.inv_reachable [OF fresh_machineI assms(1)])
  from inv assms(3) have inv': "machine_inv m'" by (rule session_runs.inv_steps [rotated])
  have "(word_of_nat (m_attached m) :: u64) \<noteq> word_of_nat (m_attached m')"
  proof
    assume "(word_of_nat (m_attached m) :: u64) = word_of_nat (m_attached m')"
    then have "2 ^ 64 dvd (m_attached m' - m_attached m)"
      using assms(4) mod_eq_dvd_iff_nat [of "m_attached m" "m_attached m'" "2 ^ 64"]
      by (simp add: word_of_nat_eq_iff take_bit_eq_mod)
    with assms(4,5) show False by (auto dest: dvd_imp_le)
  qed
  then show ?thesis
    using machine_epoch [OF inv] machine_epoch [OF inv'] by (simp add: detach_conn_def assms(2) Let_def)
qed

theorem takeover_epoch_safe_witness:
  "detach_conn 9 0 (m_session demo_taken) = (False, m_session demo_taken)"
  using takeover_epoch_safe [OF demo_run(1) demo_taken_state(5) [symmetric] r_into_rtranclp [of session_step, OF demo_run(2)], of 9]
  by (simp add: demo_taken_state)

text \<open>(C40) Packet identifiers are valid and not reused early: from any counter value, no draw gives
  0, and any two of 65535 consecutive draws differ, across the wrap of the 16-bit counter.\<close>

theorem pkids_valid_distinct:
  "pkid_nth n i \<noteq> 0 \<and> (\<forall>j. i < j \<and> j < i + 65535 \<longrightarrow> pkid_nth n i \<noteq> pkid_nth n j)"
  using pkid_nth_nonzero pkid_nth_distinct by blast

theorem pkids_valid_distinct_witness: "pkid_nth 65535 0 = 65535 \<and> pkid_nth 65535 0 \<noteq> pkid_nth 65535 1"
  using pkids_valid_distinct [of 65535 0] by (simp add: pkid_nth_def draw_pkid_eq)

text \<open>The path of a delivery that runs alone.\<close>

definition delivery_result :: "QoS \<Rightarrow> SendOutcome \<Rightarrow> SessionState \<Rightarrow> Delivery" where
  "delivery_result q outcome s =
     (if sink (inner s) \<noteq> None \<and> outcome = SendOk then Sent
      else if q = AtMostOnce \<or> max_queue s = 0 then Dropped else Queued)"

lemma deliver_offline:
  assumes "sink (inner s) = None"
  shows "\<exists>s' e'. deliver_run (Suc (Suc fuel)) t p q now outcome (AtLoop, s, e) =
      Some (if q = AtMostOnce \<or> max_queue s = 0 then Dropped else Queued, s', e')
    \<and> sink (inner s') = None
    \<and> queue (inner s') = (if q = AtMostOnce \<or> max_queue s = 0 then queue (inner s)
        else push_bounded (max_queue s) (queue (inner s)) (t, p))"
  using assms by (cases fuel) (auto simp: deliver_step_def Let_def push_bounded_def)

lemma deliver_live:
  assumes "sink (inner s) = Some tx" and "outcome = SendOk"
  shows "\<exists>s' e'. deliver_run (Suc (Suc fuel)) t p q now outcome (AtLoop, s, e) = Some (Sent, s', e')
    \<and> sink (inner s') = Some tx \<and> queue (inner s') = queue (inner s)"
  using assms
  by (cases fuel; cases "slow_grace s") (auto simp: deliver_step_def next_pkid_def Let_def split: prod.split)

lemma deliver_broken:
  assumes "sink (inner s) = Some tx" and "outcome \<noteq> SendOk"
  shows "\<exists>s' e'. deliver_run (Suc (Suc (Suc fuel))) t p q now outcome (AtLoop, s, e) =
      deliver_run fuel t p q now outcome (AtLoop, s', e')
    \<and> sink (inner s') = None \<and> queue (inner s') = queue (inner s) \<and> max_queue s' = max_queue s"
  using assms
  by (cases outcome; cases "slow_grace s")
    (auto simp: deliver_step_def next_pkid_def Let_def evict_slow_def split: prod.split option.split)

lemma deliver_outcome:
  "\<exists>s' e'. deliver t p q now outcome (s, e) = Some (delivery_result q outcome s, s', e')
    \<and> queue (inner s') = (if delivery_result q outcome s = Queued
        then drop (Suc (length (queue (inner s))) - max_queue s) (queue (inner s) @ [(t, p)])
        else queue (inner s))
    \<and> sink (inner s') = (if outcome = SendOk then sink (inner s) else None)"
  if "length (queue (inner s)) \<le> max_queue s"
proof -
  have n: "(5 :: nat) = Suc (Suc (Suc (Suc (Suc 0))))" by simp
  have push: "max_queue s \<noteq> 0 \<Longrightarrow> push_bounded (max_queue s) (queue (inner s)) (t, p) =
      drop (Suc (length (queue (inner s))) - max_queue s) (queue (inner s) @ [(t, p)])"
    using that push_bounded_newest by simp
  show ?thesis
  proof (cases "sink (inner s)")
    case None
    with deliver_offline [OF None, of "Suc (Suc (Suc 0))" t p q now outcome e] push show ?thesis
      by (auto simp: deliver_def n delivery_result_def)
  next
    case (Some tx)
    show ?thesis
    proof (cases "outcome = SendOk")
      case True
      with deliver_live [OF Some True, of "Suc (Suc (Suc 0))" t p q now e] Some show ?thesis
        by (auto simp: deliver_def n delivery_result_def)
    next
      case False
      obtain s1 e1 where 1: "deliver t p q now outcome (s, e) =
            deliver_run (Suc (Suc 0)) t p q now outcome (AtLoop, s1, e1)"
          "sink (inner s1) = None" "queue (inner s1) = queue (inner s)" "max_queue s1 = max_queue s"
        using deliver_broken [OF Some False, of "Suc (Suc 0)" t p q now e] by (auto simp: deliver_def n)
      from deliver_offline [OF 1(2), of 0 t p q now outcome e1] 1 False push show ?thesis
        by (auto simp: delivery_result_def)
    qed
  qed
qed

text \<open>(C21) A delivery that nothing interferes with ends, whatever the channel answers: it reports
  \<open>Sent\<close> if a live connection took the packet, \<open>Dropped\<close> for a QoS 0 message (or a zero
  bound) with no live connection, and otherwise \<open>Queued\<close>, having put the message at the end
  of the queue and pushed out the oldest one if the queue was full. A connection that did
  not take the packet is detached.\<close>

theorem deliver_correct:
  "\<exists>s' e'. deliver t p q now outcome (s, e) = Some (delivery_result q outcome s, s', e')
    \<and> queue (inner s') = (if delivery_result q outcome s = Queued
        then drop (Suc (length (queue (inner s))) - max_queue s) (queue (inner s) @ [(t, p)])
        else queue (inner s))
    \<and> sink (inner s') = (if outcome = SendOk then sink (inner s) else None)"
  if "length (queue (inner s)) \<le> max_queue s"
  by (rule deliver_outcome [OF that])

theorem deliver_correct_witness:
  "\<exists>s' e'. deliver ''b'' [2] AtLeastOnce 9 SendClosed (m_session demo_taken, demo_env) = Some (Queued, s', e')
     \<and> queue (inner s') = [(''b'', [2])] \<and> sink (inner s') = None"
proof -
  have st: "queue (inner (m_session demo_taken)) = []" "max_queue (m_session demo_taken) = 2"
    by (simp_all add: demo_taken_def demo_queued_def attach_locked_def machine_init_def SessionState_new_def Let_def)
  then show ?thesis
    using deliver_correct [of "m_session demo_taken" "''b''" "[2]" AtLeastOnce 9 SendClosed demo_env]
    by (simp add: delivery_result_def)
qed

text \<open>A slow consumer is evicted, and only it: when the channel of the attached connection
  stays full past the grace, the delivery kicks exactly that connection with the
  slow-consumer reason and counts one eviction; when another connection has taken the
  session over meanwhile, the timeout changes nothing.\<close>

theorem slow_consumer_evicted:
  assumes "slow_grace s = Some grace"
  shows "\<exists>s' e'. deliver_step t p q now SendTimeout (AtSend tx pb, s, e) = (AtClear tx, s', e')
    \<and> (if sink (inner s) = Some tx
       then sink (inner s') = None \<and> offline_since (inner s') = Some now
         \<and> kick_reason (inner s') = Some KICK_SLOW
         \<and> env_notified e' = (case kick (inner s) of Some k \<Rightarrow> [k] | None \<Rightarrow> []) @ env_notified e
         \<and> slow_consumer_evictions_total (env_metrics e') = slow_consumer_evictions_total (env_metrics e) + 1
       else s' = s \<and> e' = e)"
  using assms
  by (auto simp: deliver_step_def evict_slow_def Let_def bump_def notify_def split: option.split)

theorem slow_consumer_evicted_witness:
  "\<exists>s' e'. deliver_step ''b'' [2] AtLeastOnce 9 SendTimeout (AtSend 7 (Publish_new ''b'' AtLeastOnce [2]), m_session demo_taken, demo_env) =
      (AtClear 7, s', e') \<and> sink (inner s') = None \<and> env_notified e' = [8]"
proof -
  have st: "slow_grace (m_session demo_taken) = Some 5" "sink (inner (m_session demo_taken)) = Some 7"
    "kick (inner (m_session demo_taken)) = Some 8"
    by (simp_all add: demo_taken_def demo_queued_def attach_locked_def machine_init_def SessionState_new_def Let_def)
  from slow_consumer_evicted [OF st(1), of "''b''" "[2]" AtLeastOnce 9 7 "Publish_new ''b'' AtLeastOnce [2]" demo_env] st(2,3) show ?thesis
    by (auto simp: demo_env_def)
qed

definition fs_healthy :: "fs \<Rightarrow> bool" where
  "fs_healthy fs \<longleftrightarrow> fs_wf fs \<and> fs_write_fault fs = (\<lambda>_. None) \<and> fs_io_fault fs = (\<lambda>_. False)"

text \<open>(C26) Queued messages survive a crash: when \<open>deliver\<close> has queued a message for an offline
  session that has a queue file, and the disk works, a session built from that file after a
  restart starts with the same queue, however the node stopped after the call.\<close>

theorem offline_queue_survives_restart:
  assumes "sink (inner s) = None" and "q \<noteq> AtMostOnce" and "0 < max_queue s"
    and "length (queue (inner s)) \<le> max_queue s"
    and "client_id s \<noteq> []" and "q_path s = queue_path (Some dir) (client_id s)"
    and "\<forall>(t', p')\<in>set (queue (inner s) @ [(t, p)]). rust_string t' \<and> fits_u32 t' \<and> fits_u32 p'"
    and "fs_healthy (env_fs e)"
  shows "\<exists>s' e'. deliver t p q now outcome (s, e) = Some (Queued, s', e')
    \<and> queue (inner (SessionState_new (env_fs e') (client_id s) (max_queue s) g (q_path s) sp)) = queue (inner s')"
proof -
  let ?q = "push_bounded (max_queue s) (queue (inner s)) (t, p)" and ?path = "state_path dir (client_id s) ''queue''"
  have n: "(5 :: nat) = Suc (Suc (Suc (Suc (Suc 0))))" by simp
  have path: "q_path s = Some ?path" using assms(6) by (simp add: queue_path_Some)
  have "\<exists>s'. deliver t p q now outcome (s, e) = Some (Queued, s', persist_queue s' e)
      \<and> queue (inner s') = ?q \<and> q_path s' = q_path s"
    using assms(1-3) by (auto simp: deliver_def n deliver_step_def Let_def push_bounded_def)
  then obtain s' where s': "deliver t p q now outcome (s, e) = Some (Queued, s', persist_queue s' e)"
    "queue (inner s') = ?q" "q_path s' = Some ?path" using path by auto
  have wf: "fs_wf (env_fs e)" and nf: "fs_write_fault (env_fs e) = (\<lambda>_. None)" "fs_io_fault (env_fs e) = (\<lambda>_. False)"
    using assms(8) by (simp_all add: fs_healthy_def)
  have ok: "\<forall>m\<in>set ?q. message_ok m"
    using assms(7) by (auto simp: push_bounded_newest [OF assms(3,4)] message_ok_def dest!: in_set_dropD)
  have ext: "with_extension ?path ''queue.tmp'' \<noteq> ?path"
    using assms(5) by (simp add: with_extension_state state_path_inject)
  have "save_queue ?path ?q (env_fs e) = (fst (save_queue ?path ?q (env_fs e)), Inr ())"
    by (rule save_queue_ok [OF wf ok]) (simp_all add: nf)
  from load_saved_queue [OF wf ext ok this _ assms(3)]
  have "load_queue (env_fs (persist_queue s' e)) ?path (max_queue s) = Inr ?q"
    using push_bounded_length [OF assms(3,4)] by (simp add: persist_queue_def s' nf)
  with s' path show ?thesis by (simp add: SessionState_new_def)
qed

theorem offline_queue_survives_restart_witness:
  "\<exists>s' e'. deliver ''b'' [2] AtLeastOnce 9 SendOk
       (SessionState_new (env_fs demo_env) ''dev1'' 2 None (queue_path (Some ''d'') ''dev1'') None, demo_env) =
     Some (Queued, s', e')
   \<and> queue (inner (SessionState_new (env_fs e') ''dev1'' 2 None (queue_path (Some ''d'') ''dev1'') None)) = queue (inner s')"
proof -
  let ?s = "SessionState_new (env_fs demo_env) ''dev1'' 2 None (queue_path (Some ''d'') ''dev1'') None"
  have "load_queue (env_fs demo_env) p 2 = Inl IoError" for p
    by (simp add: load_queue_def fs_read_def demo_env_def)
  then have s: "sink (inner ?s) = None" "max_queue ?s = 2" "queue (inner ?s) = []" "client_id ?s = ''dev1''"
    "q_path ?s = queue_path (Some ''d'') ''dev1''"
    by (simp_all add: SessionState_new_def Let_def split: option.split)
  have "fs_healthy (env_fs demo_env)" by (simp add: fs_healthy_def demo_env_def fs_wf_def)
  moreover have "rust_string ''b''" "fits_u32 ''b''" "fits_u32 [2 :: u8]"
    by (simp_all add: rust_string_def as_bytes_def char_u8_def fits_u32_def U32_MAX_def)
  ultimately show ?thesis
    using offline_queue_survives_restart [of ?s AtLeastOnce "''d''" "''b''" "[2]" demo_env 9 SendOk None None]
    by (simp add: s)
qed

end
