(* ===== verification/Config.thy ===== *)
theory Config
  imports Bytes
begin

text \<open>
  \<open>crates/entmoot-core/src/config.rs\<close> and the argument handling of
  \<open>crates/entmoot-node/src/main.rs\<close>: the configuration record, its defaults, and the command
  line overriding the configuration file. \<open>usize\<close> values are \<open>nat\<close>; \<open>u16\<close>, \<open>u32\<close> and \<open>u64\<close>
  keep their width. Reading the file (\<open>std::fs\<close>) and parsing it (the \<open>toml\<close> crate, outside the
  repository) are the arguments \<open>read_to_string\<close> and \<open>parse_toml\<close> of \<open>load_config\<close>.
\<close>

section \<open>Definitions\<close>

datatype Policy = Allow | Deny

record UserCred =
  uc_name :: string
  uc_password_sha256 :: string

record AclRule =
  rule_user :: string
  rule_publish :: "string list"
  rule_subscribe :: "string list"

record StalenessRule =
  sr_filter :: string
  sr_bound_secs :: u64

record TlsConfig =
  tls_listen :: string
  tls_cert_file :: string
  tls_key_file :: string
  tls_client_ca_file :: "string option"

record AuthConfig =
  auth_allow_anonymous :: bool
  auth_default_policy :: Policy
  auth_users :: "UserCred list"

record NodeConfig =
  cfg_id :: string
  cfg_mqtt_listen :: string
  cfg_zenoh_listen :: "string list"
  cfg_peers :: "string list"
  cfg_scope :: string
  cfg_max_packet_size :: nat
  cfg_max_connections :: nat
  cfg_max_publish_rate :: u32
  cfg_data_dir :: "string option"
  cfg_metrics_listen :: "string option"
  cfg_health_listen :: "string option"
  cfg_session_expiry_secs :: u64
  cfg_max_queued_per_session :: nat
  cfg_slow_consumer_grace_ms :: u64
  cfg_sys_interval_secs :: u64
  cfg_connect_admission_rate :: u32
  cfg_connect_admission_burst :: u32
  cfg_retained_staleness_secs :: u64
  cfg_staleness :: "StalenessRule list"
  cfg_zenoh_link_mtu :: "u16 option"
  cfg_tls :: "TlsConfig option"
  cfg_auth :: AuthConfig
  cfg_acl :: "AclRule list"

definition AuthConfig_default :: AuthConfig where
  "AuthConfig_default = \<lparr>auth_allow_anonymous = True, auth_default_policy = Allow, auth_users = []\<rparr>"

definition AclRule_default :: AclRule where
  "AclRule_default = \<lparr>rule_user = ''*'', rule_publish = [], rule_subscribe = []\<rparr>"

definition default_tls_listen :: string where
  "default_tls_listen = ''0.0.0.0:8883''"

definition NodeConfig_default :: NodeConfig where
  "NodeConfig_default =
     \<lparr>cfg_id = ''entmoot-0'', cfg_mqtt_listen = ''0.0.0.0:1883'', cfg_zenoh_listen = [''tcp/0.0.0.0:7447''],
      cfg_peers = [], cfg_scope = [], cfg_max_packet_size = 256 * 1024, cfg_max_connections = 10000,
      cfg_max_publish_rate = 0, cfg_data_dir = None, cfg_metrics_listen = None, cfg_health_listen = None,
      cfg_session_expiry_secs = 24 * 60 * 60, cfg_max_queued_per_session = 1000,
      cfg_slow_consumer_grace_ms = 5000, cfg_sys_interval_secs = 10, cfg_connect_admission_rate = 0,
      cfg_connect_admission_burst = 0, cfg_retained_staleness_secs = 0, cfg_staleness = [],
      cfg_zenoh_link_mtu = None, cfg_tls = None, cfg_auth = AuthConfig_default, cfg_acl = []\<rparr>"

record Args =
  arg_config :: "string option"
  arg_hash_password :: "string option"
  arg_id :: "string option"
  arg_mqtt :: "string option"
  arg_zenoh_listen :: "string list"
  arg_peers :: "string list"
  arg_scope :: "string option"
  arg_max_packet_size :: "nat option"
  arg_connect_admission_rate :: "u32 option"
  arg_connect_admission_burst :: "u32 option"
  arg_retained_staleness_secs :: "u64 option"
  arg_zenoh_link_mtu :: "u16 option"

text \<open>\<open>if let Some(v) = arg \{ cfg.f = v \}\<close>.\<close>

definition override :: "'a option \<Rightarrow> ('a \<Rightarrow> 'c \<Rightarrow> 'c) \<Rightarrow> 'c \<Rightarrow> 'c" where
  "override arg set_field cfg = (case arg of Some v \<Rightarrow> set_field v cfg | None \<Rightarrow> cfg)"

definition apply_args :: "Args \<Rightarrow> NodeConfig \<Rightarrow> NodeConfig" where
  "apply_args args cfg =
     (let cfg = override (arg_id args) (\<lambda>v c. c\<lparr>cfg_id := v\<rparr>) cfg;
          cfg = override (arg_mqtt args) (\<lambda>v c. c\<lparr>cfg_mqtt_listen := v\<rparr>) cfg;
          cfg = (if arg_zenoh_listen args \<noteq> [] then cfg\<lparr>cfg_zenoh_listen := arg_zenoh_listen args\<rparr> else cfg);
          cfg = (if arg_peers args \<noteq> [] then cfg\<lparr>cfg_peers := arg_peers args\<rparr> else cfg);
          cfg = override (arg_scope args) (\<lambda>v c. c\<lparr>cfg_scope := v\<rparr>) cfg;
          cfg = override (arg_max_packet_size args) (\<lambda>v c. c\<lparr>cfg_max_packet_size := v\<rparr>) cfg;
          cfg = override (arg_connect_admission_rate args) (\<lambda>v c. c\<lparr>cfg_connect_admission_rate := v\<rparr>) cfg;
          cfg = override (arg_connect_admission_burst args) (\<lambda>v c. c\<lparr>cfg_connect_admission_burst := v\<rparr>) cfg;
          cfg = override (arg_retained_staleness_secs args) (\<lambda>v c. c\<lparr>cfg_retained_staleness_secs := v\<rparr>) cfg;
          cfg = override (arg_zenoh_link_mtu args) (\<lambda>v c. c\<lparr>cfg_zenoh_link_mtu := Some v\<rparr>) cfg
      in cfg)"

datatype ConfigError = ConfigRead string | ConfigParse string

definition load_config ::
    "(string \<Rightarrow> string option) \<Rightarrow> (string \<Rightarrow> NodeConfig option) \<Rightarrow> Args \<Rightarrow> (ConfigError, NodeConfig) result" where
  "load_config read_to_string parse_toml args =
     (case arg_config args of
        Some path \<Rightarrow>
          (case read_to_string path of
             None \<Rightarrow> Inl (ConfigRead path)
           | Some raw \<Rightarrow>
               (case parse_toml raw of
                  None \<Rightarrow> Inl (ConfigParse path)
                | Some cfg \<Rightarrow> Inr (apply_args args cfg)))
      | None \<Rightarrow> Inr (apply_args args NodeConfig_default))"

text \<open>What \<open>main\<close> does: print a password hash, fail on the configuration, or run the node, with
  or without the warning that it runs open.\<close>

datatype MainAction = PrintHash string | ConfigFailed ConfigError | RunNode NodeConfig bool

definition main_action ::
    "(string \<Rightarrow> string) \<Rightarrow> (string \<Rightarrow> string option) \<Rightarrow> (string \<Rightarrow> NodeConfig option) \<Rightarrow> Args \<Rightarrow> MainAction" where
  "main_action hash read_to_string parse_toml args =
     (case arg_hash_password args of
        Some pw \<Rightarrow> PrintHash (hash pw)
      | None \<Rightarrow>
          (case load_config read_to_string parse_toml args of
             Inl e \<Rightarrow> ConfigFailed e
           | Inr cfg \<Rightarrow> RunNode cfg (auth_allow_anonymous (cfg_auth cfg) \<and> auth_users (cfg_auth cfg) = [])))"

section \<open>Properties\<close>

lemma override_simps [simp]:
  "override None f c = c" "override (Some v) f c = f v c"
  by (simp_all add: override_def)

text \<open>The fields the command line cannot touch, security settings first.\<close>

definition file_only :: "NodeConfig \<Rightarrow> NodeConfig \<Rightarrow> bool" where
  "file_only c d \<longleftrightarrow>
     cfg_auth d = cfg_auth c \<and> cfg_acl d = cfg_acl c \<and> cfg_tls d = cfg_tls c \<and> cfg_staleness d = cfg_staleness c
     \<and> cfg_max_connections d = cfg_max_connections c \<and> cfg_max_publish_rate d = cfg_max_publish_rate c
     \<and> cfg_data_dir d = cfg_data_dir c \<and> cfg_metrics_listen d = cfg_metrics_listen c
     \<and> cfg_health_listen d = cfg_health_listen c \<and> cfg_session_expiry_secs d = cfg_session_expiry_secs c
     \<and> cfg_max_queued_per_session d = cfg_max_queued_per_session c
     \<and> cfg_slow_consumer_grace_ms d = cfg_slow_consumer_grace_ms c
     \<and> cfg_sys_interval_secs d = cfg_sys_interval_secs c"

lemma file_only_refl: "file_only c c"
  by (simp add: file_only_def)

lemma file_only_trans: "file_only a b \<Longrightarrow> file_only b c \<Longrightarrow> file_only a c"
  by (simp add: file_only_def)

lemma file_only_override:
  "(\<And>v c. file_only c (f v c)) \<Longrightarrow> file_only c d \<Longrightarrow> file_only c (override arg f d)"
  by (cases arg) (auto intro: file_only_trans)

text \<open>A field read after an override: kept if the flag is about another field, else the flag's
  value when it was given.\<close>

lemma override_keep: "(\<And>v c. g (f v c) = g c) \<Longrightarrow> g (override arg f c) = g c"
  by (cases arg) simp_all

lemma override_set:
  "(\<And>v c. g (f v c) = v) \<Longrightarrow> g (override arg f c) = (case arg of Some v \<Rightarrow> v | None \<Rightarrow> g c)"
  by (cases arg) simp_all

lemma apply_args_fields:
  "cfg_id (apply_args args cfg) = (case arg_id args of Some v \<Rightarrow> v | None \<Rightarrow> cfg_id cfg)"
  "cfg_mqtt_listen (apply_args args cfg) = (case arg_mqtt args of Some v \<Rightarrow> v | None \<Rightarrow> cfg_mqtt_listen cfg)"
  "cfg_peers (apply_args args cfg) = (if arg_peers args = [] then cfg_peers cfg else arg_peers args)"
  "cfg_scope (apply_args args cfg) = (case arg_scope args of Some v \<Rightarrow> v | None \<Rightarrow> cfg_scope cfg)"
  by (simp_all add: apply_args_def Let_def
      override_keep [of cfg_id] override_keep [of cfg_mqtt_listen] override_keep [of cfg_peers]
      override_keep [of cfg_scope] override_set [of cfg_id] override_set [of cfg_mqtt_listen]
      override_set [of cfg_scope] if_distrib [of cfg_id] if_distrib [of cfg_mqtt_listen]
      if_distrib [of cfg_peers] if_distrib [of cfg_scope] split: option.split)

lemma file_only_if:
  "file_only c d \<Longrightarrow> file_only c (if b then d\<lparr>cfg_zenoh_listen := l\<rparr> else d)"
  "file_only c d \<Longrightarrow> file_only c (if b then d\<lparr>cfg_peers := l\<rparr> else d)"
  by (auto simp: file_only_def)

lemma apply_args_file_only: "file_only cfg (apply_args args cfg)"
  unfolding apply_args_def Let_def
  by (intro file_only_override file_only_if file_only_refl) (simp_all add: file_only_def)

text \<open>Security settings come from the configuration file only: whatever the command line
  says, the node that \<open>main\<close> starts has the users, ACLs, TLS, policy, limits and persistence of
  the configuration file (of the defaults when there is none), and a flag that is given
  decides its own field.\<close>

theorem flags_keep_security_settings:
  assumes "main_action hash read_to_string parse_toml args = RunNode cfg open"
  shows "\<exists>base. (case arg_config args of
                  None \<Rightarrow> base = NodeConfig_default
                | Some path \<Rightarrow> \<exists>raw. read_to_string path = Some raw \<and> parse_toml raw = Some base)
    \<and> file_only base cfg
    \<and> cfg_id cfg = (case arg_id args of Some v \<Rightarrow> v | None \<Rightarrow> cfg_id base)
    \<and> cfg_scope cfg = (case arg_scope args of Some v \<Rightarrow> v | None \<Rightarrow> cfg_scope base)
    \<and> cfg_peers cfg = (if arg_peers args = [] then cfg_peers base else arg_peers args)
    \<and> (open \<longleftrightarrow> auth_allow_anonymous (cfg_auth base) \<and> auth_users (cfg_auth base) = [])"
proof -
  have shape: "\<exists>base. cfg = apply_args args base \<and>
      (case arg_config args of
         None \<Rightarrow> base = NodeConfig_default
       | Some path \<Rightarrow> \<exists>raw. read_to_string path = Some raw \<and> parse_toml raw = Some base)"
    and "open": "open \<longleftrightarrow> auth_allow_anonymous (cfg_auth cfg) \<and> auth_users (cfg_auth cfg) = []"
    using assms by (auto simp: main_action_def load_config_def split: option.splits sum.splits)
  then obtain base where base: "cfg = apply_args args base"
    "case arg_config args of
       None \<Rightarrow> base = NodeConfig_default
     | Some path \<Rightarrow> \<exists>raw. read_to_string path = Some raw \<and> parse_toml raw = Some base"
    by blast
  have keep: "file_only base cfg"
    unfolding base(1) by (rule apply_args_file_only)
  then have "cfg_auth cfg = cfg_auth base" by (simp add: file_only_def)
  with base keep "open" show ?thesis
    by (intro exI [of _ base]) (simp add: apply_args_fields)
qed

definition no_args :: Args where
  "no_args = \<lparr>arg_config = None, arg_hash_password = None, arg_id = None, arg_mqtt = None,
     arg_zenoh_listen = [], arg_peers = [], arg_scope = None, arg_max_packet_size = None,
     arg_connect_admission_rate = None, arg_connect_admission_burst = None,
     arg_retained_staleness_secs = None, arg_zenoh_link_mtu = None\<rparr>"

theorem flags_keep_security_settings_witness:
  "\<exists>base. base = NodeConfig_default
     \<and> file_only base (apply_args (no_args\<lparr>arg_id := Some ''ent-1''\<rparr>) NodeConfig_default)"
  using flags_keep_security_settings
    [of "\<lambda>x. x" "\<lambda>_. None" "\<lambda>_. None" "no_args\<lparr>arg_id := Some ''ent-1''\<rparr>"
        "apply_args (no_args\<lparr>arg_id := Some ''ent-1''\<rparr>) NodeConfig_default" True]
  by (simp add: main_action_def load_config_def no_args_def apply_args_def NodeConfig_default_def
      AuthConfig_default_def)

end
