(* ===== verification/Auth.thy ===== *)
theory Auth
  imports Topic Config
begin

text \<open>
  \<open>crates/entmoot-core/src/auth.rs\<close> and \<open>staleness.rs\<close>: password authentication, topic access
  control, and the per-topic staleness bound. The SHA-256 digest (the \<open>sha2\<close> crate, outside
  the repository) is the argument \<open>digest\<close>, a function from bytes to bytes.

  The lemmas show when a login succeeds and as whom, and that a granted subscription can
  only ever deliver topics some grant of that identity matches.
\<close>

section \<open>Definitions\<close>

definition sha256_hex :: "(bytes \<Rightarrow> bytes) \<Rightarrow> string \<Rightarrow> string" where
  "sha256_hex digest s = hex_bytes (digest (as_bytes s))"

datatype ConnectDenied = BadCredentials | AnonymousNotAllowed

record Authenticator =
  authn_users :: "(string, string) hashmap"
  authn_allow_anonymous :: bool

definition Authenticator_new :: "AuthConfig \<Rightarrow> Authenticator" where
  "Authenticator_new cfg =
     \<lparr>authn_users = foldl (\<lambda>m (k, v). hm_insert k v m) []
        (map (\<lambda>u. (uc_name u, to_lowercase (uc_password_sha256 u))) (auth_users cfg)),
      authn_allow_anonymous = auth_allow_anonymous cfg\<rparr>"

definition authenticate ::
    "(bytes \<Rightarrow> bytes) \<Rightarrow> Authenticator \<Rightarrow> (string \<times> string) option \<Rightarrow> (ConnectDenied, string) result" where
  "authenticate digest self login =
     (case login of
        Some (user, password) \<Rightarrow>
          (if user \<noteq> [] then
             (case hm_get (authn_users self) user of
                Some stored \<Rightarrow>
                  (if stored = sha256_hex digest password then Inr user else Inl BadCredentials)
              | None \<Rightarrow> Inl BadCredentials)
           else if authn_allow_anonymous self then Inr [] else Inl AnonymousNotAllowed)
      | None \<Rightarrow> if authn_allow_anonymous self then Inr [] else Inl AnonymousNotAllowed)"

record Acl =
  acl_rules :: "AclRule list"
  acl_default_allow :: bool

definition Acl_new :: "AclRule list \<Rightarrow> Policy \<Rightarrow> Acl" where
  "Acl_new rules policy = \<lparr>acl_rules = rules, acl_default_allow = (policy = Allow)\<rparr>"

definition rules_for :: "Acl \<Rightarrow> string \<Rightarrow> AclRule list" where
  "rules_for self user =
     filter (\<lambda>r. rule_user r = ''*'' \<or> rule_user r = user) (acl_rules self)"

definition may_publish :: "Acl \<Rightarrow> string \<Rightarrow> string \<Rightarrow> bool" where
  "may_publish self user t \<longleftrightarrow>
     acl_default_allow self \<or>
     list_ex (\<lambda>r. list_ex (\<lambda>pat. topic_matches pat t) (rule_publish r)) (rules_for self user)"

definition may_subscribe :: "Acl \<Rightarrow> string \<Rightarrow> string \<Rightarrow> bool" where
  "may_subscribe self user filt \<longleftrightarrow>
     acl_default_allow self \<or>
     list_ex (\<lambda>r. list_ex (\<lambda>pat. filter_covers pat filt) (rule_subscribe r)) (rules_for self user)"

record StalenessPolicy =
  sp_rules :: "StalenessRule list"
  sp_default_secs :: u64

definition StalenessPolicy_new :: "StalenessRule list \<Rightarrow> u64 \<Rightarrow> StalenessPolicy" where
  "StalenessPolicy_new rules default_secs = \<lparr>sp_rules = rules, sp_default_secs = default_secs\<rparr>"

definition bound_secs :: "StalenessPolicy \<Rightarrow> string \<Rightarrow> u64" where
  "bound_secs self t =
     (case find (\<lambda>r. topic_matches (sr_filter r) t) (sp_rules self) of
        Some r \<Rightarrow> sr_bound_secs r
      | None \<Rightarrow> sp_default_secs self)"

section \<open>Lemmas\<close>

text \<open>The user table holds, for each name, the entry listed last.\<close>

lemma authn_users_get:
  "hm_get (authn_users (Authenticator_new cfg)) user =
     map_option (\<lambda>u. to_lowercase (uc_password_sha256 u)) (find (\<lambda>u. uc_name u = user) (rev (auth_users cfg)))"
proof -
  have tab: "map_of (map (\<lambda>u. (uc_name u, to_lowercase (uc_password_sha256 u))) us) user =
      map_option (\<lambda>u. to_lowercase (uc_password_sha256 u)) (find (\<lambda>u. uc_name u = user) us)" for us
    by (induction us) auto
  show ?thesis
    by (simp add: Authenticator_new_def hm.get_insert_all rev_map tab option.case_eq_if
        split: option.splits)
qed

lemma rules_for_iff:
  "r \<in> set (rules_for acl user) \<longleftrightarrow>
     r \<in> set (acl_rules acl) \<and> (rule_user r = ''*'' \<or> rule_user r = user)"
  by (auto simp: rules_for_def)

lemma may_subscribe_deny:
  "\<not> acl_default_allow acl \<Longrightarrow> may_subscribe acl user f \<longleftrightarrow>
     (\<exists>r\<in>set (rules_for acl user). \<exists>pat\<in>set (rule_subscribe r). filter_covers pat f)"
  by (auto simp: may_subscribe_def list_ex_iff)

text \<open>On a filter without wildcards, coverage is matching.\<close>

lemma level_covers_concrete:
  "\<forall>l\<in>set ts. topic_level l \<Longrightarrow> level_covers os ts \<longleftrightarrow> level_match os ts"
  by (induction os arbitrary: ts) (auto simp: topic_level_def split: list.splits)

section \<open>Properties\<close>

text \<open>(C32) A login is accepted exactly as documented: without a user name (none given, or an
  empty one) as the anonymous identity and only if the configuration allows it; with a
  user name only as that user, and only if the last entry of the configured user list with
  that name holds, up to letter case, the hexadecimal SHA-256 of the password.\<close>

theorem authenticate_exact:
  "authenticate digest (Authenticator_new cfg) login = Inr ident \<longleftrightarrow>
     (ident = [] \<and> auth_allow_anonymous cfg \<and> (case login of None \<Rightarrow> True | Some (u, _) \<Rightarrow> u = []))
     \<or> (ident \<noteq> [] \<and> (\<exists>password cred. login = Some (ident, password)
          \<and> find (\<lambda>u. uc_name u = ident) (rev (auth_users cfg)) = Some cred
          \<and> to_lowercase (uc_password_sha256 cred) = sha256_hex digest password))"
proof (cases login)
  case None
  then show ?thesis by (auto simp: authenticate_def Authenticator_new_def)
next
  case (Some l)
  obtain user password where l: "l = (user, password)" by (cases l)
  show ?thesis
  proof (cases "user = []")
    case True
    with Some l show ?thesis by (auto simp: authenticate_def Authenticator_new_def)
  next
    case False
    with Some l show ?thesis
      by (auto simp: authenticate_def authn_users_get split: option.splits)
  qed
qed

text \<open>(C23) A granted subscription delivers only granted topics. Under the deny policy, if the
  access list lets an identity subscribe to a filter, every topic that filter matches is
  matched by a subscribe pattern of a rule for that identity (or for everybody); and for a
  filter that is a concrete topic this is also sufficient.\<close>

theorem acl_subscribe_sound:
  assumes "may_subscribe (Acl_new rules Deny) user f" and "topic_matches f t"
  shows "\<exists>r\<in>set rules. (rule_user r = ''*'' \<or> rule_user r = user) \<and>
    (\<exists>pat\<in>set (rule_subscribe r). topic_matches pat t)"
proof -
  have "\<not> acl_default_allow (Acl_new rules Deny)" by (simp add: Acl_new_def)
  from may_subscribe_deny [OF this, THEN iffD1, OF assms(1)] obtain r pat
    where r: "r \<in> set (rules_for (Acl_new rules Deny) user)" and pat: "pat \<in> set (rule_subscribe r)"
      and cov: "filter_covers pat f" by blast
  from cov assms(2) have "topic_matches pat t"
    using level_covers_sound by (simp add: filter_covers_level_covers topic_matches_level_match)
  with r pat show ?thesis by (auto simp: rules_for_iff Acl_new_def)
qed

theorem acl_subscribe_sound_witness:
  "\<exists>r\<in>set [AclRule_default\<lparr>rule_user := ''scada'', rule_subscribe := [''plant/#'']\<rparr>].
     (rule_user r = ''*'' \<or> rule_user r = ''scada'') \<and>
     (\<exists>pat\<in>set (rule_subscribe r). topic_matches pat ''plant/kiln1/temp'')"
proof -
  have h: "may_subscribe (Acl_new [AclRule_default\<lparr>rule_user := ''scada'', rule_subscribe := [''plant/#'']\<rparr>] Deny)
      ''scada'' ''plant/+/temp''" "topic_matches ''plant/+/temp'' ''plant/kiln1/temp''"
    by code_simp+
  show ?thesis by (rule acl_subscribe_sound [OF h])
qed

text \<open>Publishing and subscribing to the same concrete topic are judged alike: for a topic
  without wildcards and an access list that grants the same patterns for both, an identity
  may subscribe to the topic exactly when it may publish to it.\<close>

theorem acl_concrete_agree:
  assumes "topic_name t" and "\<forall>r\<in>set (acl_rules acl). rule_publish r = rule_subscribe r"
  shows "may_subscribe acl user t \<longleftrightarrow> may_publish acl user t"
proof -
  have "filter_covers pat t \<longleftrightarrow> topic_matches pat t" for pat
    using assms(1) level_covers_concrete
    by (simp add: filter_covers_level_covers topic_matches_level_match topic_name_def)
  moreover have "\<forall>r\<in>set (rules_for acl user). rule_publish r = rule_subscribe r"
    using assms(2) by (simp add: rules_for_iff)
  ultimately show ?thesis
    by (auto simp: may_subscribe_def may_publish_def list_ex_iff)
qed

theorem acl_concrete_agree_witness:
  "may_subscribe \<lparr>acl_rules = [\<lparr>rule_user = ''a'', rule_publish = [''x/#''], rule_subscribe = [''x/#'']\<rparr>],
      acl_default_allow = False\<rparr> ''a'' ''x/y''
   \<longleftrightarrow> may_publish \<lparr>acl_rules = [\<lparr>rule_user = ''a'', rule_publish = [''x/#''], rule_subscribe = [''x/#'']\<rparr>],
      acl_default_allow = False\<rparr> ''a'' ''x/y''"
proof -
  have h: "topic_name ''x/y''" by code_simp
  show ?thesis by (rule acl_concrete_agree [OF h]) simp
qed

end
