(* ===== verification/Registry.thy ===== *)
theory Registry
  imports Session Auth
begin

text \<open>
  \<open>SessionRegistry\<close> and the functions around it in \<open>crates/entmoot-node/src/session.rs\<close>: attach,
  detach, sweep, stats, the activation of a subscription and the rehydration of persistent
  sessions at startup. An \<open>Arc<SessionState>\<close> is a number into \<open>st_heap\<close>, so that the registry
  and the connections share a session and \<open>Arc::ptr_eq\<close> is equality. The access list, the
  scope and the bus (\<open>declare\<close>: does it accept a subscriber on this key?) are arguments.
\<close>

section \<open>Definitions\<close>

record SessionRegistry =
  sessions :: "(string, nat) hashmap"
  reg_max_queue :: nat
  reg_slow_grace :: "duration option"
  reg_queue_dir :: "string option"

record store =
  st_registry :: SessionRegistry
  st_heap :: "(nat, SessionState) hashmap"
  st_next :: nat
  st_env :: env

record AttachOutcome =
  ao_session :: nat
  ao_present :: bool
  ao_epoch :: u64
  ao_backlog :: "message list"

definition SessionRegistry_new :: "nat \<Rightarrow> duration option \<Rightarrow> string option \<Rightarrow> SessionRegistry" where
  "SessionRegistry_new n grace dir =
     \<lparr>sessions = [], reg_max_queue = n, reg_slow_grace = grace, reg_queue_dir = dir\<rparr>"

text \<open>\<open>Arc::new\<close>, and a method call through an \<open>Arc\<close>.\<close>

definition alloc :: "SessionState \<Rightarrow> store \<Rightarrow> nat \<times> store" where
  "alloc s st =
     (st_next st, st\<lparr>st_heap := hm_insert (st_next st) s (st_heap st), st_next := Suc (st_next st)\<rparr>)"

definition on_session :: "nat \<Rightarrow> (SessionState \<times> env \<Rightarrow> SessionState \<times> env) \<Rightarrow> store \<Rightarrow> store" where
  "on_session r f st =
     (case hm_get (st_heap st) r of
        None \<Rightarrow> st
      | Some s \<Rightarrow> (case f (s, st_env st) of
                    (s, e) \<Rightarrow> st\<lparr>st_heap := hm_insert r s (st_heap st), st_env := e\<rparr>))"

definition register :: "string \<Rightarrow> nat \<Rightarrow> store \<Rightarrow> store" where
  "register cid r st =
     st\<lparr>st_registry := (st_registry st)\<lparr>sessions := hm_insert cid r (sessions (st_registry st))\<rparr>\<rparr>"

definition discard_paths :: "string option \<Rightarrow> string option \<Rightarrow> store \<Rightarrow> store" where
  "discard_paths qp sp st = st\<lparr>st_env := discard_file sp (discard_file qp (st_env st))\<rparr>"

definition path_exists :: "string option \<Rightarrow> store \<Rightarrow> bool" where
  "path_exists p st = (case p of None \<Rightarrow> False | Some p \<Rightarrow> fs_exists (env_fs (st_env st)) p)"

text \<open>The registry's critical section of \<open>attach\<close>: which session, and was it there.\<close>

definition attach_lookup :: "string \<Rightarrow> bool \<Rightarrow> store \<Rightarrow> nat \<times> bool \<times> store" where
  "attach_lookup cid clean st =
     (let reg = st_registry st;
          qp = queue_path (reg_queue_dir reg) cid;
          sp = subs_path (reg_queue_dir reg) cid
      in case hm_get (sessions reg) cid of
           Some r \<Rightarrow>
             if \<not> clean then (r, True, register cid r st)
             else
               (let st = on_session r kick_current st;
                    st = on_session r abort_subs st;
                    st = discard_paths qp sp st;
                    (r', st) = alloc (SessionState_new (env_fs (st_env st)) cid (reg_max_queue reg)
                                        (reg_slow_grace reg) None None) st
                in (r', False, register cid r' st))
         | None \<Rightarrow>
             (let st = (if clean then discard_paths qp sp st else st);
                  present = (\<not> clean \<and> (path_exists qp st \<or> path_exists sp st));
                  (r', st) = alloc (SessionState_new (env_fs (st_env st)) cid (reg_max_queue reg)
                                      (reg_slow_grace reg) (if clean then None else qp) (if clean then None else sp)) st
              in (r', present, register cid r' st)))"

definition attach :: "string \<Rightarrow> string \<Rightarrow> bool \<Rightarrow> nat \<Rightarrow> nat \<Rightarrow> store \<Rightarrow> AttachOutcome option \<times> store" where
  "attach cid who clean tx k st =
     (case attach_lookup cid clean st of
        (r, present, st) \<Rightarrow>
          (case hm_get (st_heap st) r of
             None \<Rightarrow> (None, st)
           | Some s \<Rightarrow>
               (case attach_conn who tx k (s, st_env st) of
                  ((ep, backlog), s, e) \<Rightarrow>
                    (Some \<lparr>ao_session = r, ao_present = present, ao_epoch = ep, ao_backlog = backlog\<rparr>,
                     st\<lparr>st_heap := hm_insert r s (st_heap st), st_env := e\<rparr>))))"

definition detach :: "instant \<Rightarrow> nat \<Rightarrow> u64 \<Rightarrow> bool \<Rightarrow> store \<Rightarrow> store" where
  "detach now r ep clean st =
     (case hm_get (st_heap st) r of
        None \<Rightarrow> st
      | Some s \<Rightarrow>
          (case detach_conn now ep s of
             (False, s) \<Rightarrow> st
           | (True, s) \<Rightarrow>
               (let st = st\<lparr>st_heap := hm_insert r s (st_heap st)\<rparr>
                in if clean then
                     (let st = on_session r abort_subs st;
                          st = st\<lparr>st_env := discard_state_files s (st_env st)\<rparr>;
                          reg = st_registry st
                      in if hm_get (sessions reg) (client_id s) = Some r
                         then st\<lparr>st_registry := reg\<lparr>sessions := hm_remove (client_id s) (sessions reg)\<rparr>\<rparr>
                         else st)
                   else st)))"

definition ref_expired :: "instant \<Rightarrow> duration \<Rightarrow> store \<Rightarrow> nat \<Rightarrow> bool" where
  "ref_expired now expiry st r =
     (case hm_get (st_heap st) r of None \<Rightarrow> False | Some s \<Rightarrow> expired now expiry s)"

definition sweep_one :: "store \<Rightarrow> nat \<Rightarrow> store" where
  "sweep_one st r =
     on_session r (\<lambda>(s, e). case abort_subs (s, e) of (s, e) \<Rightarrow> (s, discard_state_files s e)) st"

definition sweep :: "instant \<Rightarrow> duration \<Rightarrow> store \<Rightarrow> store" where
  "sweep now expiry st =
     (let reg = st_registry st;
          old = map snd (filter (\<lambda>(_, r). ref_expired now expiry st r) (sessions reg));
          kept = hm_retain (\<lambda>_ r. \<not> ref_expired now expiry st r) (sessions reg)
      in foldl sweep_one (st\<lparr>st_registry := reg\<lparr>sessions := kept\<rparr>\<rparr>) old)"

definition stats :: "store \<Rightarrow> nat \<times> nat \<times> nat \<times> u64" where
  "stats st =
     (let live = List.map_filter (\<lambda>(_, r). hm_get (st_heap st) r) (sessions (st_registry st))
      in foldl (\<lambda>(n, off, qd, dr) s.
           (n, (if sink (inner s) = None then off + 1 else off), qd + length (queue (inner s)),
            dr + dropped (inner s)))
         (length (sessions (st_registry st)), 0, 0, 0) live)"

subsection \<open>Subscriptions and startup\<close>

datatype ActivateError = InvalidFilter TopicError | SubscriberFailed

definition activate_subscription ::
    "string \<Rightarrow> (string \<Rightarrow> bool) \<Rightarrow> nat \<Rightarrow> string \<Rightarrow> QoS \<Rightarrow> store \<Rightarrow> (ActivateError, unit) result \<times> store" where
  "activate_subscription scope decl r f granted st =
     (case filter_to_keyexpr f scope of
        Inl e \<Rightarrow> (Inl (InvalidFilter e), st)
      | Inr ke \<Rightarrow>
          if \<not> decl ke then (Inl SubscriberFailed, st)
          else (Inr (), on_session r (insert_sub f granted (st_next st)) (st\<lparr>st_next := Suc (st_next st)\<rparr>)))"

text \<open>The body of the task spawned there, for one sample: what it delivered, if anything.\<close>

definition forward_sample ::
    "string \<Rightarrow> QoS \<Rightarrow> string \<Rightarrow> bytes \<Rightarrow> instant \<Rightarrow> SendOutcome \<Rightarrow> SessionState \<times> env
       \<Rightarrow> (Delivery option \<times> SessionState \<times> env) option" where
  "forward_sample scope granted ke payload now outcome se =
     (case keyexpr_to_topic ke scope of
        None \<Rightarrow> Some (None, se)
      | Some t \<Rightarrow>
          (case deliver t payload granted now outcome se of
             None \<Rightarrow> None
           | Some (d, s, e) \<Rightarrow>
               Some (Some d, s,
                 (case d of
                    Sent \<Rightarrow> e\<lparr>env_metrics := bump messages_out_total_update (env_metrics e)\<rparr>
                  | Queued \<Rightarrow> e\<lparr>env_metrics := bump messages_queued_total_update (env_metrics e)\<rparr>
                  | Dropped \<Rightarrow> e))))"

definition rehydrate_filter ::
    "Acl \<Rightarrow> string \<Rightarrow> (string \<Rightarrow> bool) \<Rightarrow> string \<Rightarrow> nat \<Rightarrow> store \<Rightarrow> string \<times> QoS \<Rightarrow> store" where
  "rehydrate_filter acl scope decl who r st fq =
     (case fq of (f, q) \<Rightarrow>
        if \<not> may_subscribe acl who f then st
        else snd (activate_subscription scope decl r f q st))"

definition rehydrate_one ::
    "qos_parser \<Rightarrow> Acl \<Rightarrow> string \<Rightarrow> (string \<Rightarrow> bool) \<Rightarrow> string \<Rightarrow> store \<Rightarrow> (CodecError, string) result \<times> store" where
  "rehydrate_one qos acl scope decl path st =
     (case load_subs qos (env_fs (st_env st)) path of
        Inl e \<Rightarrow> (Inl e, st)
      | Inr (cid, who, filters) \<Rightarrow>
          (let reg = st_registry st;
               s = SessionState_new (env_fs (st_env st)) cid (reg_max_queue reg) (reg_slow_grace reg)
                     (queue_path (reg_queue_dir reg) cid) (Some path);
               (r, st) = alloc (s\<lparr>inner := (inner s)\<lparr>identity := who\<rparr>\<rparr>) st;
               st = foldl (rehydrate_filter acl scope decl who r) st filters;
               st = on_session r (\<lambda>(s, e). (s, persist_subs s e)) st
           in (Inr cid, register cid r st)))"

definition fs_read_dir :: "string \<Rightarrow> fs \<Rightarrow> string list" where
  "fs_read_dir dir fs = filter (\<lambda>p. p = path_join dir (path_file p)) (map fst (fs_files fs))"

definition rehydrate_path ::
    "qos_parser \<Rightarrow> Acl \<Rightarrow> string \<Rightarrow> (string \<Rightarrow> bool) \<Rightarrow> nat \<times> store \<Rightarrow> string \<Rightarrow> nat \<times> store" where
  "rehydrate_path qos acl scope decl = (\<lambda>(n, st) path.
     if path_extension path \<noteq> Some ''subs'' then (n, st)
     else (case rehydrate_one qos acl scope decl path st of
             (Inr _, st) \<Rightarrow> (n + 1, st)
           | (Inl _, st) \<Rightarrow> (n, st)))"

definition rehydrate ::
    "qos_parser \<Rightarrow> Acl \<Rightarrow> string \<Rightarrow> (string \<Rightarrow> bool) \<Rightarrow> store \<Rightarrow> (CodecError, nat) result \<times> store" where
  "rehydrate qos acl scope decl st =
     (case reg_queue_dir (st_registry st) of
        None \<Rightarrow> (Inr 0, st)
      | Some dir \<Rightarrow>
          if fs_io_fault (env_fs (st_env st)) dir then (Inl IoError, st)
          else
            (case foldl (rehydrate_path qos acl scope decl) (0, st) (fs_read_dir dir (env_fs (st_env st))) of
               (n, st) \<Rightarrow> (Inr n, st)))"

section \<open>The registry's invariant\<close>

text \<open>Every registered client id leads to a live session of that client; references are allocated
  before they are used; every session satisfies its own invariant.\<close>

definition store_wf :: "store \<Rightarrow> bool" where
  "store_wf st \<longleftrightarrow>
     hm_wf (sessions (st_registry st)) \<and> hm_wf (st_heap st)
   \<and> (\<forall>r s. hm_get (st_heap st) r = Some s \<longrightarrow> r < st_next st \<and> session_inv s)
   \<and> (\<forall>cid r. hm_get (sessions (st_registry st)) cid = Some r \<longrightarrow>
        (\<exists>s. hm_get (st_heap st) r = Some s \<and> client_id s = cid))"

text \<open>A method as the store sees it: it keeps the session's invariant and its client id.\<close>

definition safe_method :: "(SessionState \<times> env \<Rightarrow> SessionState \<times> env) \<Rightarrow> bool" where
  "safe_method f \<longleftrightarrow>
     (\<forall>s e s' e'. session_inv s \<longrightarrow> f (s, e) = (s', e') \<longrightarrow> session_inv s' \<and> client_id s' = client_id s)"

lemma safe_methods:
  "safe_method kick_current" "safe_method abort_subs" "safe_method (insert_sub f q task)"
  "safe_method (remove_sub f)" "safe_method (\<lambda>(s, e). (s, persist_subs s e))"
  "safe_method (\<lambda>(s, e). case abort_subs (s, e) of (s, e) \<Rightarrow> (s, discard_state_files s e))"
proof -
  show "safe_method kick_current"
    using kick_inv books_methods(4) by (auto simp: safe_method_def same_config_def)
  show "safe_method abort_subs"
    using subs_inv(3) books_methods(8) by (auto simp: safe_method_def same_config_def)
  show "safe_method (insert_sub f q task)"
    using subs_inv(1) books_methods(6) by (auto simp: safe_method_def same_config_def)
  show "safe_method (remove_sub f)"
    using subs_inv(2) books_methods(7) by (auto simp: safe_method_def same_config_def)
  show "safe_method (\<lambda>(s, e). (s, persist_subs s e))"
    by (simp add: safe_method_def)
  show "safe_method (\<lambda>(s, e). case abort_subs (s, e) of (s, e) \<Rightarrow> (s, discard_state_files s e))"
    using subs_inv(3) books_methods(8) by (auto simp: safe_method_def same_config_def split: prod.splits)
qed

lemma store_wfI:
  assumes "hm_wf (sessions (st_registry st))" and "hm_wf (st_heap st)"
    and "\<And>r s. hm_get (st_heap st) r = Some s \<Longrightarrow> r < st_next st \<and> session_inv s"
    and "\<And>cid r. hm_get (sessions (st_registry st)) cid = Some r \<Longrightarrow>
        \<exists>s. hm_get (st_heap st) r = Some s \<and> client_id s = cid"
  shows "store_wf st"
  using assms unfolding store_wf_def by blast

lemma store_wf_maps: "store_wf st \<Longrightarrow> hm_wf (sessions (st_registry st)) \<and> hm_wf (st_heap st)"
  unfolding store_wf_def by blast

lemma store_wf_ref:
  "store_wf st \<Longrightarrow> hm_get (sessions (st_registry st)) cid = Some r \<Longrightarrow>
     \<exists>s. hm_get (st_heap st) r = Some s \<and> client_id s = cid"
  unfolding store_wf_def by blast

lemma store_wf_session: "store_wf st \<Longrightarrow> hm_get (st_heap st) r = Some s \<Longrightarrow> session_inv s \<and> r < st_next st"
  unfolding store_wf_def by blast

lemma store_wf_env [simp]: "store_wf (st\<lparr>st_env := e\<rparr>) = store_wf st"
  by (simp add: store_wf_def)

lemma store_wf_update:
  assumes "store_wf st" and "hm_get (st_heap st) r = Some s" and "session_inv s'" and "client_id s' = client_id s"
  shows "store_wf (st\<lparr>st_heap := hm_insert r s' (st_heap st)\<rparr>)"
  using assms store_wf_ref [OF assms(1)] store_wf_session [OF assms(1)]
  by (fastforce simp: store_wf_def [of "st\<lparr>st_heap := _\<rparr>"] store_wf_def [of st])

lemma store_wf_on_session:
  assumes "store_wf st" and "safe_method f"
  shows "store_wf (on_session r f st)"
proof (cases "hm_get (st_heap st) r")
  case (Some s)
  obtain s' e' where f: "f (s, st_env st) = (s', e')" by fastforce
  have "session_inv s" using assms(1) Some by (auto simp: store_wf_def)
  with assms(2) f have "session_inv s' \<and> client_id s' = client_id s" unfolding safe_method_def by blast
  with store_wf_update [OF assms(1) Some] have "store_wf (st\<lparr>st_heap := hm_insert r s' (st_heap st)\<rparr>)" by blast
  then show ?thesis by (simp add: on_session_def Some f store_wf_def)
qed (simp add: on_session_def assms(1))

lemma on_session_registry [simp]:
  "st_registry (on_session r f st) = st_registry st" "st_next (on_session r f st) = st_next st"
  by (auto simp: on_session_def split: option.split prod.split)

lemma store_wf_discard [simp]: "store_wf (discard_paths qp sp st) = store_wf st"
  by (simp add: discard_paths_def)

lemma store_wf_alloc:
  assumes "store_wf st" and "session_inv s" and "alloc s st = (r, st')"
  shows "store_wf st'" and "hm_get (st_heap st') r = Some s" and "st_registry st' = st_registry st"
    and "st_env st' = st_env st" and "hm_get (st_heap st) r = None"
proof -
  have "hm_get (st_heap st) (st_next st) = None"
    using assms(1) by (cases "hm_get (st_heap st) (st_next st)") (auto simp: store_wf_def)
  then show "hm_get (st_heap st) r = None" using assms(3) by (simp add: alloc_def)
  show "hm_get (st_heap st') r = Some s" "st_registry st' = st_registry st" "st_env st' = st_env st"
    using assms by (auto simp: alloc_def store_wf_def)
  have "hm_get (sessions (st_registry st)) c = Some x \<Longrightarrow> x \<noteq> st_next st" for c x
    using store_wf_ref [OF assms(1)] store_wf_session [OF assms(1)] by fastforce
  then show "store_wf st'"
    using assms(2,3) store_wf_maps [OF assms(1)] store_wf_ref [OF assms(1)] store_wf_session [OF assms(1)]
    by (intro store_wfI) (auto simp: alloc_def less_Suc_eq split: if_splits)
qed

lemma store_wf_register:
  assumes "store_wf st" and "hm_get (st_heap st) r = Some s" and "client_id s = cid"
  shows "store_wf (register cid r st)"
  using assms by (auto simp: store_wf_def register_def)

lemma register_heap [simp]: "st_heap (register cid r st) = st_heap st" "st_env (register cid r st) = st_env st"
  by (simp_all add: register_def)

lemma session_new_id [simp]: "client_id (SessionState_new fs c n g qp sp) = c"
  by (simp add: SessionState_new_def Let_def)

lemma attach_lookup_new:
  assumes "store_wf st" and "session_inv s" and "client_id s = cid" and "alloc s st = (r, st')"
  shows "store_wf (register cid r st')" and "hm_get (st_heap (register cid r st')) r = Some s"
  using store_wf_alloc [OF assms(1,2,4)] store_wf_register assms(3) by auto

lemma attach_lookup_wf:
  assumes "store_wf st" and "attach_lookup cid clean st = (r, present, st')"
  shows "store_wf st' \<and> (\<exists>s. hm_get (st_heap st') r = Some s \<and> client_id s = cid)"
proof (cases "hm_get (sessions (st_registry st)) cid")
  case None
  let ?st = "if clean then discard_paths (queue_path (reg_queue_dir (st_registry st)) cid)
      (subs_path (reg_queue_dir (st_registry st)) cid) st else st"
  have "store_wf ?st" using assms(1) by simp
  from attach_lookup_new [OF this session_new_inv session_new_id] None assms(2) show ?thesis
    by (fastforce simp: attach_lookup_def Let_def split: prod.splits)
next
  case (Some r0)
  then obtain s0 where s0: "hm_get (st_heap st) r0 = Some s0" "client_id s0 = cid"
    using store_wf_ref [OF assms(1)] by blast
  show ?thesis
  proof (cases clean)
    case False
    with assms Some s0 store_wf_register [OF assms(1) s0] show ?thesis by (auto simp: attach_lookup_def Let_def)
  next
    case True
    have "store_wf (discard_paths (queue_path (reg_queue_dir (st_registry st)) cid)
        (subs_path (reg_queue_dir (st_registry st)) cid) (on_session r0 abort_subs (on_session r0 kick_current st)))"
      using assms(1) by (simp add: store_wf_on_session safe_methods)
    from attach_lookup_new [OF this session_new_inv session_new_id] True Some assms(2) show ?thesis
      by (fastforce simp: attach_lookup_def Let_def split: prod.splits)
  qed
qed

lemma attach_conn_inv:
  assumes "session_inv s" and "attach_conn who tx k (s, e) = (r, s', e')"
  shows "session_inv s' \<and> client_id s' = client_id s"
proof -
  obtain ep backlog s1 e1 where a: "attach_locked who tx k (s, e) = ((ep, backlog), s1, e1)"
    by (metis prod_cases3 surj_pair)
  with assms(2) have "s' = s1" by (simp add: attach_conn_def)
  with attach_inv [OF assms(1) a] attach_books [OF a] show ?thesis by (simp add: same_config_def)
qed

lemma attach_wf:
  assumes "store_wf st" and "attach cid who clean tx k st = (out, st')"
  shows "store_wf st' \<and> (\<exists>ao. out = Some ao)"
proof -
  obtain r present st1 where l: "attach_lookup cid clean st = (r, present, st1)" by (metis prod_cases3)
  with attach_lookup_wf [OF assms(1) l] obtain s where
    wf: "store_wf st1" and s: "hm_get (st_heap st1) r = Some s" by blast
  obtain ep backlog s' e' where a: "attach_conn who tx k (s, st_env st1) = ((ep, backlog), s', e')"
    by (metis prod_cases3 surj_pair)
  have "session_inv s' \<and> client_id s' = client_id s"
    using attach_conn_inv [OF _ a] store_wf_session [OF wf s] by blast
  with store_wf_update [OF wf s] have "store_wf (st1\<lparr>st_heap := hm_insert r s' (st_heap st1)\<rparr>)" by blast
  with assms(2) show ?thesis
    by (auto simp: attach_def l s a store_wf_def)
qed

lemma store_wf_forget:
  assumes "store_wf st" and "hm_wf m" and "\<And>cid r. hm_get m cid = Some r \<Longrightarrow> hm_get (sessions (st_registry st)) cid = Some r"
  shows "store_wf (st\<lparr>st_registry := (st_registry st)\<lparr>sessions := m\<rparr>\<rparr>)"
  using assms store_wf_maps [OF assms(1)] store_wf_ref [OF assms(1)] store_wf_session [OF assms(1)]
  by (intro store_wfI) auto

lemma detach_wf:
  assumes "store_wf st"
  shows "store_wf (detach now r ep clean st)"
proof (cases "hm_get (st_heap st) r")
  case (Some s)
  obtain b s' where d: "detach_conn now ep s = (b, s')" by fastforce
  have s': "session_inv s'" "client_id s' = client_id s"
    using detach_inv [OF _ d] books_methods(3) [OF d] store_wf_session [OF assms Some] by (auto simp: same_config_def)
  let ?st = "st\<lparr>st_heap := hm_insert r s' (st_heap st)\<rparr>"
  have wf: "store_wf ?st" using store_wf_update [OF assms Some s'] .
  let ?st2 = "(on_session r abort_subs ?st)\<lparr>st_env := discard_state_files s' (st_env (on_session r abort_subs ?st))\<rparr>"
  have wf2: "store_wf ?st2" using store_wf_on_session [OF wf safe_methods(2)] by simp
  have "store_wf (?st2\<lparr>st_registry := (st_registry ?st2)\<lparr>sessions := hm_remove (client_id s') (sessions (st_registry ?st2))\<rparr>\<rparr>)"
    using store_wf_maps [OF assms] by (intro store_wf_forget [OF wf2]) (auto split: if_splits)
  with wf wf2 assms show ?thesis
    by (cases b) (simp_all add: detach_def Some d Let_def)
qed (simp add: detach_def assms)

lemma sweep_one_wf: "store_wf st \<Longrightarrow> store_wf (sweep_one st r)"
  unfolding sweep_one_def by (rule store_wf_on_session [OF _ safe_methods(6)])

lemma sweep_wf: "store_wf st \<Longrightarrow> store_wf (sweep now expiry st)"
proof -
  assume wf: "store_wf st"
  have fold: "store_wf st' \<Longrightarrow> store_wf (foldl sweep_one st' rs)" for st' rs
    by (induction rs arbitrary: st') (auto simp: sweep_one_wf)
  have "store_wf (st\<lparr>st_registry := (st_registry st)\<lparr>sessions :=
      hm_retain (\<lambda>_ r. \<not> ref_expired now expiry st r) (sessions (st_registry st))\<rparr>\<rparr>)"
    using store_wf_maps [OF wf]
    by (intro store_wf_forget [OF wf]) (auto simp: hm_get_retain split: option.splits if_splits)
  then show ?thesis by (simp add: sweep_def Let_def fold)
qed

lemma store_wf_bump: "store_wf st \<Longrightarrow> store_wf (st\<lparr>st_next := Suc (st_next st)\<rparr>)"
  by (simp add: store_wf_def less_Suc_eq)

lemma activate_wf: "store_wf st \<Longrightarrow> store_wf (snd (activate_subscription scope decl r f q st))"
  by (auto simp: activate_subscription_def store_wf_bump store_wf_on_session safe_methods split: sum.split)

lemma rehydrate_filters_wf: "store_wf st \<Longrightarrow> store_wf (foldl (rehydrate_filter acl scope decl who r) st fs)"
  by (induction fs arbitrary: st) (auto simp: rehydrate_filter_def activate_wf)

section \<open>What rehydration restores\<close>

lemma on_session_get:
  assumes "hm_wf (st_heap st)" and "hm_get (st_heap st) r = Some s"
  shows "hm_get (st_heap (on_session r f st)) r = Some (fst (f (s, st_env st)))"
  using assms by (simp add: on_session_def split: prod.split)

text \<open>A persisted filter is restored if the current access list permits it to the identity, it still
  translates, and the bus takes the subscriber.\<close>

definition restorable :: "Acl \<Rightarrow> string \<Rightarrow> (string \<Rightarrow> bool) \<Rightarrow> string \<Rightarrow> string \<Rightarrow> bool" where
  "restorable acl scope decl who f \<longleftrightarrow>
     may_subscribe acl who f
     \<and> (case filter_to_keyexpr f scope of Inl _ \<Rightarrow> False | Inr ke \<Rightarrow> decl ke)"

text \<open>A session being rehydrated: only its subscriptions have changed.\<close>

definition sub_levels :: "SessionState \<Rightarrow> string \<Rightarrow> QoS option" where
  "sub_levels s f = map_option sub_qos (hm_get (subs (inner s)) f)"

definition only_subs_differ :: "SessionState \<Rightarrow> SessionState \<Rightarrow> bool" where
  "only_subs_differ s s' \<longleftrightarrow> (\<exists>m. s' = s\<lparr>inner := (inner s)\<lparr>subs := m\<rparr>\<rparr>)"

lemma only_subs_refl [simp]: "only_subs_differ s s"
proof -
  have "s = s\<lparr>inner := (inner s)\<lparr>subs := subs (inner s)\<rparr>\<rparr>" by simp
  then show ?thesis unfolding only_subs_differ_def by blast
qed

lemma only_subs_trans: "only_subs_differ s s' \<Longrightarrow> only_subs_differ s' s'' \<Longrightarrow> only_subs_differ s s''"
  by (auto simp: only_subs_differ_def)

lemma insert_sub_levels:
  assumes "session_inv s"
  shows "only_subs_differ s (fst (insert_sub f q task (s, e)))"
    and "sub_levels (fst (insert_sub f q task (s, e))) = (sub_levels s)(f \<mapsto> q)"
  using assms by (auto simp: only_subs_differ_def sub_levels_def insert_sub_def Let_def session_inv_def fun_eq_iff)

lemma rehydrate_filter_effect:
  assumes "store_wf st" and "hm_get (st_heap st) r = Some s"
  shows "\<exists>s'. hm_get (st_heap (rehydrate_filter acl scope decl who r st (f, q))) r = Some s'
    \<and> only_subs_differ s s'
    \<and> sub_levels s' = (if restorable acl scope decl who f then (sub_levels s)(f \<mapsto> q) else sub_levels s)"
proof (cases "restorable acl scope decl who f")
  case True
  let ?st = "st\<lparr>st_next := Suc (st_next st)\<rparr>"
  have wf: "hm_wf (st_heap ?st)" "hm_get (st_heap ?st) r = Some s" using assms store_wf_maps by auto
  have "rehydrate_filter acl scope decl who r st (f, q) = on_session r (insert_sub f q (st_next st)) ?st"
    using True by (auto simp: restorable_def rehydrate_filter_def activate_subscription_def split: sum.splits)
  with on_session_get [OF wf, of "insert_sub f q (st_next st)"] insert_sub_levels [of s f q "st_next st"]
    store_wf_session [OF assms] True show ?thesis by auto
next
  case False
  then have "rehydrate_filter acl scope decl who r st (f, q) = st"
    by (auto simp: restorable_def rehydrate_filter_def activate_subscription_def split: sum.splits)
  with False assms(2) show ?thesis by simp
qed

lemma rehydrate_filters_effect:
  assumes "store_wf st" and "hm_get (st_heap st) r = Some s"
  shows "\<exists>s'. hm_get (st_heap (foldl (rehydrate_filter acl scope decl who r) st fs)) r = Some s'
    \<and> only_subs_differ s s'
    \<and> (\<forall>f. sub_levels s' f =
         (case map_of (rev (filter (\<lambda>(f, _). restorable acl scope decl who f) fs)) f of
            Some q \<Rightarrow> Some q | None \<Rightarrow> sub_levels s f))"
  using assms
proof (induction fs arbitrary: st s)
  case (Cons x fs)
  obtain f q where x: "x = (f, q)" by (cases x)
  from rehydrate_filter_effect [OF Cons.prems, of acl scope decl who f q]
  obtain s1 where s1: "hm_get (st_heap (rehydrate_filter acl scope decl who r st (f, q))) r = Some s1"
    "only_subs_differ s s1"
    "sub_levels s1 = (if restorable acl scope decl who f then (sub_levels s)(f \<mapsto> q) else sub_levels s)" by blast
  have "store_wf (rehydrate_filter acl scope decl who r st (f, q))"
    using Cons.prems(1) by (simp add: rehydrate_filter_def activate_wf)
  from Cons.IH [OF this s1(1)] obtain s2 where s2:
    "hm_get (st_heap (foldl (rehydrate_filter acl scope decl who r) st (x # fs))) r = Some s2"
    "only_subs_differ s1 s2"
    "\<forall>f. sub_levels s2 f = (case map_of (rev (filter (\<lambda>(f, _). restorable acl scope decl who f) fs)) f of
            Some q \<Rightarrow> Some q | None \<Rightarrow> sub_levels s1 f)" by (auto simp: x)
  have "only_subs_differ s s2" using only_subs_trans s1(2) s2(2) by blast
  with s2(1,3) show ?case by (auto simp: s1(3) x map_add_def split: option.split)
qed simp

lemma opt_else: "(case x of None \<Rightarrow> None | Some y \<Rightarrow> Some y) = x"
  by (cases x) simp_all

lemma rehydrate_one_effect:
  assumes "store_wf st" and "load_subs qos (env_fs (st_env st)) path = Inr (cid, who, filters)"
    and "rehydrate_one qos acl scope decl path st = (out, st')"
  shows "out = Inr cid \<and> store_wf st'
    \<and> (\<exists>r s. hm_get (sessions (st_registry st')) cid = Some r \<and> hm_get (st_heap st') r = Some s
      \<and> only_subs_differ ((SessionState_new (env_fs (st_env st)) cid (reg_max_queue (st_registry st))
            (reg_slow_grace (st_registry st)) (queue_path (reg_queue_dir (st_registry st)) cid) (Some path))
          \<lparr>inner := (inner (SessionState_new (env_fs (st_env st)) cid (reg_max_queue (st_registry st))
            (reg_slow_grace (st_registry st)) (queue_path (reg_queue_dir (st_registry st)) cid) (Some path)))
          \<lparr>identity := who\<rparr>\<rparr>) s
      \<and> (\<forall>f. sub_levels s f = map_of (rev (filter (\<lambda>(f, _). restorable acl scope decl who f) filters)) f))"
proof -
  let ?reg = "st_registry st"
  let ?n = "SessionState_new (env_fs (st_env st)) cid (reg_max_queue ?reg) (reg_slow_grace ?reg)
      (queue_path (reg_queue_dir ?reg) cid) (Some path)"
  let ?s = "?n\<lparr>inner := (inner ?n)\<lparr>identity := who\<rparr>\<rparr>"
  obtain r st1 where al: "alloc ?s st = (r, st1)" by fastforce
  have inv: "session_inv ?s" using session_new_inv [of "env_fs (st_env st)" cid] by (simp add: session_inv_def)
  note 1 = store_wf_alloc [OF assms(1) inv al]
  let ?st2 = "foldl (rehydrate_filter acl scope decl who r) st1 filters"
  have wf2: "store_wf ?st2" using 1(1) by (rule rehydrate_filters_wf)
  have "sub_levels ?s f = None" for f by (simp add: sub_levels_def SessionState_new_def Let_def)
  with rehydrate_filters_effect [OF 1(1,2), of acl scope decl who filters]
  obtain s where s: "hm_get (st_heap ?st2) r = Some s" "only_subs_differ ?s s"
    "\<forall>f. sub_levels s f = map_of (rev (filter (\<lambda>(f, _). restorable acl scope decl who f) filters)) f"
    by (simp only: opt_else) blast
  let ?st3 = "on_session r (\<lambda>(s, e). (s, persist_subs s e)) ?st2"
  have wf3: "store_wf ?st3" using wf2 by (simp add: store_wf_on_session safe_methods)
  have s3: "hm_get (st_heap ?st3) r = Some s"
    using on_session_get [OF _ s(1)] store_wf_maps [OF wf2] by fastforce
  have id: "client_id s = cid" using s(2) by (auto simp: only_subs_differ_def)
  have eq: "out = Inr cid" "st' = register cid r ?st3"
    using assms(3) al by (simp_all add: rehydrate_one_def assms(2) Let_def)
  have "hm_get (sessions (st_registry st')) cid = Some r"
    using store_wf_maps [OF wf3] by (simp add: eq register_def)
  moreover have "store_wf st'" using store_wf_register [OF wf3 s3 id] by (simp add: eq)
  moreover have "hm_get (st_heap st') r = Some s" using s3 by (simp add: eq)
  ultimately show ?thesis using eq(1) s(2,3) by blast
qed

section \<open>Runs of a node's registry\<close>

text \<open>The section \<open>AtQueue\<close> of a delivery is entered only with a positive queue bound (invariant of
  \<open>Session\<close>), which is the side condition of \<open>delivery\<close>.\<close>

inductive registry_step :: "store \<Rightarrow> store \<Rightarrow> bool" where
  connect: "attach cid who clean tx k st = (out, st') \<Longrightarrow> registry_step st st'"
| disconnect: "registry_step st (detach now r ep clean st)"
| sweeping: "registry_step st (sweep now expiry st)"
| subscribe: "registry_step st (snd (activate_subscription scope decl r f q st))"
| unsubscribe: "registry_step st (on_session r (remove_sub f) st)"
| delivery: "hm_get (st_heap st) r = Some s \<Longrightarrow> pc \<noteq> AtQueue \<or> 0 < max_queue s \<Longrightarrow>
    deliver_step t p q now outcome (pc, s, st_env st) = (pc', s', e') \<Longrightarrow>
    registry_step st (st\<lparr>st_heap := hm_insert r s' (st_heap st), st_env := e'\<rparr>)"
| restore: "rehydrate_one qos acl scope decl path st = (out, st') \<Longrightarrow> registry_step st st'"

lemma registry_step_wf: "registry_step st st' \<Longrightarrow> store_wf st \<Longrightarrow> store_wf st'"
proof (induction rule: registry_step.induct)
  case (delivery st r s pc t p q now outcome pc' s' e')
  have "session_inv s'" using deliver_step_inv [OF _ delivery(3)] delivery(2) store_wf_session [OF delivery(4,1)] by blast
  moreover have "client_id s' = client_id s" using deliver_step_books [OF delivery(3)] by (simp add: same_config_def)
  ultimately have "store_wf (st\<lparr>st_heap := hm_insert r s' (st_heap st)\<rparr>)"
    by (rule store_wf_update [OF delivery(4,1)])
  then show ?case by (simp add: store_wf_def)
next
  case (restore qos acl scope decl path st out st')
  then show ?case
    using rehydrate_one_effect [OF restore(2) _ restore(1)]
    by (cases "load_subs qos (env_fs (st_env st)) path") (auto simp: rehydrate_one_def)
qed (auto dest: attach_wf simp: detach_wf sweep_wf activate_wf store_wf_on_session safe_methods)

definition store_init :: "nat \<Rightarrow> duration option \<Rightarrow> string option \<Rightarrow> env \<Rightarrow> store" where
  "store_init n grace dir e =
     \<lparr>st_registry = SessionRegistry_new n grace dir, st_heap = [], st_next = 0, st_env = e\<rparr>"

lemma store_init_wf: "store_wf (store_init n g d e)"
  by (simp add: store_init_def SessionRegistry_new_def store_wf_def)

interpretation registry_runs: transition_system "\<lambda>st. \<exists>n g d e. st = store_init n g d e" registry_step store_wf
  by unfold_locales (auto intro: store_init_wf registry_step_wf)

section \<open>Properties\<close>

text \<open>(C9) From an empty registry, after any sequence of connects, disconnects, sweeps,
  subscription changes, delivery sections and restores: every registered client id leads to
  a session of that very client which satisfies the session invariant, and every connect is
  given a session.\<close>

theorem registry_safe:
  assumes "registry_step\<^sup>*\<^sup>* (store_init n g d e) st"
  shows "(\<forall>cid r. hm_get (sessions (st_registry st)) cid = Some r \<longrightarrow>
      (\<exists>s. hm_get (st_heap st) r = Some s \<and> client_id s = cid \<and> session_inv s))
    \<and> fst (attach c who clean tx k st) \<noteq> None"
proof -
  have wf: "store_wf st" using registry_runs.inv_reachable [OF _ assms] by blast
  obtain out st' where at: "attach c who clean tx k st = (out, st')" by fastforce
  from attach_wf [OF wf at] at store_wf_ref [OF wf] store_wf_session [OF wf] show ?thesis by fastforce
qed

definition demo_store0 :: store where
  "demo_store0 = store_init 2 None (Some ''d'') demo_env"

definition demo_store1 :: store where
  "demo_store1 = snd (attach ''dev1'' ''bob'' True 7 8 demo_store0)"

lemma demo_store1_eq:
  "hm_get (sessions (st_registry demo_store1)) ''dev1'' = Some 0"
  "st_heap demo_store1 = [(0, (SessionState_new (env_fs demo_env) ''dev1'' 2 None None None)
     \<lparr>inner := \<lparr>epoch = 1, sink = Some 7, kick = Some 8, kick_reason = None, identity = ''bob'', subs = [],
        queue = [], dropped = 0, offline_since = None\<rparr>\<rparr>)]"
  by (simp_all add: demo_store1_def demo_store0_def store_init_def attach_def attach_lookup_def alloc_def
      register_def Let_def SessionRegistry_new_def attach_conn_def attach_locked_def discard_queue_file_def
      SessionState_new_def hm_insert_def discard_paths_def discard_file_def)

lemma demo_store1_reach: "registry_step\<^sup>*\<^sup>* (store_init 2 None (Some ''d'') demo_env) demo_store1"
proof -
  have "attach ''dev1'' ''bob'' True 7 8 (store_init 2 None (Some ''d'') demo_env) =
      (fst (attach ''dev1'' ''bob'' True 7 8 demo_store0), demo_store1)"
    by (simp add: demo_store1_def demo_store0_def)
  from registry_step.connect [OF this] show ?thesis by (rule r_into_rtranclp)
qed

theorem registry_safe_witness:
  "(\<exists>s. hm_get (st_heap demo_store1) 0 = Some s \<and> client_id s = ''dev1'' \<and> session_inv s)
   \<and> fst (attach ''dev2'' ''eve'' False 9 10 demo_store1) \<noteq> None"
  using registry_safe [OF demo_store1_reach, of "''dev2''" "''eve''" False 9 10] demo_store1_eq(1) by blast

lemma discard_file_get:
  assumes "fs_wf (env_fs e)" and "\<forall>p. \<not> fs_io_fault (env_fs e) p"
  shows "fs_wf (env_fs (discard_file path e))" and "fs_io_fault (env_fs (discard_file path e)) = fs_io_fault (env_fs e)"
    and "fs_get (env_fs (discard_file path e)) p = (if path = Some p then None else fs_get (env_fs e) p)"
  using assms by (auto simp: discard_file_def remove_state_file_def split: option.split)

lemma quiet_methods:
  "env_fs (st_env (on_session r kick_current st)) = env_fs (st_env st)"
  "env_fs (st_env (on_session r abort_subs st)) = env_fs (st_env st)"
proof -
  have "env_fs (foldl (\<lambda>e (_, entry). abort_task (sub_task entry) e) e m) = env_fs e"
    for e and m :: "(string, SubEntry) hashmap"
    by (induction m arbitrary: e) (auto simp: abort_task_def)
  then show "env_fs (st_env (on_session r abort_subs st)) = env_fs (st_env st)"
    by (simp add: on_session_def abort_subs_def split: option.split)
  show "env_fs (st_env (on_session r kick_current st)) = env_fs (st_env st)"
    by (simp add: on_session_def kick_current_def notify_def split: option.split prod.split)
qed

text \<open>The store after the old state of a client was thrown away.\<close>

definition cleared :: "string \<Rightarrow> store \<Rightarrow> store" where
  "cleared cid st =
     discard_paths (queue_path (reg_queue_dir (st_registry st)) cid) (subs_path (reg_queue_dir (st_registry st)) cid)
       (case hm_get (sessions (st_registry st)) cid of
          Some r \<Rightarrow> on_session r abort_subs (on_session r kick_current st) | None \<Rightarrow> st)"

lemma cleared_facts:
  "st_registry (cleared cid st) = st_registry st"
  "store_wf st \<Longrightarrow> store_wf (cleared cid st)"
  "fs_wf (env_fs (st_env st)) \<Longrightarrow> \<forall>p. \<not> fs_io_fault (env_fs (st_env st)) p \<Longrightarrow>
     queue_path (reg_queue_dir (st_registry st)) cid = Some p \<or> subs_path (reg_queue_dir (st_registry st)) cid = Some p \<Longrightarrow>
     fs_get (env_fs (st_env (cleared cid st))) p = None"
  by (auto simp: cleared_def discard_paths_def store_wf_on_session safe_methods discard_file_get quiet_methods
      split: option.split)

lemma attach_clean:
  "attach_lookup cid True st =
     (let st' = cleared cid st; reg = st_registry st;
          (r, st'') = alloc (SessionState_new (env_fs (st_env st')) cid (reg_max_queue reg) (reg_slow_grace reg) None None) st'
      in (r, False, register cid r st''))"
  by (simp add: attach_lookup_def cleared_def Let_def split: option.split prod.split)

text \<open>A new connection on a session that has nothing stored.\<close>

lemma attach_conn_new:
  "attach_conn who tx k (SessionState_new fs cid n g None None, e) =
     ((1, []), (SessionState_new fs cid n g None None)\<lparr>inner :=
        \<lparr>epoch = 1, sink = Some tx, kick = Some k, kick_reason = None, identity = who, subs = [], queue = [],
         dropped = 0, offline_since = None\<rparr>\<rparr>, e)"
  by (simp add: attach_conn_def attach_locked_def SessionState_new_def Let_def discard_queue_file_def discard_file_def)

text \<open>(C27) A clean connect starts from nothing: whatever was stored for the client id, in memory or
  on disk, the session it gets reports no stored state, has an empty backlog and no
  subscriptions, is not persisted, and the client's queue and subscription files are gone.\<close>

theorem clean_connect_fresh:
  assumes "store_wf st" and "fs_wf (env_fs (st_env st))" and "\<forall>p. \<not> fs_io_fault (env_fs (st_env st)) p"
  shows "\<exists>ao st' s. attach cid who True tx k st = (Some ao, st') \<and> \<not> ao_present ao \<and> ao_backlog ao = []
    \<and> hm_get (sessions (st_registry st')) cid = Some (ao_session ao)
    \<and> hm_get (st_heap st') (ao_session ao) = Some s \<and> subs (inner s) = [] \<and> sink (inner s) = Some tx
    \<and> q_path s = None \<and> s_path s = None
    \<and> (\<forall>p. queue_path (reg_queue_dir (st_registry st)) cid = Some p \<or> subs_path (reg_queue_dir (st_registry st)) cid = Some p
         \<longrightarrow> fs_get (env_fs (st_env st')) p = None)"
proof -
  let ?c = "cleared cid st" and ?reg = "st_registry st"
  let ?s = "SessionState_new (env_fs (st_env ?c)) cid (reg_max_queue ?reg) (reg_slow_grace ?reg) None None"
  obtain r st1 where al: "alloc ?s ?c = (r, st1)" by fastforce
  note 1 = store_wf_alloc [OF cleared_facts(2) [OF assms(1)] session_new_inv al]
  have wf: "hm_wf (sessions (st_registry st1))" "hm_wf (st_heap st1)" using store_wf_maps [OF 1(1)] by auto
  have files: "queue_path (reg_queue_dir ?reg) cid = Some p \<or> subs_path (reg_queue_dir ?reg) cid = Some p \<Longrightarrow>
      fs_get (env_fs (st_env st1)) p = None" for p
    using cleared_facts(3) [OF assms(2,3)] 1(4) by simp
  have "sink (inner (?s\<lparr>inner := i\<rparr>)) = sink i" "q_path ?s = None" "s_path ?s = None" for i
    by (simp_all add: SessionState_new_def Let_def)
  then show ?thesis
    using wf files al 1(2) by (simp add: attach_def attach_clean attach_conn_new Let_def register_def)
qed

lemma demo_store1_wf: "store_wf demo_store1"
  using registry_runs.inv_reachable [OF _ demo_store1_reach] by blast

lemma demo_store1_fs: "env_fs (st_env demo_store1) = env_fs demo_env"
  by (simp add: demo_store1_def demo_store0_def attach_def attach_clean attach_conn_new cleared_def alloc_def Let_def
      store_init_def SessionRegistry_new_def discard_paths_def discard_file_def remove_state_file_def fs_remove_def
      demo_env_def hm_remove_def split: option.split)

theorem clean_connect_fresh_witness:
  "\<exists>ao st' s. attach ''dev1'' ''bob'' True 9 10 demo_store1 = (Some ao, st') \<and> ao_backlog ao = []
     \<and> hm_get (st_heap st') (ao_session ao) = Some s \<and> sink (inner s) = Some 9"
  using clean_connect_fresh [OF demo_store1_wf, of "''dev1''" "''bob''" 9 10]
  by (simp add: demo_store1_fs demo_env_def fs_wf_def) blast

text \<open>(C28) A persistent connect resumes what is stored: it reports stored state exactly when the
  client id is registered or one of its files exists; when the id is registered it gets that
  very session, with its subscriptions kept and the whole offline queue as backlog, in
  order.\<close>

theorem persistent_connect_resumes:
  assumes "store_wf st" and "attach cid who False tx k st = (Some ao, st')"
  shows "(ao_present ao \<longleftrightarrow> hm_get (sessions (st_registry st)) cid \<noteq> None
      \<or> path_exists (queue_path (reg_queue_dir (st_registry st)) cid) st
      \<or> path_exists (subs_path (reg_queue_dir (st_registry st)) cid) st)
    \<and> (\<forall>r s. hm_get (sessions (st_registry st)) cid = Some r \<and> hm_get (st_heap st) r = Some s \<longrightarrow>
        ao_session ao = r \<and> ao_backlog ao = queue (inner s)
        \<and> (\<exists>s'. hm_get (st_heap st') r = Some s' \<and> subs (inner s') = subs (inner s) \<and> sink (inner s') = Some tx))"
proof (cases "hm_get (sessions (st_registry st)) cid")
  case None
  with assms(2) show ?thesis
    by (auto simp: attach_def attach_lookup_def Let_def split: prod.splits option.splits)
next
  case (Some r)
  then obtain s where s: "hm_get (st_heap st) r = Some s" using store_wf_ref [OF assms(1)] by blast
  obtain ep backlog s1 e1 where a: "attach_locked who tx k (s, st_env st) = ((ep, backlog), s1, e1)"
    by (metis prod_cases3 surj_pair)
  have "subs (inner s1) = subs (inner s)" "sink (inner s1) = Some tx" "backlog = queue (inner s)"
    using a by (auto simp: attach_locked_def Let_def split: option.splits if_splits)
  with assms(2) Some s a store_wf_maps [OF assms(1)] show ?thesis
    by (auto simp: attach_def attach_lookup_def attach_conn_def)
qed

theorem persistent_connect_resumes_witness:
  "\<exists>ao st'. attach ''dev1'' ''bob'' False 9 10 demo_store1 = (Some ao, st') \<and> ao_present ao \<and> ao_session ao = 0"
proof -
  obtain ao st' where at: "attach ''dev1'' ''bob'' False 9 10 demo_store1 = (Some ao, st')"
    using attach_wf [OF demo_store1_wf] by (metis surj_pair)
  from persistent_connect_resumes [OF demo_store1_wf at] demo_store1_eq at show ?thesis by simp
qed

text \<open>Ending one connection never takes another session down: a disconnect of session \<open>r\<close>
  leaves every other session as it is, and every registration that is not of \<open>r\<close> itself;
  in particular the session that replaced \<open>r\<close> under the same client id stays registered.\<close>

theorem disconnect_spares_others:
  assumes "store_wf st" and "hm_get (sessions (st_registry st)) cid = Some r'" and "r' \<noteq> r"
  shows "hm_get (sessions (st_registry (detach now r ep clean st))) cid = Some r'
    \<and> hm_get (st_heap (detach now r ep clean st)) r' = hm_get (st_heap st) r'"
proof -
  have *: "hm_get (st_heap (on_session r f st1)) r' = hm_get (st_heap st1) r'" if "hm_wf (st_heap st1)" for f st1
    using assms(3) that by (simp add: on_session_def split: option.split prod.split)
  show ?thesis
    using assms store_wf_maps [OF assms(1)]
    by (auto simp: detach_def Let_def * split: option.split prod.split bool.split)
qed

theorem disconnect_spares_others_witness:
  "hm_get (sessions (st_registry (detach 5 3 1 True demo_store1))) ''dev1'' = Some 0"
  using disconnect_spares_others [OF demo_store1_wf demo_store1_eq(1), of 3 5 1 True] by simp

lemma sweep_registry: "st_registry (foldl sweep_one st rs) = st_registry st"
  by (induction rs arbitrary: st) (simp_all add: sweep_one_def)



text \<open>Startup restores a persisted session exactly: the session registered for the file's
  client id belongs to the file's identity and is subscribed to those of the file's filters,
  each at its last recorded level, that the current access list permits to that identity,
  that still translate, and that the bus accepts; its offline queue is what the queue file
  holds.\<close>

theorem rehydrate_one_exact:
  assumes "store_wf st" and "load_subs qos (env_fs (st_env st)) path = Inr (cid, who, filters)"
  shows "\<exists>st' r s. rehydrate_one qos acl scope decl path st = (Inr cid, st')
    \<and> hm_get (sessions (st_registry st')) cid = Some r \<and> hm_get (st_heap st') r = Some s
    \<and> identity (inner s) = who
    \<and> (\<forall>f. sub_levels s f = map_of (rev (filter (\<lambda>(f, _). restorable acl scope decl who f) filters)) f)
    \<and> (\<forall>qp. queue_path (reg_queue_dir (st_registry st)) cid = Some qp \<longrightarrow>
         queue (inner s) = (case load_queue (env_fs (st_env st)) qp (reg_max_queue (st_registry st)) of
                              Inr q \<Rightarrow> q | Inl _ \<Rightarrow> []))"
proof -
  obtain out st' where r: "rehydrate_one qos acl scope decl path st = (out, st')" by fastforce
  note e = rehydrate_one_effect [OF assms r]
  show ?thesis
    using r e unfolding only_subs_differ_def
    by (auto simp: SessionState_new_def Let_def split: option.splits)
qed

definition demo_subs_file :: string where
  "demo_subs_file = state_path ''d'' ''dev1'' ''subs''"

definition demo_subs_store :: store where
  "demo_subs_store = store_init 2 None (Some ''d'') (demo_env\<lparr>env_fs :=
     one_file_fs demo_subs_file (SUBS_MAGIC @ chunk_bytes (as_bytes ''dev1'') @ chunk_bytes (as_bytes ''bob'')
       @ concat (map sub_bytes [(''a/#'', AtLeastOnce), (''b'', AtLeastOnce)]))\<rparr>)"

definition demo_acl :: Acl where
  "demo_acl = Acl_new [\<lparr>rule_user = ''bob'', rule_publish = [], rule_subscribe = [''a/#'']\<rparr>] Deny"

lemma demo_subs_loaded:
  "load_subs qos_std (env_fs (st_env demo_subs_store)) demo_subs_file =
     Inr (''dev1'', ''bob'', [(''a/#'', AtLeastOnce), (''b'', AtLeastOnce)])"
  by (rule load_subs_bytes [OF qos_std_inverse])
    (simp_all add: rust_string_def as_bytes_def char_u8_def fits_u32_def U32_MAX_def sub_ok_def
      demo_subs_store_def store_init_def one_file_fs_def fs_read_def)

lemma demo_subs_wf: "store_wf demo_subs_store"
  unfolding demo_subs_store_def by (rule store_init_wf)

lemma demo_restorable: "restorable demo_acl '''' (\<lambda>_. True) ''bob'' ''a/#''" "\<not> restorable demo_acl '''' (\<lambda>_. True) ''bob'' ''b''"
  by code_simp+

theorem rehydrate_one_exact_witness:
  "\<exists>st r s. rehydrate_one qos_std demo_acl '''' (\<lambda>_. True) demo_subs_file demo_subs_store = (Inr ''dev1'', st)
     \<and> hm_get (sessions (st_registry st)) ''dev1'' = Some r \<and> hm_get (st_heap st) r = Some s
     \<and> sub_levels s ''a/#'' = Some AtLeastOnce \<and> sub_levels s ''b'' = None"
  using rehydrate_one_exact [OF demo_subs_wf demo_subs_loaded, of demo_acl "''''" "\<lambda>_. True"]
  by (fastforce simp: demo_restorable)

text \<open>Frame of a restore: sessions that were there stay as they were.\<close>

lemma on_session_other:
  "hm_wf (st_heap st) \<Longrightarrow> r' \<noteq> r \<Longrightarrow> hm_get (st_heap (on_session r f st)) r' = hm_get (st_heap st) r'"
  by (simp add: on_session_def split: option.split prod.split)

lemma rehydrate_filters_other:
  "store_wf st \<Longrightarrow> r' \<noteq> r \<Longrightarrow>
     hm_get (st_heap (foldl (rehydrate_filter acl scope decl who r) st fs)) r' = hm_get (st_heap st) r'"
proof (induction fs arbitrary: st)
  case (Cons x fs)
  obtain f q where x: "x = (f, q)" by (cases x)
  have "store_wf (rehydrate_filter acl scope decl who r st x)"
    using Cons.prems(1) by (simp add: x rehydrate_filter_def activate_wf)
  moreover have "hm_get (st_heap (rehydrate_filter acl scope decl who r st x)) r' = hm_get (st_heap st) r'"
    using Cons.prems(2) store_wf_maps [OF Cons.prems(1)]
    by (auto simp: x rehydrate_filter_def activate_subscription_def on_session_other split: sum.split)
  ultimately show ?case using Cons by simp
qed simp

lemma rehydrate_filters_registry:
  "st_registry (foldl (rehydrate_filter acl scope decl who r) st fs) = st_registry st"
proof (induction fs arbitrary: st)
  case (Cons x fs)
  then show ?case
    by (cases x) (simp add: rehydrate_filter_def activate_subscription_def split: sum.split)
qed simp

definition acl_ok :: "Acl \<Rightarrow> store \<Rightarrow> bool" where
  "acl_ok acl st \<longleftrightarrow>
     (\<forall>cid r s f. hm_get (sessions (st_registry st)) cid = Some r \<longrightarrow> hm_get (st_heap st) r = Some s \<longrightarrow>
        sub_levels s f \<noteq> None \<longrightarrow> may_subscribe acl (identity (inner s)) f)"

text \<open>What one restore leaves of the other registrations and sessions.\<close>

lemma rehydrate_one_frame:
  assumes "store_wf st" and "load_subs qos (env_fs (st_env st)) path = Inr (cid, who, filters)"
    and "rehydrate_one qos acl scope decl path st = (out, st')"
  shows "(\<forall>c. c \<noteq> cid \<longrightarrow> hm_get (sessions (st_registry st')) c = hm_get (sessions (st_registry st)) c)
    \<and> (\<forall>r s. hm_get (st_heap st) r = Some s \<longrightarrow> hm_get (st_heap st') r = Some s)"
proof -
  let ?reg = "st_registry st"
  let ?n = "SessionState_new (env_fs (st_env st)) cid (reg_max_queue ?reg) (reg_slow_grace ?reg)
      (queue_path (reg_queue_dir ?reg) cid) (Some path)"
  let ?s = "?n\<lparr>inner := (inner ?n)\<lparr>identity := who\<rparr>\<rparr>"
  obtain r st1 where al: "alloc ?s st = (r, st1)" by fastforce
  have inv: "session_inv ?s" using session_new_inv [of "env_fs (st_env st)" cid] by (simp add: session_inv_def)
  note 1 = store_wf_alloc [OF assms(1) inv al]
  let ?st2 = "foldl (rehydrate_filter acl scope decl who r) st1 filters"
  let ?st3 = "on_session r (\<lambda>(s, e). (s, persist_subs s e)) ?st2"
  have wf2: "store_wf ?st2" using 1(1) by (rule rehydrate_filters_wf)
  have eq: "st' = register cid r ?st3"
    using assms(3) al by (simp add: rehydrate_one_def assms(2) Let_def)
  have reg: "st_registry ?st3 = ?reg" by (simp add: rehydrate_filters_registry 1(3))
  have "hm_get (st_heap st') r' = Some s" if "hm_get (st_heap st) r' = Some s" for r' s
  proof -
    have ne: "r' \<noteq> r" using that 1(5) by auto
    then have "hm_get (st_heap st1) r' = Some s" using al that store_wf_maps [OF assms(1)] by (auto simp: alloc_def)
    then show ?thesis
      using ne store_wf_maps [OF wf2] by (simp add: eq on_session_other rehydrate_filters_other [OF 1(1)])
  qed
  moreover have "hm_get (sessions (st_registry st')) c = hm_get (sessions ?reg) c" if "c \<noteq> cid" for c
    using that reg store_wf_maps [OF assms(1)] by (simp add: eq register_def)
  ultimately show ?thesis by blast
qed

lemma rehydrate_one_acl:
  assumes "store_wf st" and "acl_ok acl st" and "rehydrate_one qos acl scope decl path st = (out, st')"
  shows "store_wf st' \<and> acl_ok acl st'"
proof (cases "load_subs qos (env_fs (st_env st)) path")
  case (Inl e)
  with assms show ?thesis by (simp add: rehydrate_one_def)
next
  case (Inr x)
  then obtain cid who filters where l: "load_subs qos (env_fs (st_env st)) path = Inr (cid, who, filters)"
    by (metis prod_cases3)
  note eff = rehydrate_one_effect [OF assms(1) l assms(3)] and fr = rehydrate_one_frame [OF assms(1) l assms(3)]
  obtain r s where new: "hm_get (sessions (st_registry st')) cid = Some r" "hm_get (st_heap st') r = Some s"
    "identity (inner s) = who"
    "\<forall>f. sub_levels s f = map_of (rev (filter (\<lambda>(f, _). restorable acl scope decl who f) filters)) f"
    using eff by (auto simp: only_subs_differ_def)
  have "may_subscribe acl (identity (inner s')) f"
    if "hm_get (sessions (st_registry st')) c = Some r'" "hm_get (st_heap st') r' = Some s'" "sub_levels s' f \<noteq> None"
    for c r' s' f
  proof (cases "c = cid")
    case True
    with that new have "map_of (rev (filter (\<lambda>(f, _). restorable acl scope decl who f) filters)) f \<noteq> None"
      and "s' = s" by auto
    then have "restorable acl scope decl who f" by (auto dest!: map_of_SomeD)
    with \<open>s' = s\<close> new(3) show ?thesis by (simp add: restorable_def)
  next
    case False
    with fr that(1) have c: "hm_get (sessions (st_registry st)) c = Some r'" by simp
    with store_wf_ref [OF assms(1)] fr that(2) have "hm_get (st_heap st) r' = Some s'" by fastforce
    with c that(3) assms(2) show ?thesis unfolding acl_ok_def by blast
  qed
  with eff show ?thesis unfolding acl_ok_def by blast
qed

lemma rehydrate_paths_acl:
  "store_wf st \<Longrightarrow> acl_ok acl st \<Longrightarrow> foldl (rehydrate_path qos acl scope decl) (n, st) ps = (m, st') \<Longrightarrow>
     store_wf st' \<and> acl_ok acl st'"
proof (induction ps arbitrary: n st)
  case (Cons p ps)
  obtain n1 st1 where p: "rehydrate_path qos acl scope decl (n, st) p = (n1, st1)" by fastforce
  have "store_wf st1 \<and> acl_ok acl st1"
    using p rehydrate_one_acl [OF Cons.prems(1,2)] Cons.prems(1,2)
    by (auto simp: rehydrate_path_def split: if_splits prod.splits sum.splits)
  with Cons.IH [of st1 n1] Cons.prems(3) p show ?case by simp
qed simp

text \<open>(C24) A tightened access list takes effect at restart: after startup, no registered session
  holds a subscription that the current access list denies to the identity that owns the
  session, whatever the subscription files on disk contain.\<close>

theorem rehydrate_respects_acl:
  assumes "rehydrate qos acl scope decl (store_init n g d e) = (out, st)"
    and "hm_get (sessions (st_registry st)) cid = Some r" and "hm_get (st_heap st) r = Some s"
    and "hm_get (subs (inner s)) f = Some entry"
  shows "may_subscribe acl (identity (inner s)) f"
proof -
  have "acl_ok acl (store_init n g d e)" by (simp add: acl_ok_def store_init_def SessionRegistry_new_def)
  with assms(1) rehydrate_paths_acl [OF store_init_wf] have "acl_ok acl st"
    by (auto simp: rehydrate_def split: option.splits if_splits prod.splits)
  with assms(2-4) show ?thesis by (auto simp: acl_ok_def sub_levels_def)
qed

lemma demo_rehydrate:
  "\<exists>out st r s entry. rehydrate qos_std demo_acl '''' (\<lambda>_. True) demo_subs_store = (out, st)
     \<and> hm_get (sessions (st_registry st)) ''dev1'' = Some r \<and> hm_get (st_heap st) r = Some s
     \<and> hm_get (subs (inner s)) ''a/#'' = Some entry \<and> identity (inner s) = ''bob''"
proof -
  obtain out st1 where one: "rehydrate_one qos_std demo_acl '''' (\<lambda>_. True) demo_subs_file demo_subs_store = (out, st1)"
    by fastforce
  note eff = rehydrate_one_effect [OF demo_subs_wf demo_subs_loaded one]
  have pf: "path_file demo_subs_file = hex_name ''dev1'' @ ''.subs''" "path_extension demo_subs_file = Some ''subs''"
    unfolding demo_subs_file_def state_path_def
    using path_file_join [of "hex_name ''dev1'' @ ''.subs''" "''d''"] hex_name_plain(1) [of "''dev1''"]
      path_extension_state [of "''dev1''" "''subs''" "''d''", unfolded state_path_def] by simp_all
  then have dir: "fs_read_dir ''d'' (env_fs (st_env demo_subs_store)) = [demo_subs_file]"
    by (simp add: fs_read_dir_def demo_subs_store_def store_init_def one_file_fs_def)
      (simp add: demo_subs_file_def state_path_def)
  have cfg: "reg_queue_dir (st_registry demo_subs_store) = Some ''d''"
    "fs_io_fault (env_fs (st_env demo_subs_store)) ''d'' = False"
    by (simp_all add: demo_subs_store_def store_init_def SessionRegistry_new_def one_file_fs_def)
  have "rehydrate qos_std demo_acl '''' (\<lambda>_. True) demo_subs_store = (Inr 1, st1)"
    using eff one by (simp add: rehydrate_def cfg dir rehydrate_path_def pf(2))
  moreover obtain r s where "hm_get (sessions (st_registry st1)) ''dev1'' = Some r" "hm_get (st_heap st1) r = Some s"
      "identity (inner s) = ''bob''" "sub_levels s ''a/#'' = Some AtLeastOnce"
    using eff by (auto simp: only_subs_differ_def demo_restorable)
  ultimately show ?thesis by (auto simp: sub_levels_def)
qed

theorem rehydrate_respects_acl_witness:
  "\<exists>out st r s entry. rehydrate qos_std demo_acl '''' (\<lambda>_. True) demo_subs_store = (out, st)
     \<and> hm_get (sessions (st_registry st)) ''dev1'' = Some r \<and> hm_get (st_heap st) r = Some s
     \<and> hm_get (subs (inner s)) ''a/#'' = Some entry \<and> may_subscribe demo_acl (identity (inner s)) ''a/#''"
  using demo_rehydrate rehydrate_respects_acl unfolding demo_subs_store_def by blast

text \<open>A restored session is exempt from expiry: it is offline without an offline time, so until
  its client connects again no sweep removes it, however late.\<close>

theorem restored_session_never_expires:
  assumes "store_wf st" and "rehydrate_one qos acl scope decl path st = (Inr cid, st')"
  shows "\<exists>r. hm_get (sessions (st_registry st')) cid = Some r
    \<and> (\<forall>now expiry. \<not> ref_expired now expiry st' r
        \<and> hm_get (sessions (st_registry (sweep now expiry st'))) cid = Some r)"
proof -
  obtain c who filters where l: "load_subs qos (env_fs (st_env st)) path = Inr (c, who, filters)"
    using assms(2) by (auto simp: rehydrate_one_def split: sum.splits)
  note eff = rehydrate_one_effect [OF assms(1) l assms(2)]
  then obtain r s where r: "hm_get (sessions (st_registry st')) cid = Some r" "hm_get (st_heap st') r = Some s"
    "offline_since (inner s) = None" and wf: "hm_wf (sessions (st_registry st'))"
    using store_wf_maps by (auto simp: only_subs_differ_def SessionState_new_def Let_def)
  then have "\<not> ref_expired now expiry st' r" for now expiry by (simp add: ref_expired_def expired_def)
  with r(1) wf show ?thesis by (simp add: sweep_def Let_def sweep_registry hm_get_retain)
qed

theorem restored_session_never_expires_witness:
  "\<exists>st r. fst (rehydrate_one qos_std demo_acl '''' (\<lambda>_. True) demo_subs_file demo_subs_store) = Inr ''dev1''
     \<and> snd (rehydrate_one qos_std demo_acl '''' (\<lambda>_. True) demo_subs_file demo_subs_store) = st
     \<and> hm_get (sessions (st_registry (sweep 1000000 1 st))) ''dev1'' = Some r"
proof -
  obtain out st where one: "rehydrate_one qos_std demo_acl '''' (\<lambda>_. True) demo_subs_file demo_subs_store = (out, st)"
    by fastforce
  have "out = Inr ''dev1''" using rehydrate_one_effect [OF demo_subs_wf demo_subs_loaded one] by blast
  with restored_session_never_expires [OF demo_subs_wf one [unfolded this]] one show ?thesis by auto
qed

text \<open>A persistent connect during a clean session gets no persistence: while a client's clean
  session is registered, a connect of the same client with cleanSession=0 is given that
  session, told that stored state existed, and the session still has no queue or
  subscription file.\<close>

theorem clean_session_reused:
  "\<exists>ao st' s. attach ''dev1'' ''bob'' False 9 10 demo_store1 = (Some ao, st')
     \<and> ao_present ao \<and> ao_session ao = 0 \<and> hm_get (st_heap st') 0 = Some s \<and> q_path s = None \<and> s_path s = None"
  using demo_store1_eq
  by (simp add: attach_def attach_lookup_def Let_def attach_conn_def attach_locked_def discard_queue_file_def
      SessionState_new_def notify_def hm_insert_def)

text \<open>What a clean connect leaves of the session it replaces.\<close>

lemma attach_clean_old:
  assumes "store_wf st" and "fs_wf (env_fs (st_env st))" and "\<forall>p. \<not> fs_io_fault (env_fs (st_env st)) p"
    and "hm_get (sessions (st_registry st)) cid = Some r" and "hm_get (st_heap st) r = Some s"
    and "attach cid who True tx k st = (Some ao, st')"
  shows "ao_session ao \<noteq> r \<and> (\<exists>reason. hm_get (st_heap st') r =
      Some (s\<lparr>inner := (inner s)\<lparr>kick_reason := reason, subs := []\<rparr>\<rparr>))
    \<and> fs_wf (env_fs (st_env st')) \<and> fs_io_fault (env_fs (st_env st')) = fs_io_fault (env_fs (st_env st))
    \<and> fs_write_fault (env_fs (st_env st')) = fs_write_fault (env_fs (st_env st))
    \<and> (\<forall>p. subs_path (reg_queue_dir (st_registry st)) cid = Some p \<longrightarrow> fs_get (env_fs (st_env st')) p = None)"
proof -
  let ?c = "cleared cid st" and ?reg = "st_registry st"
  let ?s = "SessionState_new (env_fs (st_env ?c)) cid (reg_max_queue ?reg) (reg_slow_grace ?reg) None None"
  obtain r' st1 where al: "alloc ?s ?c = (r', st1)" by fastforce
  note 1 = store_wf_alloc [OF cleared_facts(2) [OF assms(1)] session_new_inv al]
  have wf: "hm_wf (st_heap st)" "hm_wf (st_heap st1)" using store_wf_maps [OF assms(1)] store_wf_maps [OF 1(1)] by auto
  have "\<exists>reason. hm_get (st_heap ?c) r = Some (s\<lparr>inner := (inner s)\<lparr>kick_reason := reason, subs := []\<rparr>\<rparr>)"
  proof (cases "kick (inner s)")
    case None
    with assms(4,5) wf(1) show ?thesis
      by (intro exI [of _ "kick_reason (inner s)"])
        (simp add: cleared_def discard_paths_def on_session_def kick_current_def abort_subs_def)
  next
    case (Some kk)
    with assms(4,5) wf(1) show ?thesis
      by (auto simp: cleared_def discard_paths_def on_session_def kick_current_def abort_subs_def)
  qed
  then obtain reason where old: "hm_get (st_heap ?c) r = Some (s\<lparr>inner := (inner s)\<lparr>kick_reason := reason, subs := []\<rparr>\<rparr>)" by blast
  with 1(5) have "r' \<noteq> r" by auto
  with old al have "hm_get (st_heap st1) r = Some (s\<lparr>inner := (inner s)\<lparr>kick_reason := reason, subs := []\<rparr>\<rparr>)"
    using store_wf_maps [OF cleared_facts(2) [OF assms(1)]] by (auto simp: alloc_def)
  moreover have "fs_get (env_fs (st_env st1)) p = None" if "subs_path (reg_queue_dir ?reg) cid = Some p" for p
    using cleared_facts(3) [OF assms(2,3)] 1(4) that by simp
  moreover have "fs_wf (env_fs (st_env ?c)) \<and> fs_io_fault (env_fs (st_env ?c)) = fs_io_fault (env_fs (st_env st))
      \<and> fs_write_fault (env_fs (st_env ?c)) = fs_write_fault (env_fs (st_env st))"
    using assms(2) by (auto simp: cleared_def discard_paths_def discard_file_def remove_state_file_def quiet_methods split: option.split)
  ultimately show ?thesis
    using assms(6) wf al 1(2,4) \<open>r' \<noteq> r\<close> by (auto simp: attach_def attach_clean attach_conn_new Let_def register_def)
qed

text \<open>A superseded connection can bring discarded state back: after a clean connect took a persistent
  session's client id over and deleted its files, a SUBSCRIBE that the old connection still
  handles (its kick may be lost, or lose the race against the read) writes the subscription file
  again, so the client that asked for a clean session is given this subscription by the next
  restart.\<close>

theorem superseded_subscribe_returns:
  assumes "store_wf st" and "fs_wf (env_fs (st_env st))" and "\<forall>p. \<not> fs_io_fault (env_fs (st_env st)) p"
    and "\<forall>p. fs_write_fault (env_fs (st_env st)) p = None"
    and "hm_get (sessions (st_registry st)) cid = Some r" and "hm_get (st_heap st) r = Some s"
    and "reg_queue_dir (st_registry st) = Some dir" and "subs_path (Some dir) cid = Some p" and "s_path s = Some p"
    and "attach cid who True tx k st = (Some ao, st')"
    and "qos_inverse qos" and "cid \<noteq> []" and "list_all (\<lambda>x. rust_string x \<and> fits_u32 x) [cid, identity (inner s), f]"
  shows "ao_session ao \<noteq> r \<and> fs_get (env_fs (st_env st')) p = None
    \<and> load_subs qos (env_fs (st_env (on_session r (insert_sub f q task) st'))) p = Inr (cid, identity (inner s), [(f, q)])"
proof -
  note old = attach_clean_old [OF assms(1-3,5,6,10)]
  then obtain reason where
    s: "hm_get (st_heap st') r = Some (s\<lparr>inner := (inner s)\<lparr>kick_reason := reason, subs := []\<rparr>\<rparr>)" by blast
  have cid: "client_id s = cid" using store_wf_ref [OF assms(1,5)] assms(6) by auto
  let ?fs = "env_fs (st_env st')"
  have "\<forall>x\<in>set [(f, q)]. sub_ok x" using assms(13) by (simp add: sub_ok_def)
  from save_subs_ok [OF _ this, of ?fs cid "identity (inner s)" p] old assms(3,4,13)
  have save: "save_subs p cid (identity (inner s)) [(f, q)] ?fs = (fst (save_subs p cid (identity (inner s)) [(f, q)] ?fs), Inr ())"
    by simp
  have "load_subs qos (fst (save_subs p cid (identity (inner s)) [(f, q)] ?fs)) p = Inr (cid, identity (inner s), [(f, q)])"
    by (rule subs_file_roundtrip [OF assms(11) _ assms(12,8) _ _ _ _ _ _ save]) (use old assms(3,13) in auto)
  moreover have "env_fs (st_env (on_session r (insert_sub f q task) st')) = fst (save_subs p cid (identity (inner s)) [(f, q)] ?fs)"
    using s cid assms(9) by (simp add: on_session_def insert_sub_def persist_subs_def hm_insert_def Let_def)
  ultimately show ?thesis using old assms(7,8) by auto
qed

theorem superseded_subscribe_returns_witness:
  "\<exists>st ao st' p. attach ''dev1'' ''bob'' True 9 10 st = (Some ao, st') \<and> fs_get (env_fs (st_env st')) p = None
     \<and> load_subs qos_std (env_fs (st_env (on_session 0 (insert_sub ''a/#'' AtLeastOnce 5) st'))) p
         = Inr (''dev1'', ''bob'', [(''a/#'', AtLeastOnce)])"
proof -
  let ?st = "snd (attach ''dev1'' ''bob'' False 7 8 demo_store0)"
  let ?p = "state_path ''d'' ''dev1'' ''subs''"
  have wf: "store_wf ?st" using attach_wf [of demo_store0] store_init_wf by (metis demo_store0_def prod.collapse)
  have "hm_get (sessions (st_registry ?st)) ''dev1'' = Some 0 \<and> reg_queue_dir (st_registry ?st) = Some ''d''
      \<and> (\<exists>s. hm_get (st_heap ?st) 0 = Some s \<and> s_path s = Some ?p \<and> identity (inner s) = ''bob'')
      \<and> fs_io_fault (env_fs (st_env ?st)) = (\<lambda>_. False) \<and> fs_write_fault (env_fs (st_env ?st)) = (\<lambda>_. None)
      \<and> fs_wf (env_fs (st_env ?st))"
    by (simp add: attach_def attach_lookup_def attach_conn_def attach_locked_def alloc_def Let_def demo_store0_def
        store_init_def SessionRegistry_new_def register_def hm_insert_def SessionState_new_def discard_queue_file_def
        discard_file_def remove_state_file_def demo_env_def subs_path_Some fs_wf_def fs_remove_def load_queue_def fs_read_def
        split: option.split)
  then obtain s where s: "hm_get (sessions (st_registry ?st)) ''dev1'' = Some 0" "reg_queue_dir (st_registry ?st) = Some ''d''"
    "hm_get (st_heap ?st) 0 = Some s" "s_path s = Some ?p" "identity (inner s) = ''bob''"
    "fs_io_fault (env_fs (st_env ?st)) = (\<lambda>_. False)" "fs_write_fault (env_fs (st_env ?st)) = (\<lambda>_. None)"
    "fs_wf (env_fs (st_env ?st))" by blast
  obtain ao st' where a: "attach ''dev1'' ''bob'' True 9 10 ?st = (Some ao, st')"
    using attach_wf [OF wf] by (metis surj_pair)
  have "list_all (\<lambda>x. rust_string x \<and> fits_u32 x) [''dev1'', ''bob'', ''a/#'']"
    by (simp add: rust_string_def as_bytes_def char_u8_def fits_u32_def U32_MAX_def)
  with superseded_subscribe_returns [OF wf s(8) _ _ s(1,3,2) subs_path_Some s(4) a qos_std_inverse, of "''a/#''" AtLeastOnce 5] s(5-7) a
  show ?thesis by auto
qed

end
