(* ===== verification/Retained.thy ===== *)
theory Retained
  imports Topic Fs
begin

text \<open>
  \<open>crates/entmoot-node/src/retained.rs\<close>: the mesh-wide retained-message store. The envelope
  codec, the store with its match cache, the snapshot file, and the tasks \<open>wire\<close> starts
  (restore and periodic save, live replication, serving late joiners, catching up).

  The match cache (the \<open>moka\<close> crate, outside the repository) is a record of functions
  \<open>'c cache_api\<close> passed to every operation that uses it; the locale \<open>match_cache\<close> states the
  documented behaviour the code relies on: an entry is found only if it was put since the
  last invalidation, and it may be evicted at any time. The bus delivers samples, queries and
  replies as arguments of the task bodies.
\<close>

section \<open>Definitions\<close>

subsection \<open>Envelope\<close>

text \<open>\<open>t.duration_since(UNIX_EPOCH).unwrap_or_default().as_millis() as u64\<close> and back.\<close>

definition millis_since_epoch :: "system_time \<Rightarrow> u64" where
  "millis_since_epoch t = (if t < 0 then 0 else word_of_nat (nat t div 10 ^ 6))"

definition epoch_plus_millis :: "u64 \<Rightarrow> system_time" where
  "epoch_plus_millis ms = int (unat ms) * 10 ^ 6"

definition encode_envelope :: "bytes \<Rightarrow> system_time \<Rightarrow> bytes" where
  "encode_envelope payload written_at = u64_to_be_bytes (millis_since_epoch written_at) @ payload"

definition decode_envelope :: "bytes \<Rightarrow> (bytes \<times> system_time) option" where
  "decode_envelope bs =
     (case split_at_checked 8 bs of
        None \<Rightarrow> None
      | Some (ts_bytes, payload) \<Rightarrow> Some (payload, epoch_plus_millis (u64_from_be_bytes ts_bytes)))"

subsection \<open>Store\<close>

type_synonym RetainedEntry = "string \<times> bytes \<times> system_time"

record 'c cache_api =
  cache_new :: "u64 \<Rightarrow> 'c"
  cache_get :: "'c \<Rightarrow> string \<Rightarrow> RetainedEntry list option"
  cache_put :: "string \<Rightarrow> RetainedEntry list \<Rightarrow> 'c \<Rightarrow> 'c"
  cache_invalidate_all :: "'c \<Rightarrow> 'c"

record 'c RetainedStore =
  rs_map :: "(string, bytes \<times> system_time) hashmap"
  rs_dirty :: bool
  rs_cache :: 'c
  rs_scans :: u64

definition MATCH_CACHE_CAPACITY :: u64 where
  "MATCH_CACHE_CAPACITY = 10000"

definition RetainedStore_default :: "'c cache_api \<Rightarrow> 'c RetainedStore" where
  "RetainedStore_default api =
     \<lparr>rs_map = [], rs_dirty = False, rs_cache = cache_new api MATCH_CACHE_CAPACITY, rs_scans = 0\<rparr>"

definition rs_insert ::
    "'c cache_api \<Rightarrow> string \<Rightarrow> bytes \<Rightarrow> system_time \<Rightarrow> 'c RetainedStore \<Rightarrow> 'c RetainedStore" where
  "rs_insert api t payload written_at s =
     s\<lparr>rs_map := hm_insert t (payload, written_at) (rs_map s),
       rs_dirty := True,
       rs_cache := cache_invalidate_all api (rs_cache s)\<rparr>"

definition rs_remove :: "'c cache_api \<Rightarrow> string \<Rightarrow> 'c RetainedStore \<Rightarrow> 'c RetainedStore" where
  "rs_remove api t s =
     s\<lparr>rs_map := hm_remove t (rs_map s),
       rs_dirty := True,
       rs_cache := cache_invalidate_all api (rs_cache s)\<rparr>"

definition rs_len :: "'c RetainedStore \<Rightarrow> nat" where
  "rs_len s = length (rs_map s)"

definition rs_is_empty :: "'c RetainedStore \<Rightarrow> bool" where
  "rs_is_empty s \<longleftrightarrow> rs_len s = 0"

definition take_dirty :: "'c RetainedStore \<Rightarrow> bool \<times> 'c RetainedStore" where
  "take_dirty s = (rs_dirty s, s\<lparr>rs_dirty := False\<rparr>)"

definition rs_snapshot :: "'c RetainedStore \<Rightarrow> RetainedEntry list" where
  "rs_snapshot s = map (\<lambda>(t, p, ts). (t, p, ts)) (rs_map s)"

text \<open>The scan itself, and \<open>matching\<close>, which also counts it.\<close>

definition scan_map :: "(string, bytes \<times> system_time) hashmap \<Rightarrow> string \<Rightarrow> RetainedEntry list" where
  "scan_map mp filt = map (\<lambda>(t, p, ts). (t, p, ts)) (filter (\<lambda>(t, _). topic_matches filt t) mp)"

definition matching :: "string \<Rightarrow> 'c RetainedStore \<Rightarrow> RetainedEntry list \<times> 'c RetainedStore" where
  "matching filt s = (scan_map (rs_map s) filt, s\<lparr>rs_scans := rs_scans s + 1\<rparr>)"

definition scan_count :: "'c RetainedStore \<Rightarrow> u64" where
  "scan_count s = rs_scans s"

definition matching_cached ::
    "'c cache_api \<Rightarrow> string \<Rightarrow> 'c RetainedStore \<Rightarrow> RetainedEntry list \<times> 'c RetainedStore" where
  "matching_cached api filt s =
     (case cache_get api (rs_cache s) filt of
        Some v \<Rightarrow> (v, s)
      | None \<Rightarrow>
          (let (v, s) = matching filt s
           in (v, s\<lparr>rs_cache := cache_put api filt v (rs_cache s)\<rparr>)))"

subsection \<open>Snapshot file\<close>

definition SNAPSHOT_MAGIC :: bytes where
  "SNAPSHOT_MAGIC = as_bytes ''ENTMOOT-RET2'' @ [10]"

text \<open>One pass of the \<open>while\<close> loop: topic chunk, payload chunk, eight bytes of time, and only
  then the UTF-8 check of the topic.\<close>

definition snapshot_record :: "bytes \<Rightarrow> (CodecError, RetainedEntry \<times> bytes) result" where
  "snapshot_record rest =
     (case read_chunk rest of
        Inl e \<Rightarrow> Inl e
      | Inr (topic_bytes, rest) \<Rightarrow>
          (case read_chunk rest of
             Inl e \<Rightarrow> Inl e
           | Inr (payload, rest) \<Rightarrow>
               (case split_at_checked 8 rest of
                  None \<Rightarrow> Inl Truncated
                | Some (ts_bytes, tail) \<Rightarrow>
                    (case from_utf8 topic_bytes of
                       None \<Rightarrow> Inl BadUtf8
                     | Some t \<Rightarrow>
                         Inr ((t, payload, epoch_plus_millis (u64_from_be_bytes ts_bytes)), tail)))))"

lemma snapshot_record_length:
  "snapshot_record bs = Inr (x, rest) \<Longrightarrow> length rest < length bs"
  by (auto simp: snapshot_record_def split_at_checked_def split: sum.splits option.splits if_splits
      dest!: read_chunk_length) linarith

function snapshot_loop ::
    "'c RetainedStore \<times> nat \<Rightarrow> bytes \<Rightarrow> 'c RetainedStore \<times> (CodecError, nat) result" where
  "snapshot_loop (s, count) rest =
     (if rest = [] then (s, Inr count)
      else (case snapshot_record rest of
              Inl e \<Rightarrow> (s, Inl e)
            | Inr ((t, payload, written_at), rest) \<Rightarrow>
                snapshot_loop (s\<lparr>rs_map := hm_insert t (payload, written_at) (rs_map s)\<rparr>, count + 1) rest))"
  by pat_completeness auto
termination
  by (relation "measure (\<lambda>(_, rest). length rest)") (auto dest: snapshot_record_length)

declare snapshot_loop.simps [simp del]

definition load_snapshot ::
    "fs \<Rightarrow> string \<Rightarrow> 'c RetainedStore \<Rightarrow> 'c RetainedStore \<times> (CodecError, nat) result" where
  "load_snapshot fs path s =
     (case fs_read fs path of
        Inl e \<Rightarrow> (s, Inl e)
      | Inr data \<Rightarrow>
          (case strip_prefix SNAPSHOT_MAGIC data of
             None \<Rightarrow> (s, Inl BadMagic)
           | Some body \<Rightarrow> snapshot_loop (s, 0) body))"

text \<open>The lengths are cast with \<open>as u32\<close> and not checked.\<close>

definition snapshot_entry_bytes :: "RetainedEntry \<Rightarrow> bytes" where
  "snapshot_entry_bytes e =
     (case e of (t, payload, written_at) \<Rightarrow>
        u32_to_be_bytes (word_of_nat (length t)) @ as_bytes t
        @ u32_to_be_bytes (word_of_nat (length payload)) @ payload
        @ u64_to_be_bytes (millis_since_epoch written_at))"

definition save_snapshot :: "string \<Rightarrow> 'c RetainedStore \<Rightarrow> fs \<Rightarrow> fs \<times> (CodecError, unit) result" where
  "save_snapshot path s fs =
     fs_replace (with_extension path ''tmp'') path
       (SNAPSHOT_MAGIC @ concat (map snapshot_entry_bytes (rs_snapshot s))) fs"

subsection \<open>The tasks of \<open>wire\<close>\<close>

text \<open>Task 0: restore at startup, then save whenever something changed since the last tick.\<close>

definition wire_restore :: "fs \<Rightarrow> string option \<Rightarrow> 'c RetainedStore \<Rightarrow> 'c RetainedStore" where
  "wire_restore fs persist_path s =
     (case persist_path of
        None \<Rightarrow> s
      | Some path \<Rightarrow>
          (let s = (if fs_exists fs path then fst (load_snapshot fs path s) else s)
           in snd (take_dirty s)))"

definition persist_tick :: "string \<Rightarrow> 'c RetainedStore \<times> fs \<Rightarrow> 'c RetainedStore \<times> fs" where
  "persist_tick path = (\<lambda>(s, fs).
     let (d, s) = take_dirty s
     in if d then (s, fst (save_snapshot path s fs)) else (s, fs))"

text \<open>Task 1: one sample of the subscriber on the retained keyspace.\<close>

datatype SampleKind = Put | Delete

definition on_retained_sample ::
    "'c cache_api \<Rightarrow> string \<Rightarrow> string \<Rightarrow> SampleKind \<Rightarrow> bytes \<Rightarrow> 'c RetainedStore \<Rightarrow> 'c RetainedStore" where
  "on_retained_sample api scope ke kind raw s =
     (case retained_keyexpr_to_topic ke scope of
        None \<Rightarrow> s
      | Some t \<Rightarrow>
          (case kind of
             Put \<Rightarrow>
               (case decode_envelope raw of
                  None \<Rightarrow> s
                | Some (payload, written_at) \<Rightarrow> rs_insert api t payload written_at s)
           | Delete \<Rightarrow> rs_remove api t s))"

text \<open>Task 2: the replies to one query of the queryable.\<close>

definition serve_query :: "string \<Rightarrow> 'c RetainedStore \<Rightarrow> (string \<times> bytes) list" where
  "serve_query scope s =
     map (\<lambda>(t, payload, written_at). (retained_keyexpr t scope, encode_envelope payload written_at))
       (rs_snapshot s)"

text \<open>Task 3: the startup fetch, over the replies in the order they arrive; \<open>None\<close> is an error
  reply.\<close>

definition on_catch_up_reply ::
    "'c cache_api \<Rightarrow> string \<Rightarrow> 'c RetainedStore \<Rightarrow> (string \<times> bytes) option \<Rightarrow> 'c RetainedStore" where
  "on_catch_up_reply api scope s reply =
     (case reply of
        None \<Rightarrow> s
      | Some (ke, raw) \<Rightarrow>
          (case retained_keyexpr_to_topic ke scope of
             None \<Rightarrow> s
           | Some t \<Rightarrow>
               (case decode_envelope raw of
                  None \<Rightarrow> s
                | Some (payload, written_at) \<Rightarrow> rs_insert api t payload written_at s)))"

definition catch_up ::
    "'c cache_api \<Rightarrow> string \<Rightarrow> 'c RetainedStore \<Rightarrow> (string \<times> bytes) option list \<Rightarrow> 'c RetainedStore" where
  "catch_up api scope s replies = foldl (on_catch_up_reply api scope) s replies"

text \<open>The task around it: a query that fails leaves the store alone.\<close>

definition catch_up_task ::
    "'c cache_api \<Rightarrow> string \<Rightarrow> (string \<times> bytes) option list option \<Rightarrow> 'c RetainedStore \<Rightarrow> 'c RetainedStore" where
  "catch_up_task api scope replies s =
     (case replies of None \<Rightarrow> s | Some rs \<Rightarrow> catch_up api scope s rs)"

section \<open>Envelope lemmas\<close>

text \<open>The time that survives the wire: whole milliseconds, not before the epoch.\<close>

definition wire_time :: "system_time \<Rightarrow> system_time" where
  "wire_time t = epoch_plus_millis (millis_since_epoch t)"

lemma millis_wire_time [simp]: "millis_since_epoch (wire_time t) = millis_since_epoch t"
  by (simp add: wire_time_def epoch_plus_millis_def millis_since_epoch_def nat_mult_distrib)

lemma wire_time_idem [simp]: "wire_time (wire_time t) = wire_time t"
  by (metis wire_time_def millis_wire_time)

lemma wire_time_floor:
  assumes "0 \<le> t" and "t < 2 ^ 64 * 10 ^ 6"
  shows "wire_time t = t div 10 ^ 6 * 10 ^ 6"
proof -
  have "nat t div 10 ^ 6 < 2 ^ 64"
    using assms by (simp add: div_less_iff_less_mult nat_less_iff)
  with assms show ?thesis
    by (simp add: wire_time_def epoch_plus_millis_def millis_since_epoch_def unat_of_nat zdiv_int
        flip: nat_div_distrib)
qed

lemma decode_encode [codec_simps]: "decode_envelope (encode_envelope p t) = Some (p, wire_time t)"
  by (simp add: decode_envelope_def encode_envelope_def split_at_checked_length wire_time_def)

section \<open>Store lemmas\<close>

text \<open>The abstract content of a store: what is retained on each topic.\<close>

definition retained :: "'c RetainedStore \<Rightarrow> string \<Rightarrow> (bytes \<times> system_time) option" where
  "retained s = hm_get (rs_map s)"

definition rs_wf :: "'c RetainedStore \<Rightarrow> bool" where
  "rs_wf s = hm_wf (rs_map s)"

lemma rs_insert_simps [simp]:
  "rs_wf s \<Longrightarrow> rs_wf (rs_insert api t p ts s)"
  "rs_wf s \<Longrightarrow> retained (rs_insert api t p ts s) = (retained s)(t \<mapsto> (p, ts))"
  "rs_dirty (rs_insert api t p ts s)"
  by (auto simp: rs_insert_def rs_wf_def retained_def)

lemma rs_remove_simps [simp]:
  "rs_wf s \<Longrightarrow> rs_wf (rs_remove api t s)"
  "rs_wf s \<Longrightarrow> retained (rs_remove api t s) = (retained s)(t := None)"
  "rs_dirty (rs_remove api t s)"
  by (auto simp: rs_remove_def rs_wf_def retained_def)

lemma rs_default_simps [simp]:
  "rs_wf (RetainedStore_default api)" "retained (RetainedStore_default api) t = None"
  by (simp_all add: RetainedStore_default_def rs_wf_def retained_def)

lemma rs_snapshot_eq: "rs_snapshot s = rs_map s"
  by (simp add: rs_snapshot_def case_prod_unfold)

lemma scan_map_iff:
  "hm_wf mp \<Longrightarrow> (t, p, ts) \<in> set (scan_map mp f) \<longleftrightarrow> hm_get mp t = Some (p, ts) \<and> topic_matches f t"
  using hm.in_entries [of mp t "(p, ts)"] by (auto simp: scan_map_def)

lemma scan_map_distinct: "hm_wf mp \<Longrightarrow> distinct (map fst (scan_map mp f))"
  by (simp add: scan_map_def hm_wf_def case_prod_unfold comp_def distinct_map_filter)

lemma on_catch_up_reply_get:
  "rs_wf s \<Longrightarrow> rs_wf (on_catch_up_reply api scope s (Some (retained_keyexpr t scope, encode_envelope p ts)))"
  "rs_wf s \<Longrightarrow> retained (on_catch_up_reply api scope s (Some (retained_keyexpr t scope, encode_envelope p ts)))
     = (retained s)(t \<mapsto> (p, wire_time ts))"
  by (simp_all add: on_catch_up_reply_def retained_keyexpr_to_topic_def retained_keyexpr_def codec_simps)

text \<open>Replies made of another store's entries.\<close>

lemma catch_up_entries:
  "rs_wf s \<Longrightarrow>
     rs_wf (catch_up api scope s
       (map (\<lambda>(t, p, ts). Some (retained_keyexpr t scope, encode_envelope p ts)) es))
   \<and> retained (catch_up api scope s
       (map (\<lambda>(t, p, ts). Some (retained_keyexpr t scope, encode_envelope p ts)) es)) t
     = (case map_of (rev es) t of
          Some (p, ts) \<Rightarrow> Some (p, wire_time ts)
        | None \<Rightarrow> retained s t)"
proof (induction es arbitrary: s)
  case (Cons e es)
  obtain t' p' ts' where e: "e = (t', p', ts')" by (cases e)
  let ?s = "on_catch_up_reply api scope s (Some (retained_keyexpr t' scope, encode_envelope p' ts'))"
  have "rs_wf ?s" using Cons.prems by (rule on_catch_up_reply_get)
  from Cons.IH [OF this] Cons.prems show ?case
    by (auto simp: e catch_up_def on_catch_up_reply_get map_add_def split: option.splits)
qed (simp add: catch_up_def)

section \<open>The snapshot file as a record stream\<close>

definition snapshot_ok :: "RetainedEntry \<Rightarrow> bool" where
  "snapshot_ok e \<longleftrightarrow> (case e of (t, p, ts) \<Rightarrow> rust_string t \<and> fits_u32 t \<and> fits_u32 p \<and> wire_time ts = ts)"

definition snapshot_push :: "'c RetainedStore \<times> nat \<Rightarrow> RetainedEntry \<Rightarrow> 'c RetainedStore \<times> nat" where
  "snapshot_push = (\<lambda>(s, n) (t, p, ts). (s\<lparr>rs_map := hm_insert t (p, ts) (rs_map s)\<rparr>, n + 1))"

lemma snapshot_entry_bytes_eq:
  "snapshot_entry_bytes (t, p, ts) =
     chunk_bytes (as_bytes t) @ chunk_bytes p @ u64_to_be_bytes (millis_since_epoch ts)"
  by (simp add: snapshot_entry_bytes_def chunk_bytes_def)

lemma snapshot_record_entry:
  assumes "snapshot_ok x"
  shows "snapshot_record (snapshot_entry_bytes x @ rest) = Inr (x, rest)"
proof -
  obtain t p ts where x: "x = (t, p, ts)" by (cases x)
  with assms have *: "rust_string t" "fits_u32 (as_bytes t)" "fits_u32 p" "wire_time ts = ts"
    by (simp_all add: snapshot_ok_def)
  have "epoch_plus_millis (millis_since_epoch ts) = ts"
    using *(4) by (simp add: wire_time_def)
  then show ?thesis
    using read_chunk_bytes [OF *(2)] read_chunk_bytes [OF *(3)] *(1)
    by (simp add: x snapshot_entry_bytes_eq snapshot_record_def split_at_checked_length codec_simps)
qed

lemma snapshot_record_cut:
  assumes "snapshot_ok x" and "snapshot_entry_bytes x = bs @ lost" and "lost \<noteq> []"
  shows "snapshot_record bs = Inl Truncated"
proof -
  obtain t p ts where x: "x = (t, p, ts)" by (cases x)
  with assms(1) have *: "fits_u32 (as_bytes t)" "fits_u32 p" by (simp_all add: snapshot_ok_def)
  let ?ts = "u64_to_be_bytes (millis_since_epoch ts)"
  from assms(2) have "chunk_bytes (as_bytes t) @ (chunk_bytes p @ ?ts) = bs @ lost"
    by (simp add: x snapshot_entry_bytes_eq)
  then show ?thesis
  proof (cases rule: append_cut)
    case (first l)
    with read_chunk_cut [OF *(1)] show ?thesis by (simp add: snapshot_record_def)
  next
    case (rest bs')
    from rest(2) have "chunk_bytes p @ ?ts = bs' @ lost" by simp
    then show ?thesis
    proof (cases rule: append_cut)
      case (first l)
      with read_chunk_cut [OF *(2)] read_chunk_bytes [OF *(1)] rest(1) show ?thesis
        by (simp add: snapshot_record_def)
    next
      case (rest bs'')
      have "length ?ts = length bs'' + length lost" using rest(2) by simp
      then have "length bs'' < 8" using assms(3) by (cases lost) auto
      then show ?thesis
        using \<open>bs = _ @ bs'\<close> rest(1) read_chunk_bytes [OF *(1)] read_chunk_bytes [OF *(2)]
        by (simp add: snapshot_record_def split_at_checked_def)
    qed
  qed
qed

interpretation snapshot_stream: record_stream snapshot_record snapshot_entry_bytes snapshot_ok
  snapshot_push snapshot_loop "\<lambda>(s, n). (s, Inr n)" "\<lambda>(s, n) e. (s, Inl e)"
proof
  fix st :: "'c RetainedStore \<times> nat" and bs x rest e lost
  show "snapshot_loop st [] = (case st of (s, n) \<Rightarrow> (s, Inr n))"
    by (cases st) (simp add: snapshot_loop.simps)
  show "bs \<noteq> [] \<Longrightarrow> snapshot_record bs = Inr (x, rest) \<Longrightarrow>
      snapshot_loop st bs = snapshot_loop (snapshot_push st x) rest"
    by (cases st; cases x) (simp add: snapshot_loop.simps [of _ _ bs] snapshot_push_def)
  show "bs \<noteq> [] \<Longrightarrow> snapshot_record bs = Inl e \<Longrightarrow>
      snapshot_loop st bs = (case st of (s, n) \<Rightarrow> \<lambda>e. (s, Inl e)) e"
    by (cases st) (simp add: snapshot_loop.simps [of _ _ bs])
  show "snapshot_ok x \<Longrightarrow> snapshot_record (snapshot_entry_bytes x @ rest) = Inr (x, rest)"
    by (rule snapshot_record_entry)
  show "snapshot_ok x \<Longrightarrow> snapshot_entry_bytes x = bs @ lost \<Longrightarrow> bs \<noteq> [] \<Longrightarrow> lost \<noteq> [] \<Longrightarrow>
      snapshot_record bs = Inl Truncated"
    by (rule snapshot_record_cut)
  show "snapshot_entry_bytes x \<noteq> []"
    by (cases x) (auto simp: snapshot_entry_bytes_eq chunk_bytes_def simp flip: length_0_conv)
qed

section \<open>The cache contract\<close>

text \<open>An operation of the store, as a whole, and its effect.\<close>

datatype store_op = OpInsert string bytes system_time | OpRemove string | OpMatch string

definition store_step :: "'c cache_api \<Rightarrow> 'c RetainedStore \<Rightarrow> store_op \<Rightarrow> 'c RetainedStore" where
  "store_step api s op =
     (case op of
        OpInsert t p ts \<Rightarrow> rs_insert api t p ts s
      | OpRemove t \<Rightarrow> rs_remove api t s
      | OpMatch f \<Rightarrow> snd (matching_cached api f s))"

text \<open>Every cached answer is what a scan would return now.\<close>

definition coherent :: "'c cache_api \<Rightarrow> 'c RetainedStore \<Rightarrow> bool" where
  "coherent api s \<longleftrightarrow>
     (\<forall>f v. cache_get api (rs_cache s) f = Some v \<longrightarrow> v = scan_map (rs_map s) f)"

locale match_cache =
  fixes api :: "'c cache_api"
  assumes get_new: "cache_get api (cache_new api n) k = None"
    and get_invalidated: "cache_get api (cache_invalidate_all api c) k = None"
    and get_put: "cache_get api (cache_put api k v c) k' = Some w \<Longrightarrow>
      k' = k \<and> w = v \<or> cache_get api c k' = Some w"
begin

lemma coherent_default: "coherent api (RetainedStore_default api)"
  by (simp add: coherent_def RetainedStore_default_def get_new)

lemma coherent_mutation: "coherent api (rs_insert api t p ts s)" "coherent api (rs_remove api t s)"
  by (simp_all add: coherent_def rs_insert_def rs_remove_def get_invalidated)

lemma matching_cached_scan:
  assumes "coherent api s"
  shows "fst (matching_cached api f s) = scan_map (rs_map s) f"
  using assms
  by (cases "cache_get api (rs_cache s) f") (auto simp: matching_cached_def matching_def coherent_def)

lemma coherent_matching_cached: "coherent api s \<Longrightarrow> coherent api (snd (matching_cached api f s))"
  by (auto simp: matching_cached_def matching_def coherent_def split: option.splits dest!: get_put)

lemma coherent_step: "coherent api s \<Longrightarrow> coherent api (store_step api s op)"
  by (cases op) (simp_all add: store_step_def coherent_mutation coherent_matching_cached)

end

sublocale match_cache \<subseteq> store_runs: transition_system
  "\<lambda>s. s = RetainedStore_default api" "\<lambda>s t. \<exists>op. t = store_step api s op" "coherent api"
  by unfold_locales (auto simp: coherent_default coherent_step)

context match_cache
begin

lemma cached_is_scan:
  assumes "(\<lambda>s t. \<exists>op. t = store_step api s op)\<^sup>*\<^sup>* (RetainedStore_default api) s"
  shows "fst (matching_cached api f s) = fst (matching f s)"
  using matching_cached_scan [OF store_runs.inv_reachable [OF refl assms]] by (simp add: matching_def)

end

text \<open>An unbounded cache with the documented behaviour.\<close>

definition list_cache :: "(string, RetainedEntry list) hashmap cache_api" where
  "list_cache =
     \<lparr>cache_new = (\<lambda>_. []), cache_get = hm_get, cache_put = hm_insert, cache_invalidate_all = (\<lambda>_. [])\<rparr>"

interpretation lc: match_cache list_cache
proof
  fix k k' :: string and v w :: "RetainedEntry list" and c :: "(string, RetainedEntry list) hashmap"
  show "cache_get list_cache (cache_put list_cache k v c) k' = Some w \<Longrightarrow>
      k' = k \<and> w = v \<or> cache_get list_cache c k' = Some w"
    by (auto simp: list_cache_def hm_get_def hm_insert_def update_conv' split: if_splits)
qed (simp_all add: list_cache_def)

section \<open>Concurrent scans and mutations\<close>

text \<open>
  The same operations at the grain of their synchronisation points. A mutation first writes
  the map under its lock and only then invalidates the cache; a cache miss first scans the
  map under the lock and only then stores the result in the cache. \<open>race_scans\<close> are the scans
  whose result is not stored yet, \<open>race_writes\<close> counts the writes whose invalidation is still
  to come.
\<close>

record 'c race =
  race_map :: "(string, bytes \<times> system_time) hashmap"
  race_cache :: 'c
  race_scans :: "(string \<times> RetainedEntry list) list"
  race_writes :: nat

definition race_init :: "'c cache_api \<Rightarrow> 'c race" where
  "race_init api =
     \<lparr>race_map = [], race_cache = cache_new api MATCH_CACHE_CAPACITY, race_scans = [], race_writes = 0\<rparr>"

inductive race_step :: "'c cache_api \<Rightarrow> 'c race \<Rightarrow> 'c race \<Rightarrow> bool" for api where
  scan_start: "cache_get api (race_cache r) f = None \<Longrightarrow>
     race_step api r (r\<lparr>race_scans := (f, scan_map (race_map r) f) # race_scans r\<rparr>)"
| scan_store: "race_scans r = (f, v) # rest \<Longrightarrow>
     race_step api r (r\<lparr>race_scans := rest, race_cache := cache_put api f v (race_cache r)\<rparr>)"
| write_insert: "race_step api r
     (r\<lparr>race_map := hm_insert t (p, ts) (race_map r), race_writes := race_writes r + 1\<rparr>)"
| write_remove: "race_step api r
     (r\<lparr>race_map := hm_remove t (race_map r), race_writes := race_writes r + 1\<rparr>)"
| invalidate: "race_writes r = Suc n \<Longrightarrow>
     race_step api r (r\<lparr>race_writes := n, race_cache := cache_invalidate_all api (race_cache r)\<rparr>)"

section \<open>Lemmas on saving and loading\<close>

lemma foldl_snapshot_push:
  "foldl snapshot_push (s, n) es =
     (s\<lparr>rs_map := foldl (\<lambda>mp (k, v). hm_insert k v mp) (rs_map s) es\<rparr>, n + length es)"
  by (induction es arbitrary: s n) (auto simp: snapshot_push_def)

text \<open>The entries as they are after a round trip through the file.\<close>

definition wire_entry :: "RetainedEntry \<Rightarrow> RetainedEntry" where
  "wire_entry = (\<lambda>(t, p, ts). (t, p, wire_time ts))"

lemma snapshot_bytes_wire: "snapshot_entry_bytes (wire_entry e) = snapshot_entry_bytes e"
  by (cases e) (simp add: wire_entry_def snapshot_entry_bytes_def)

definition storable :: "'c RetainedStore \<Rightarrow> bool" where
  "storable s \<longleftrightarrow> (\<forall>(t, p, ts)\<in>set (rs_map s). rust_string t \<and> fits_u32 t \<and> fits_u32 p)"

lemma snapshot_loop_saved:
  assumes "storable s"
  shows "snapshot_loop (d, 0) (concat (map snapshot_entry_bytes (rs_snapshot s))) =
    (d\<lparr>rs_map := foldl (\<lambda>mp (k, v). hm_insert k v mp) (rs_map d) (map wire_entry (rs_map s))\<rparr>, Inr (rs_len s))"
proof -
  have ok: "\<forall>x\<in>set (map wire_entry (rs_map s)). snapshot_ok x"
    using assms by (auto simp: storable_def snapshot_ok_def wire_entry_def)
  have "map snapshot_entry_bytes (rs_snapshot s) = map snapshot_entry_bytes (map wire_entry (rs_map s))"
    by (simp add: rs_snapshot_eq snapshot_bytes_wire)
  then show ?thesis
    using snapshot_stream.run_concat [OF ok, of "(d, 0)"]
    by (simp add: foldl_snapshot_push rs_len_def)
qed

lemma map_of_wire: "map_of (map wire_entry es) t = map_option (\<lambda>(p, ts). (p, wire_time ts)) (map_of es t)"
  by (induction es) (auto simp: wire_entry_def)

lemma retained_rebuilt:
  assumes "rs_wf s"
  shows "retained (d\<lparr>rs_map := foldl (\<lambda>mp (k, v). hm_insert k v mp) [] (map wire_entry (rs_map s))\<rparr>) t
    = map_option (\<lambda>(p, ts). (p, wire_time ts)) (retained s t)"
proof -
  have "map fst (map wire_entry (rs_map s)) = map fst (rs_map s)"
    by (auto simp: wire_entry_def)
  then have "hm_wf (map wire_entry (rs_map s))"
    using assms by (simp only: rs_wf_def hm_wf_def)
  from hm.get_rebuild [OF this] show ?thesis
    by (simp add: retained_def hm_get_def map_of_wire)
qed

section \<open>Properties\<close>

text \<open>(C31) The snapshot survives a restart: after a save that reported success, loading the file
  into a fresh store succeeds, reports the number of messages saved, and the fresh store
  retains on every topic exactly what the saved one did, with write times cut to the
  millisecond.\<close>

theorem snapshot_roundtrip:
  assumes "rs_wf s" and "storable s" and "fs_wf fs" and "with_extension path ''tmp'' \<noteq> path"
    and "save_snapshot path s fs = (fs', Inr ())" and "\<not> fs_io_fault fs path"
  shows "\<exists>s'. load_snapshot fs' path (RetainedStore_default api) = (s', Inr (rs_len s))
    \<and> (\<forall>t. retained s' t = map_option (\<lambda>(p, ts). (p, wire_time ts)) (retained s t))"
proof -
  let ?body = "concat (map snapshot_entry_bytes (rs_snapshot s))"
  note rep = assms(5) [unfolded save_snapshot_def]
  have "fs_get fs' path = Some (SNAPSHOT_MAGIC @ ?body)" "fs_io_fault fs' = fs_io_fault fs"
    using fs_replace_atomic [OF assms(3,4) rep] fs_replace_frame(2) [OF assms(3) rep] by simp_all
  then have "fs_read fs' path = Inr (SNAPSHOT_MAGIC @ ?body)"
    using assms(6) by (simp add: fs_read_def fs_get_def)
  then have "load_snapshot fs' path (RetainedStore_default api) =
      snapshot_loop (RetainedStore_default api, 0) ?body"
    by (simp add: load_snapshot_def)
  moreover have "rs_map (RetainedStore_default api) = []" by (simp add: RetainedStore_default_def)
  ultimately show ?thesis
    by (simp add: snapshot_loop_saved [OF assms(2)] retained_rebuilt [OF assms(1)])
qed

definition demo_store :: "(string, RetainedEntry list) hashmap RetainedStore" where
  "demo_store = rs_insert list_cache ''plant/kiln1'' [57, 57] 1500000000 (RetainedStore_default list_cache)"

definition empty_fs :: fs where
  "empty_fs = \<lparr>fs_files = [], fs_write_fault = (\<lambda>_. None), fs_io_fault = (\<lambda>_. False)\<rparr>"

lemma demo_store_ok: "rs_wf demo_store" "storable demo_store" "fs_wf empty_fs"
proof -
  show "rs_wf demo_store" by (simp add: demo_store_def)
  show "storable demo_store"
    by (simp add: storable_def demo_store_def rs_insert_def RetainedStore_default_def hm_insert_def
        rust_string_def as_bytes_def char_u8_def fits_u32_def U32_MAX_def)
  show "fs_wf empty_fs" by (simp add: fs_wf_def empty_fs_def)
qed

theorem snapshot_roundtrip_witness:
  "\<exists>s'. load_snapshot (fst (save_snapshot ''d/retained.dat'' demo_store empty_fs)) ''d/retained.dat''
       (RetainedStore_default list_cache) = (s', Inr 1)
     \<and> retained s' ''plant/kiln1'' = Some ([57, 57], 1500000000)"
proof -
  have h: "with_extension ''d/retained.dat'' ''tmp'' \<noteq> ''d/retained.dat''" by code_simp
  have ok: "save_snapshot ''d/retained.dat'' demo_store empty_fs =
      (fst (save_snapshot ''d/retained.dat'' demo_store empty_fs), Inr ())"
    using fs_replace_ok [OF demo_store_ok(3)]
    by (metis (no_types, lifting) save_snapshot_def empty_fs_def fs.select_convs(2,3) fst_conv)
  have r: "rs_len demo_store = 1" "retained demo_store ''plant/kiln1'' = Some ([57, 57], 1500000000)"
    "wire_time 1500000000 = 1500000000"
    by (simp_all add: rs_len_def demo_store_def rs_insert_def RetainedStore_default_def hm_insert_def
        retained_def wire_time_floor)
  from snapshot_roundtrip [OF demo_store_ok(1,2,3) h ok, of list_cache] r show ?thesis
    by (auto simp: empty_fs_def)
qed

text \<open>A snapshot cut off in the middle of a record is detected, not misread: loading it
  reports a truncation, and what was merged before that are exactly the complete records
  in front of the cut.\<close>

theorem snapshot_truncation_detected:
  assumes "\<forall>x\<in>set es. snapshot_ok x" and "snapshot_ok e"
    and "snapshot_entry_bytes e = bs @ lost" and "bs \<noteq> []" and "lost \<noteq> []"
    and "fs_read fs path = Inr (SNAPSHOT_MAGIC @ concat (map snapshot_entry_bytes es) @ bs)"
  shows "load_snapshot fs path s =
    (s\<lparr>rs_map := foldl (\<lambda>mp (k, v). hm_insert k v mp) (rs_map s) es\<rparr>, Inl Truncated)"
  using snapshot_stream.run_cut [OF assms(1-5), of "(s, 0)"] assms(6)
  by (simp add: load_snapshot_def foldl_snapshot_push)

theorem snapshot_truncation_detected_witness:
  "load_snapshot (empty_fs\<lparr>fs_files := [(''f'', SNAPSHOT_MAGIC @ [0, 0, 0, 1, 97, 0])]\<rparr>) ''f''
     (RetainedStore_default list_cache) = (RetainedStore_default list_cache, Inl Truncated)"
proof -
  have h: "snapshot_ok (''a'', [], 0)"
    "snapshot_entry_bytes (''a'', [], 0) = [0, 0, 0, 1, 97, 0] @ [0, 0, 0, 0, 0, 0, 0, 0, 0, 0, 0]"
    by (simp_all add: snapshot_ok_def wire_time_floor rust_string_def as_bytes_def char_u8_def
        fits_u32_def U32_MAX_def snapshot_entry_bytes_def u32_to_be_bytes_def u64_to_be_bytes_def
        millis_since_epoch_def be_bytes_unfold)
  have "fs_read (empty_fs\<lparr>fs_files := [(''f'', SNAPSHOT_MAGIC @ [0, 0, 0, 1, 97, 0])]\<rparr>) ''f'' =
      Inr (SNAPSHOT_MAGIC @ concat (map snapshot_entry_bytes []) @ [0, 0, 0, 1, 97, 0])"
    by (simp add: fs_read_def empty_fs_def)
  from snapshot_truncation_detected [OF _ h _ _ this, of "RetainedStore_default list_cache"]
  show ?thesis by (simp add: RetainedStore_default_def)
qed

text \<open>The match cache is transparent. With any cache that behaves as documented (an entry
  is found only if it was stored after the last invalidation; evictions are free), after any
  sequence of whole inserts, removes and cached look-ups on a fresh store, a cached look-up
  returns what a scan of the current map returns.\<close>

theorem cache_transparent:
  assumes "match_cache api"
    and "(\<lambda>s t. \<exists>op. t = store_step api s op)\<^sup>*\<^sup>* (RetainedStore_default api) s"
  shows "fst (matching_cached api f s) = fst (matching f s)"
  using match_cache.cached_is_scan [OF assms] .


theorem cache_transparent_witness:
  "fst (matching_cached list_cache ''plant/#'' (store_step list_cache (store_step list_cache
      (RetainedStore_default list_cache) (OpMatch ''plant/#'')) (OpInsert ''plant/a'' [1] 0)))
   = [(''plant/a'', [1], 0)]"
proof -
  let ?s = "store_step list_cache (store_step list_cache
      (RetainedStore_default list_cache) (OpMatch ''plant/#'')) (OpInsert ''plant/a'' [1] 0)"
  have "(\<lambda>s t. \<exists>op. t = store_step list_cache s op)\<^sup>*\<^sup>* (RetainedStore_default list_cache) ?s"
    by (blast intro: rtranclp.rtrancl_into_rtrancl)
  from cache_transparent [OF lc.match_cache_axioms this, of "''plant/#''"]
  have "fst (matching_cached list_cache ''plant/#'' ?s) = fst (matching ''plant/#'' ?s)" .
  moreover have "topic_matches ''plant/#'' ''plant/a''" by code_simp
  ultimately show ?thesis
    by (simp add: matching_def store_step_def matching_cached_def rs_insert_def
        RetainedStore_default_def scan_map_def hm_insert_def list_cache_def)
qed

text \<open>(C29) A node that joins late catches up: fed the replies one peer gives to the catch-up
  query, a fresh store retains on every topic exactly what that peer retains, with write
  times at the millisecond of the envelope, in whatever order the peer lists its entries.\<close>

theorem late_joiner_catches_up:
  assumes "rs_wf peer"
  shows "retained (catch_up api scope (RetainedStore_default api) (map Some (serve_query scope peer))) t
    = map_option (\<lambda>(p, ts). (p, wire_time ts)) (retained peer t)"
proof -
  have "map_of (rev (rs_map peer)) = map_of (rs_map peer)"
    using assms by (intro map_of_inject_set [THEN iffD2]) (auto simp: rs_wf_def hm_wf_def rev_map [symmetric])
  moreover have "map Some (serve_query scope peer) =
      map (\<lambda>(t, p, ts). Some (retained_keyexpr t scope, encode_envelope p ts)) (rs_map peer)"
    by (auto simp: serve_query_def rs_snapshot_eq)
  ultimately show ?thesis
    using catch_up_entries [OF rs_default_simps(1), of api scope api "rs_map peer" t]
    by (auto simp: retained_def hm_get_def RetainedStore_default_def split: option.splits)
qed

theorem late_joiner_catches_up_witness:
  "retained (catch_up list_cache ''site'' (RetainedStore_default list_cache)
     (map Some (serve_query ''site'' demo_store))) ''plant/kiln1'' = Some ([57, 57], 1500000000)"
  using late_joiner_catches_up [OF demo_store_ok(1), of list_cache "''site''" "''plant/kiln1''"]
  by (simp add: demo_store_def rs_insert_def RetainedStore_default_def hm_insert_def retained_def wire_time_floor)

text \<open>A failed save cannot damage the last snapshot: if writing or renaming fails, at
  whatever point, loading the snapshot afterwards gives what loading it before gave.\<close>

theorem failed_save_keeps_snapshot:
  assumes "fs_wf fs" and "with_extension path ''tmp'' \<noteq> path" and "save_snapshot path s fs = (fs', Inl e)"
  shows "load_snapshot fs' path d = load_snapshot fs path d"
proof -
  note rep = assms(3) [unfolded save_snapshot_def]
  from fs_replace_atomic [OF assms(1,2) rep] fs_replace_frame(2) [OF assms(1) rep]
  have "fs_read fs' path = fs_read fs path" by (simp add: fs_read_def fs_get_def)
  then show ?thesis by (simp add: load_snapshot_def)
qed

theorem failed_save_keeps_snapshot_witness:
  "load_snapshot (fst (save_snapshot ''d/r.dat'' demo_store (empty_fs\<lparr>fs_write_fault := \<lambda>_. Some 3\<rparr>)))
     ''d/r.dat'' (RetainedStore_default list_cache) = (RetainedStore_default list_cache, Inl IoError)"
proof -
  let ?fs = "empty_fs\<lparr>fs_write_fault := \<lambda>_. Some 3\<rparr>"
  have "fs_wf ?fs" "with_extension ''d/r.dat'' ''tmp'' \<noteq> ''d/r.dat''"
    by (simp add: fs_wf_def empty_fs_def) code_simp
  moreover have "save_snapshot ''d/r.dat'' demo_store ?fs =
      (fst (save_snapshot ''d/r.dat'' demo_store ?fs), Inl IoError)"
    by (simp add: save_snapshot_def fs_replace_def fs_write_def)
  ultimately have "load_snapshot (fst (save_snapshot ''d/r.dat'' demo_store ?fs)) ''d/r.dat'' d =
      load_snapshot ?fs ''d/r.dat'' d" for d :: "(string, RetainedEntry list) hashmap RetainedStore"
    by (rule failed_save_keeps_snapshot)
  then show ?thesis by (simp add: load_snapshot_def fs_read_def empty_fs_def)
qed

definition sample_effect ::
    "string \<Rightarrow> string \<times> SampleKind \<times> bytes \<Rightarrow> (string \<rightharpoonup> bytes \<times> system_time) \<Rightarrow> (string \<rightharpoonup> bytes \<times> system_time)" where
  "sample_effect scope x m =
     (case x of (ke, kind, raw) \<Rightarrow>
       (case (retained_keyexpr_to_topic ke scope, kind, decode_envelope raw) of
          (Some t, Put, Some v) \<Rightarrow> m(t \<mapsto> v)
        | (Some t, Delete, _) \<Rightarrow> m(t := None)
        | _ \<Rightarrow> m))"

lemma on_retained_sample_effect:
  assumes "rs_wf s"
  shows "rs_wf (on_retained_sample api scope ke kind raw s)
    \<and> retained (on_retained_sample api scope ke kind raw s) = sample_effect scope (ke, kind, raw) (retained s)"
  using assms
  by (auto simp: on_retained_sample_def sample_effect_def split: option.split SampleKind.split)

lemma samples_effect:
  "rs_wf s \<Longrightarrow>
     retained (foldl (\<lambda>s (ke, kind, raw). on_retained_sample api scope ke kind raw s) s xs) =
     foldl (\<lambda>m x. sample_effect scope x m) (retained s) xs"
  by (induction xs arbitrary: s) (auto simp: on_retained_sample_effect)


text \<open>The samples of one topic's slot.\<close>

definition slot_samples :: "string \<Rightarrow> string \<Rightarrow> (string \<times> SampleKind \<times> bytes) list \<Rightarrow> (string \<times> SampleKind \<times> bytes) list" where
  "slot_samples scope t xs = filter (\<lambda>(ke, _, _). retained_keyexpr_to_topic ke scope = Some t) xs"

lemma samples_slot:
  "m t = m' t \<Longrightarrow>
     foldl (\<lambda>m x. sample_effect scope x m) m xs t = foldl (\<lambda>m x. sample_effect scope x m) m' (slot_samples scope t xs) t"
proof (induction xs arbitrary: m m')
  case (Cons x xs)
  obtain ke kind raw where x: "x = (ke, kind, raw)" by (cases x)
  show ?case
  proof (cases "retained_keyexpr_to_topic ke scope = Some t")
    case True
    then have "sample_effect scope x m t = sample_effect scope x m' t"
      using Cons.prems by (simp add: sample_effect_def x split: SampleKind.split option.split)
    from Cons.IH [where m = "sample_effect scope x m" and m' = "sample_effect scope x m'", OF this] True show ?thesis by (simp add: slot_samples_def x)
  next
    case False
    then have "sample_effect scope x m t = m' t"
      using Cons.prems by (auto simp: sample_effect_def x split: SampleKind.split option.split)
    from Cons.IH [where m = "sample_effect scope x m" and m' = m', OF this] False show ?thesis by (simp add: slot_samples_def x)
  qed
qed (simp add: slot_samples_def)

lemma samples_rs_wf:
  "rs_wf s \<Longrightarrow> rs_wf (foldl (\<lambda>s (ke, kind, raw). on_retained_sample api scope ke kind raw s) s xs)"
  by (induction xs arbitrary: s) (auto simp: on_retained_sample_effect)



text \<open>Catch-up is not last-writer-wins on the write time: a reply carrying an older value
  replaces a fresher one the store already has.\<close>

theorem catch_up_may_regress:
  "\<exists>s reply t fresh old. retained s t = Some fresh
     \<and> retained (catch_up list_cache '''' s [Some reply]) t = Some old \<and> snd old < snd fresh"
proof -
  let ?s = "rs_insert list_cache ''a'' [2] 5000000 (RetainedStore_default list_cache)"
  let ?r = "(retained_keyexpr ''a'' '''', encode_envelope [1] 3000000)"
  have "retained (catch_up list_cache '''' ?s [Some ?r]) ''a'' = Some ([1], 3000000)"
    by (simp add: catch_up_def on_catch_up_reply_get wire_time_floor)
  moreover have "retained ?s ''a'' = Some ([2], 5000000)" by simp
  ultimately show ?thesis
    by (intro exI [of _ ?s] exI [of _ ?r] exI [of _ "''a''"] exI [of _ "([2], 5000000)"]
        exI [of _ "([1], 3000000)"]) simp
qed

lemma stale_cache_run:
  defines "r0 \<equiv> race_init list_cache"
  defines "r1 \<equiv> r0\<lparr>race_scans := (''#'', scan_map (race_map r0) ''#'') # race_scans r0\<rparr>"
  defines "r2 \<equiv> r1\<lparr>race_map := hm_insert ''a'' ([1], 0) (race_map r1), race_writes := race_writes r1 + 1\<rparr>"
  defines "r3 \<equiv> r2\<lparr>race_writes := 0, race_cache := cache_invalidate_all list_cache (race_cache r2)\<rparr>"
  defines "r4 \<equiv> r3\<lparr>race_scans := [], race_cache := cache_put list_cache ''#'' [] (race_cache r3)\<rparr>"
  shows "(race_step list_cache)\<^sup>*\<^sup>* r0 r4"
proof -
  have "cache_get list_cache (race_cache r0) ''#'' = None"
    by (simp add: r0_def race_init_def lc.get_new)
  then have "race_step list_cache r0 r1" unfolding r1_def by (rule scan_start)
  moreover have "race_step list_cache r1 r2" unfolding r2_def by (rule write_insert)
  moreover have "race_writes r2 = Suc 0" by (simp add: r2_def r1_def r0_def race_init_def)
  then have "race_step list_cache r2 r3" unfolding r3_def by (rule invalidate)
  moreover have "race_scans r3 = (''#'', []) # []"
    by (simp add: r3_def r2_def r1_def r0_def race_init_def scan_map_def)
  then have "race_step list_cache r3 r4" unfolding r4_def by (rule scan_store)
  ultimately show ?thesis by (intro converse_rtranclp_into_rtranclp [of _ r0 r1] converse_rtranclp_into_rtranclp [of _ r1 r2]
      converse_rtranclp_into_rtranclp [of _ r2 r3] r_into_rtranclp)
qed

text \<open>At the grain of the locks the cache can serve an answer older than the last write: a
  look-up that scanned before a write may store its result after the write's invalidation.
  Nothing is pending at the end, and the stale answer is what the next look-up returns.\<close>

theorem stale_cache_reachable:
  "\<exists>r f v. (race_step list_cache)\<^sup>*\<^sup>* (race_init list_cache) r \<and> race_writes r = 0 \<and> race_scans r = []
     \<and> cache_get list_cache (race_cache r) f = Some v \<and> v \<noteq> scan_map (race_map r) f"
proof -
  let ?r = "\<lparr>race_map = [(''a'', ([1], 0))], race_cache = [(''#'', [])], race_scans = [], race_writes = 0\<rparr>"
  have "(race_step list_cache)\<^sup>*\<^sup>* (race_init list_cache) ?r"
    using stale_cache_run by (simp add: race_init_def list_cache_def hm_insert_def)
  moreover have "scan_map (race_map ?r) ''#'' = [(''a'', [1], 0)]" by code_simp
  moreover have "cache_get list_cache (race_cache ?r) ''#'' = Some []" by (simp add: list_cache_def)
  ultimately show ?thesis
    by (intro exI [of _ ?r] exI [of _ "''#''"] exI [of _ "[]"] conjI) simp_all
qed

text \<open>A save that fails is not retried: the tick clears the dirty flag before it saves, so
  if the save fails every later tick leaves the file alone until the next mutation.\<close>

theorem failed_save_not_retried:
  assumes "rs_dirty s" and "save_snapshot path (s\<lparr>rs_dirty := False\<rparr>) fs = (fs', Inl e)"
  shows "persist_tick path (s, fs) = (s\<lparr>rs_dirty := False\<rparr>, fs')
    \<and> persist_tick path (s\<lparr>rs_dirty := False\<rparr>, healed) = (s\<lparr>rs_dirty := False\<rparr>, healed)"
  using assms by (simp add: persist_tick_def take_dirty_def)

theorem failed_save_not_retried_witness:
  "persist_tick ''f'' (demo_store\<lparr>rs_dirty := False\<rparr>, empty_fs) = (demo_store\<lparr>rs_dirty := False\<rparr>, empty_fs)
   \<and> fst (persist_tick ''f'' (demo_store, empty_fs\<lparr>fs_write_fault := \<lambda>_. Some 0\<rparr>)) = demo_store\<lparr>rs_dirty := False\<rparr>"
proof -
  let ?fs = "empty_fs\<lparr>fs_write_fault := \<lambda>_. Some 0\<rparr>"
  have "rs_dirty demo_store" by (simp add: demo_store_def)
  moreover have "save_snapshot ''f'' (demo_store\<lparr>rs_dirty := False\<rparr>) ?fs =
      (fst (save_snapshot ''f'' (demo_store\<lparr>rs_dirty := False\<rparr>) ?fs), Inl IoError)"
    by (simp add: save_snapshot_def fs_replace_def fs_write_def)
  ultimately show ?thesis using failed_save_not_retried by fastforce
qed

end
