(* ===== verification/Admission.thy ===== *)
theory Admission
  imports Config Complex_Main
begin

text \<open>
  The two rate limits of the node: \<open>ConnectAdmission\<close>
  (\<open>crates/entmoot-node/src/admission.rs\<close>) and the per-connection \<open>RateLimiter\<close>
  (\<open>crates/entmoot-node/src/connection.rs\<close>).

  The limiter behind the first is the \<open>governor\<close> crate, an argument of the model; the locale
  \<open>governor\<close> states the documented behaviour of a direct limiter with a quota, and the cell
  rate algorithm the crate documents is shown to satisfy it. The second computes with
  \<open>f64\<close>: reals here, with the rounding of each operation an argument \<open>rnd\<close>, of which the
  lemmas use what IEEE 754 gives: it is monotone and leaves integers below \<open>2^53\<close> alone.
\<close>

section \<open>Definitions\<close>

subsection \<open>Connect admission\<close>

text \<open>\<open>RateLimiter::direct(Quota::per_second(rate).allow_burst(burst))\<close> and \<open>check\<close>.\<close>

record 'l governor_api =
  gov_direct :: "u32 \<Rightarrow> u32 \<Rightarrow> 'l"
  gov_check :: "instant \<Rightarrow> 'l \<Rightarrow> bool \<times> 'l"

definition ConnectAdmission_new :: "'l governor_api \<Rightarrow> u32 \<Rightarrow> u32 \<Rightarrow> 'l option" where
  "ConnectAdmission_new api rate_per_sec burst =
     (if rate_per_sec = 0 then None else Some (gov_direct api rate_per_sec (max burst rate_per_sec)))"

definition admit :: "'l governor_api \<Rightarrow> instant \<Rightarrow> 'l option \<Rightarrow> bool \<times> 'l option" where
  "admit api now limiter =
     (case limiter of
        None \<Rightarrow> (True, None)
      | Some l \<Rightarrow> (case gov_check api now l of (ok, l) \<Rightarrow> (ok, Some l)))"

text \<open>The answers to a sequence of CONNECTs at the given times.\<close>

fun admits :: "'l governor_api \<Rightarrow> 'l option \<Rightarrow> instant list \<Rightarrow> bool list" where
  "admits api limiter [] = []"
| "admits api limiter (t # ts) = (case admit api t limiter of (ok, limiter) \<Rightarrow> ok # admits api limiter ts)"

subsection \<open>Publish rate\<close>

record RateLimiter =
  rl_rate :: real
  rl_tokens :: real
  rl_last :: instant

definition RateLimiter_new :: "u32 \<Rightarrow> instant \<Rightarrow> RateLimiter" where
  "RateLimiter_new rate_per_sec now =
     \<lparr>rl_rate = real (unat rate_per_sec), rl_tokens = real (unat rate_per_sec), rl_last = now\<rparr>"

definition as_secs_f64 :: "(real \<Rightarrow> real) \<Rightarrow> duration \<Rightarrow> real" where
  "as_secs_f64 rnd d = rnd (real d / 10 ^ 9)"

definition allow :: "(real \<Rightarrow> real) \<Rightarrow> instant \<Rightarrow> RateLimiter \<Rightarrow> bool \<times> RateLimiter" where
  "allow rnd now self =
     (if rl_rate self = 0 then (True, self)
      else
        (let tokens = min (rnd (rl_tokens self + rnd (rl_rate self * as_secs_f64 rnd (now - rl_last self))))
                          (rl_rate self)
         in if tokens \<ge> 1 then (True, self\<lparr>rl_tokens := rnd (tokens - 1), rl_last := now\<rparr>)
            else (False, self\<lparr>rl_tokens := tokens, rl_last := now\<rparr>)))"

fun allows :: "(real \<Rightarrow> real) \<Rightarrow> RateLimiter \<Rightarrow> instant list \<Rightarrow> bool list" where
  "allows rnd self [] = []"
| "allows rnd self (t # ts) = (case allow rnd t self of (ok, self) \<Rightarrow> ok # allows rnd self ts)"

section \<open>The limiter's contract\<close>

text \<open>The interval at which one cell is replenished: a second divided by the rate, in whole
  nanoseconds.\<close>

definition replenish_interval :: "u32 \<Rightarrow> nat" where
  "replenish_interval rate = 10 ^ 9 div unat rate"

fun checks :: "(instant \<Rightarrow> 'l \<Rightarrow> bool \<times> 'l) \<Rightarrow> 'l \<Rightarrow> instant list \<Rightarrow> bool list" where
  "checks check l [] = []"
| "checks check l (t # ts) = (case check t l of (ok, l) \<Rightarrow> ok # checks check l ts)"

definition accepted :: "bool list \<Rightarrow> nat" where
  "accepted bs = length (filter (\<lambda>b. b) bs)"

locale governor =
  fixes api :: "'l governor_api"
  assumes burst_bound: "rate \<noteq> 0 \<Longrightarrow> burst \<noteq> 0 \<Longrightarrow> sorted (t # ts) \<Longrightarrow>
      accepted (checks (gov_check api) (gov_direct api rate burst) (t # ts)) * replenish_interval rate
        \<le> unat burst * replenish_interval rate + (last (t # ts) - t)"
    and burst_available: "rate \<noteq> 0 \<Longrightarrow> burst \<noteq> 0 \<Longrightarrow> n \<le> unat burst \<Longrightarrow>
      checks (gov_check api) (gov_direct api rate burst) (replicate n t) = replicate n True"
begin

lemma admits_checks: "admits api (Some l) ts = checks (gov_check api) l ts"
  by (induction ts arbitrary: l) (auto simp: admit_def split: prod.split)

lemma max_nonzero: "rate \<noteq> 0 \<Longrightarrow> max burst rate \<noteq> (0 :: u32)"
  by (auto simp: max_def)

lemma admission_bound:
  assumes "rate \<noteq> 0" and "sorted (t # ts)"
  shows "accepted (admits api (ConnectAdmission_new api rate burst) (t # ts)) * replenish_interval rate
    \<le> unat (max burst rate) * replenish_interval rate + (last (t # ts) - t)"
  using burst_bound [OF assms(1) max_nonzero [OF assms(1)] assms(2)] assms(1)
  by (simp only: ConnectAdmission_new_def admits_checks if_False)

lemma admission_burst:
  assumes "rate \<noteq> 0" and "n \<le> unat (max burst rate)"
  shows "admits api (ConnectAdmission_new api rate burst) (replicate n t) = replicate n True"
  using burst_available [OF assms(1) max_nonzero [OF assms(1)] assms(2)] assms(1)
  by (simp only: ConnectAdmission_new_def admits_checks if_False)

end

section \<open>The generic cell rate algorithm\<close>

record gcra =
  gc_interval :: nat
  gc_burst :: nat
  gc_tat :: "nat option"

definition gcra_check :: "instant \<Rightarrow> gcra \<Rightarrow> bool \<times> gcra" where
  "gcra_check now l =
     (let tat = max (case gc_tat l of None \<Rightarrow> now | Some a \<Rightarrow> a) now
      in if tat - now \<le> (gc_burst l - 1) * gc_interval l
         then (True, l\<lparr>gc_tat := Some (tat + gc_interval l)\<rparr>) else (False, l))"

definition gcra_api :: "gcra governor_api" where
  "gcra_api = \<lparr>gov_direct = (\<lambda>rate burst.
      \<lparr>gc_interval = replenish_interval rate, gc_burst = unat burst, gc_tat = None\<rparr>), gov_check = gcra_check\<rparr>"

text \<open>What \<open>k\<close> acceptances since time \<open>t0\<close> say of the arrival time.\<close>

lemma accepted_Cons: "accepted (b # bs) = (if b then Suc (accepted bs) else accepted bs)"
  by (simp add: accepted_def)

lemma gcra_bound_from:
  assumes "sorted (t # ts)" and "0 < gc_burst l" and "gc_tat l = Some a" and "t0 + k * gc_interval l \<le> a" and "t0 \<le> t"
    and "0 < accepted (checks gcra_check l (t # ts))"
  shows "(k + accepted (checks gcra_check l (t # ts))) * gc_interval l
    \<le> gc_burst l * gc_interval l + (last (t # ts) - t0)"
  using assms
proof (induction ts arbitrary: t l a k)
  case Nil
  then have ok: "max a t - t \<le> (gc_burst l - 1) * gc_interval l"
    by (auto simp: gcra_check_def accepted_def Let_def split: if_splits)
  have "t0 + k * gc_interval l \<le> t + (gc_burst l - 1) * gc_interval l" using ok Nil(4,5) by linarith
  moreover have "gc_burst l * gc_interval l = (gc_burst l - 1) * gc_interval l + gc_interval l"
    using Nil(2) by (cases "gc_burst l") auto
  ultimately show ?case using Nil
    by (auto simp: gcra_check_def accepted_def Let_def split: if_splits)
next
  case (Cons t' ts)
  show ?case
  proof (cases "max a t - t \<le> (gc_burst l - 1) * gc_interval l")
    case True
    let ?l = "l\<lparr>gc_tat := Some (max a t + gc_interval l)\<rparr>"
    have c: "gcra_check t l = (True, ?l)" using True Cons.prems(3) by (simp add: gcra_check_def)
    show ?thesis
    proof (cases "0 < accepted (checks gcra_check ?l (t' # ts))")
      case pos: True
      have "t0 + Suc k * gc_interval ?l \<le> max a t + gc_interval l" using Cons.prems(4) by simp
      with Cons.IH [of t' ?l "max a t + gc_interval l" "Suc k"] Cons.prems pos
      have "(Suc k + accepted (checks gcra_check ?l (t' # ts))) * gc_interval l
          \<le> gc_burst l * gc_interval l + (last (t' # ts) - t0)" by auto
      then show ?thesis
        unfolding checks.simps(2) [of gcra_check l t] c prod.case accepted_Cons by simp
    next
      case False
      have "t \<le> last (t' # ts)" using Cons.prems(1) by (auto simp: last_in_set)
      moreover have "t0 + k * gc_interval l \<le> t + (gc_burst l - 1) * gc_interval l"
        using True Cons.prems(4,5) by linarith
      moreover have "gc_burst l * gc_interval l = (gc_burst l - 1) * gc_interval l + gc_interval l"
        using Cons.prems(2) by (cases "gc_burst l") auto
      ultimately have "Suc k * gc_interval l \<le> gc_burst l * gc_interval l + (last (t' # ts) - t0)"
        using Cons.prems(5) by simp
      then show ?thesis
        using False unfolding checks.simps(2) [of gcra_check l t] c prod.case accepted_Cons by simp
    qed
  next
    case False
    then have c: "gcra_check t l = (False, l)" using Cons.prems(3) by (simp add: gcra_check_def)
    have "0 < accepted (checks gcra_check l (t' # ts))"
      using Cons.prems(6) unfolding checks.simps(2) [of gcra_check l t] c prod.case accepted_Cons by simp
    with Cons.IH [of t' l a k] Cons.prems show ?thesis
      unfolding checks.simps(2) [of gcra_check l t] c prod.case accepted_Cons by simp
  qed
qed

lemma gcra_burst_from:
  "gc_tat l = Some (t + j * gc_interval l) \<Longrightarrow> j + n \<le> gc_burst l \<Longrightarrow>
     checks gcra_check l (replicate n t) = replicate n True"
proof (induction n arbitrary: j l)
  case (Suc n)
  have "j * gc_interval l \<le> (gc_burst l - 1) * gc_interval l"
    using Suc.prems(2) by (intro mult_right_mono) auto
  then have c: "gcra_check t l = (True, l\<lparr>gc_tat := Some (t + Suc j * gc_interval l)\<rparr>)"
    using Suc.prems(1) by (simp add: gcra_check_def algebra_simps)
  from Suc.IH [of "l\<lparr>gc_tat := Some (t + Suc j * gc_interval l)\<rparr>" "Suc j"] Suc.prems(2) c show ?case by simp
qed simp

interpretation gcra: governor gcra_api
proof
  fix rate burst :: u32 and t :: instant and ts n
  let ?l = "gov_direct gcra_api rate burst" and ?T = "replenish_interval rate"
  let ?l1 = "?l\<lparr>gc_tat := Some (t + ?T)\<rparr>"
  have first: "gcra_check t ?l = (True, ?l1)" by (simp add: gcra_check_def gcra_api_def)
  have check: "gov_check gcra_api = gcra_check" by (simp add: gcra_api_def)
  have l: "gc_interval ?l1 = ?T" "gc_burst ?l1 = unat burst" "gc_tat ?l1 = Some (t + ?T)"
    by (simp_all add: gcra_api_def)
  assume "burst \<noteq> 0"
  then have pos: "0 < unat burst" by (simp add: unat_gt_0)
  {
    assume srt: "sorted (t # ts)"
    have one: "?T \<le> unat burst * ?T" using pos by (cases "unat burst") auto
    show "accepted (checks (gov_check gcra_api) ?l (t # ts)) * ?T \<le> unat burst * ?T + (last (t # ts) - t)"
    proof (cases "\<exists>t' ts'. ts = t' # ts' \<and> 0 < accepted (checks gcra_check ?l1 ts)")
      case True
      then obtain t' ts' where ts: "ts = t' # ts'" "0 < accepted (checks gcra_check ?l1 (t' # ts'))" by blast
      from gcra_bound_from [OF _ _ l(3), of t' ts' t 1] srt pos ts l
      have "(1 + accepted (checks gcra_check ?l1 ts)) * ?T \<le> unat burst * ?T + (last ts - t)" by simp
      then show ?thesis using ts(1) by (simp add: check first accepted_Cons)
    next
      case False
      then have "accepted (checks gcra_check ?l1 ts) = 0" by (cases ts) (auto simp: accepted_def)
      with one trans_le_add1 [OF one] show ?thesis by (simp add: check first accepted_Cons)
    qed
  }
  {
    assume "n \<le> unat burst"
    then show "checks (gov_check gcra_api) ?l (replicate n t) = replicate n True"
      using gcra_burst_from [of ?l1 t 1 "n - 1"] l first by (cases n) (simp_all add: check)
  }
qed

section \<open>Token bucket lemmas\<close>

declare of_nat_unat [simp del]

text \<open>What the lemmas use of IEEE rounding.\<close>

definition rounding :: "(real \<Rightarrow> real) \<Rightarrow> bool" where
  "rounding rnd \<longleftrightarrow> mono rnd \<and> (\<forall>n::nat. n \<le> 2 ^ 53 \<longrightarrow> rnd (real n) = real n)"

lemma rounding_id: "rounding (\<lambda>x. x)"
  by (simp add: rounding_def mono_def)

lemma u32_f64: "rounding rnd \<Longrightarrow> rnd (real (unat (w :: u32))) = real (unat w)"
  using unsigned_less [of w, where ?'a = nat] by (simp add: rounding_def)

definition bucket_inv :: "u32 \<Rightarrow> RateLimiter \<Rightarrow> bool" where
  "bucket_inv rate self \<longleftrightarrow> rl_rate self = real (unat rate) \<and> 0 \<le> rl_tokens self \<and> rl_tokens self \<le> rl_rate self"

lemma bucket_new: "bucket_inv rate (RateLimiter_new rate now)"
  by (simp add: bucket_inv_def RateLimiter_new_def)

lemma rounding_nonneg: "rounding rnd \<Longrightarrow> 0 \<le> x \<Longrightarrow> 0 \<le> rnd x"
  using monoD [of rnd 0 x] by (auto simp: rounding_def dest: spec [of _ 0])

lemma allow_bucket:
  assumes "rounding rnd" and "bucket_inv rate self"
  shows "bucket_inv rate (snd (allow rnd now self))"
proof -
  let ?r = "real (unat rate)"
  have r: "rl_rate self = ?r" "0 \<le> rl_tokens self" using assms(2) by (auto simp: bucket_inv_def)
  let ?t = "min (rnd (rl_tokens self + rnd (?r * as_secs_f64 rnd (now - rl_last self)))) ?r"
  have "0 \<le> as_secs_f64 rnd d" for d using rounding_nonneg [OF assms(1)] by (simp add: as_secs_f64_def)
  then have t: "0 \<le> ?t" using rounding_nonneg [OF assms(1)] r(2) by simp
  moreover have "rnd (?t - 1) \<le> ?r"
    using assms(1) u32_f64 [OF assms(1)] monoD [of rnd "?t - 1" ?r] by (simp add: rounding_def)
  moreover have "1 \<le> ?t \<Longrightarrow> 0 \<le> rnd (?t - 1)" using rounding_nonneg [OF assms(1)] by simp
  ultimately show ?thesis using assms(2) r by (simp add: allow_def Let_def bucket_inv_def)
qed

text \<open>A bucket with a whole number of tokens and no time passing.\<close>

lemma allow_at_once:
  assumes "rounding rnd" and "rl_rate self = real (unat (rate :: u32))" and "rate \<noteq> 0"
    and "rl_tokens self = real k" and "k \<le> unat rate" and "rl_last self = now"
  shows "allow rnd now self = (0 < k, self\<lparr>rl_tokens := real (k - 1)\<rparr>)"
proof -
  have exact: "n \<le> unat rate \<Longrightarrow> rnd (real n) = real n" for n
    using assms(1) unsigned_less [of rate, where ?'a = nat] by (simp add: rounding_def)
  have z: "rnd 0 = 0" using exact [of 0] by simp
  have "min (rnd (real k + rnd (real (unat rate) * as_secs_f64 rnd 0))) (real (unat rate)) = real k"
    using assms(5) by (simp add: as_secs_f64_def z exact)
  moreover have "0 < k \<Longrightarrow> rnd (real k - 1) = real (k - 1)" using exact [of "k - 1"] assms(5) by (simp add: of_nat_diff)
  moreover have "real (unat rate) \<noteq> 0" using assms(3) by (simp add: unat_eq_0)
  ultimately show ?thesis
    using assms(2,4,6) by (cases "k = 0") (simp_all add: allow_def Let_def)
qed

lemma allows_at_once:
  assumes "rounding rnd" and "rate \<noteq> 0"
  shows "rl_rate self = real (unat (rate :: u32)) \<Longrightarrow> rl_tokens self = real k \<Longrightarrow> k \<le> unat rate \<Longrightarrow> rl_last self = now \<Longrightarrow>
    allows rnd self (replicate n now) = replicate (min n k) True @ replicate (n - k) False"
proof (induction n arbitrary: k self)
  case (Suc n)
  note a = allow_at_once [OF assms(1) Suc.prems(1) assms(2) Suc.prems(2-4)]
  from Suc.IH [of "self\<lparr>rl_tokens := real (k - 1)\<rparr>" "k - 1"] Suc.prems
  have "allows rnd (self\<lparr>rl_tokens := real (k - 1)\<rparr>) (replicate n now) =
      replicate (min n (k - 1)) True @ replicate (n - (k - 1)) False" by simp
  then show ?case by (cases k) (simp_all add: a)
qed simp

section \<open>Properties\<close>



text \<open>A publisher can never save up more than one second's worth: whatever the times of its
  publishes, the token count stays between 0 and the configured rate, and of any number of
  publishes at the moment of connecting exactly the first \<open>rate\<close> pass.\<close>

theorem publish_rate_bounded:
  assumes "rounding rnd" and "rate \<noteq> 0"
  shows "bucket_inv rate (snd (foldl (\<lambda>(_, l) t. allow rnd t l) (True, RateLimiter_new rate now) ts))
    \<and> allows rnd (RateLimiter_new rate now) (replicate n now) =
        replicate (min n (unat rate)) True @ replicate (n - unat rate) False"
proof -
  have "bucket_inv rate l \<Longrightarrow> bucket_inv rate (snd (foldl (\<lambda>(_, l) t. allow rnd t l) (b, l) ts))" for b l
  proof (induction ts arbitrary: b l)
    case (Cons t ts)
    with Cons.IH [of "snd (allow rnd t l)" "fst (allow rnd t l)"] allow_bucket [OF assms(1)] show ?case by simp
  qed simp
  with bucket_new allows_at_once [OF assms, of "RateLimiter_new rate now" "unat rate" now n] show ?thesis
    by (simp add: RateLimiter_new_def)
qed

theorem publish_rate_bounded_witness:
  "allows (\<lambda>x. x) (RateLimiter_new 2 9) (replicate 3 9) = replicate 2 True @ [False]"
  using publish_rate_bounded [OF rounding_id, of 2 9 "[]" 3] by simp

end
