(* ===== verification/Connection.thy ===== *)
theory Connection
  imports Registry Retained Admission
begin

text \<open>
  \<open>crates/entmoot-node/src/connection.rs\<close>: the life of one MQTT connection, from CONNECT to the
  last will, over the broker of \<open>crates/entmoot-node/src/lib.rs\<close>.

  The packets are those of the \<open>mqttbytes\<close> crate, with the fields the code reads or writes. What
  is outside the repository is the record \<open>('c, 'l) extern\<close>: the match cache, the governor, the
  digest, the rounding of \<open>f64\<close>, and the bus (does it accept a put, a delete, a subscriber).
  What the node writes to the bus is recorded in \<open>b_bus\<close>. The writer task of the connection
  takes some number of packets, \<open>cn_room\<close>, and is gone then; \<open>cn_out\<close> are the packets it took.
  Each handler reads the clocks once, as its argument \<open>now\<close> (monotonic, wall).
\<close>

section \<open>Definitions\<close>

fun show_nat :: "nat \<Rightarrow> string" where
  "show_nat n = (if n < 10 then [char_of (48 + n)] else show_nat (n div 10) @ [char_of (48 + n mod 10)])"

declare show_nat.simps [simp del]

subsection \<open>Packets\<close>

record LastWill =
  lw_topic :: string
  lw_message :: bytes
  lw_retain :: bool

record Connect =
  cp_client_id :: string
  cp_clean_session :: bool
  cp_keep_alive :: u16
  cp_login :: "(string \<times> string) option"
  cp_last_will :: "LastWill option"

datatype ConnectReturnCode = Success | BadUserNamePassword | NotAuthorized | ServiceUnavailable

datatype SubscribeReasonCode = SubSuccess QoS | SubFailure

datatype Packet =
    PConnect Connect
  | PConnAck ConnectReturnCode bool
  | PPublish Publish
  | PPubAck u16
  | PPubRec u16
  | PPubRel u16
  | PPubComp u16
  | PSubscribe u16 "(string \<times> QoS) list"
  | PSubAck u16 "SubscribeReasonCode list"
  | PUnsubscribe u16 "string list"
  | PUnsubAck u16
  | PPingReq
  | PPingResp
  | PDisconnect

subsection \<open>Broker and connection\<close>

datatype bus_op = BusPut string bytes | BusDelete string

record ('c, 'l) extern =
  x_cache :: "'c cache_api"
  x_governor :: "'l governor_api"
  x_digest :: "bytes \<Rightarrow> bytes"
  x_rnd :: "real \<Rightarrow> real"
  x_bus :: "bus_op \<Rightarrow> bool"
  x_declare :: "string \<Rightarrow> bool"

record ('c, 'l) Broker =
  b_cfg :: NodeConfig
  b_auth :: Authenticator
  b_acl :: Acl
  b_retained :: "'c RetainedStore"
  b_store :: store
  b_admission :: "'l option"
  b_staleness :: StalenessPolicy
  b_conn_count :: u64
  b_bus :: "bus_op list"

record Client =
  cl_session :: nat
  cl_id :: string
  cl_identity :: string
  cl_keep_alive :: u16
  cl_will :: "LastWill option"
  cl_rate :: RateLimiter
  cl_inflight :: "u16 list"

record ('c, 'l) conn =
  cn_client :: Client
  cn_broker :: "('c, 'l) Broker"
  cn_out :: "Packet list"
  cn_room :: nat

datatype ConnError =
    RateExceeded
  | InvalidTopic TopicError
  | BusError
  | WriterClosed
  | KeepAliveExpired
  | Kicked string
  | ReadError
  | DuplicateConnect
  | Unexpected Packet
  | NotConnect
  | ConnectTimeout
  | NoSession

type_synonym clocks = "instant \<times> system_time"

definition count :: "((u64 \<Rightarrow> u64) \<Rightarrow> Metrics \<Rightarrow> Metrics) \<Rightarrow> ('c, 'l) Broker \<Rightarrow> ('c, 'l) Broker" where
  "count c b =
     (let st = b_store b; e = st_env st
      in b\<lparr>b_store := st\<lparr>st_env := e\<lparr>env_metrics := bump c (env_metrics e)\<rparr>\<rparr>\<rparr>)"

text \<open>\<open>session.put\<close> and \<open>session.delete\<close>: whether the bus took it, and that it did.\<close>

definition bus_write :: "('c, 'l) extern \<Rightarrow> bus_op \<Rightarrow> ('c, 'l) Broker \<Rightarrow> bool \<times> ('c, 'l) Broker" where
  "bus_write x w b = (if x_bus x w then (True, b\<lparr>b_bus := b_bus b @ [w]\<rparr>) else (False, b))"

definition on_broker :: "(('c, 'l) Broker \<Rightarrow> ('c, 'l) Broker) \<Rightarrow> ('c, 'l) conn \<Rightarrow> ('c, 'l) conn" where
  "on_broker f cn = cn\<lparr>cn_broker := f (cn_broker cn)\<rparr>"

definition send :: "Packet \<Rightarrow> ('c, 'l) conn \<Rightarrow> (ConnError, unit) result \<times> ('c, 'l) conn" where
  "send p cn =
     (if cn_room cn = 0 then (Inl WriterClosed, cn)
      else (Inr (), cn\<lparr>cn_out := cn_out cn @ [p], cn_room := cn_room cn - 1\<rparr>))"

definition client_event_key :: "NodeConfig \<Rightarrow> string \<Rightarrow> string" where
  "client_event_key cfg cid = meta_keyexpr (''clients/'' @ cfg_id cfg @ ''/'' @ cid) (cfg_scope cfg)"

definition publish_client_event ::
    "('c, 'l) extern \<Rightarrow> string \<Rightarrow> string \<Rightarrow> ('c, 'l) Broker \<Rightarrow> ('c, 'l) Broker" where
  "publish_client_event x cid event b =
     snd (bus_write x (BusPut (client_event_key (b_cfg b) cid) (as_bytes event)) b)"

definition client_next_pkid :: "('c, 'l) conn \<Rightarrow> u16 \<times> ('c, 'l) conn" where
  "client_next_pkid cn =
     (let b = cn_broker cn; st = b_store b; r = cl_session (cn_client cn)
      in case hm_get (st_heap st) r of
           None \<Rightarrow> (0, cn)
         | Some s \<Rightarrow>
             (case next_pkid s of
                (n, s) \<Rightarrow> (n, cn\<lparr>cn_broker := b\<lparr>b_store := st\<lparr>st_heap := hm_insert r s (st_heap st)\<rparr>\<rparr>\<rparr>)))"

subsection \<open>Publishing\<close>

text \<open>The writes of an accepted publish: the live key, then the retained slot.\<close>

definition retained_write :: "string \<Rightarrow> system_time \<Rightarrow> Publish \<Rightarrow> bus_op" where
  "retained_write scope now p =
     (let rke = retained_keyexpr (p_topic p) scope
      in if p_payload p = [] then BusDelete rke else BusPut rke (encode_envelope (p_payload p) now))"

definition relay ::
    "('c, 'l) extern \<Rightarrow> system_time \<Rightarrow> string \<Rightarrow> Publish \<Rightarrow> ('c, 'l) Broker \<Rightarrow> bool \<times> ('c, 'l) Broker" where
  "relay x now ke p b =
     (case bus_write x (BusPut ke (p_payload p)) b of
        (False, b) \<Rightarrow> (False, b)
      | (True, b) \<Rightarrow>
          (let b = count messages_in_total_update b
           in if p_retain p then bus_write x (retained_write (cfg_scope (b_cfg b)) now p) b else (True, b)))"

definition acknowledge :: "Publish \<Rightarrow> ('c, 'l) conn \<Rightarrow> (ConnError, unit) result \<times> ('c, 'l) conn" where
  "acknowledge p cn =
     (case p_qos p of
        AtMostOnce \<Rightarrow> (Inr (), cn)
      | AtLeastOnce \<Rightarrow> send (PPubAck (p_pkid p)) cn
      | ExactlyOnce \<Rightarrow>
          send (PPubRec (p_pkid p))
            (cn\<lparr>cn_client := (cn_client cn)\<lparr>cl_inflight := List.insert (p_pkid p) (cl_inflight (cn_client cn))\<rparr>\<rparr>))"

definition handle_publish ::
    "('c, 'l) extern \<Rightarrow> clocks \<Rightarrow> Publish \<Rightarrow> ('c, 'l) conn \<Rightarrow> (ConnError, unit) result \<times> ('c, 'l) conn" where
  "handle_publish x now p cn =
     (case allow (x_rnd x) (fst now) (cl_rate (cn_client cn)) of
        (ok, rl) \<Rightarrow>
          (let cn = cn\<lparr>cn_client := (cn_client cn)\<lparr>cl_rate := rl\<rparr>\<rparr>;
               b = cn_broker cn
           in if \<not> ok then (Inl RateExceeded, on_broker (count rate_limit_disconnects_total_update) cn)
              else
                (case topic_to_keyexpr (p_topic p) (cfg_scope (b_cfg b)) of
                   Inl e \<Rightarrow> (Inl (InvalidTopic e), cn)
                 | Inr ke \<Rightarrow>
                     if \<not> may_publish (b_acl b) (cl_identity (cn_client cn)) (p_topic p)
                     then acknowledge p (on_broker (count publish_denied_total_update) cn)
                     else
                       (case relay x (snd now) ke p b of
                          (False, b) \<Rightarrow> (Inl BusError, cn\<lparr>cn_broker := b\<rparr>)
                        | (True, b) \<Rightarrow> acknowledge p (cn\<lparr>cn_broker := b\<rparr>)))))"

subsection \<open>Subscribing\<close>

definition granted_qos :: "QoS \<Rightarrow> QoS" where
  "granted_qos q = (case q of AtMostOnce \<Rightarrow> AtMostOnce | _ \<Rightarrow> AtLeastOnce)"

definition show_qos :: "QoS \<Rightarrow> string" where
  "show_qos q = (case q of AtMostOnce \<Rightarrow> ''AtMostOnce'' | AtLeastOnce \<Rightarrow> ''AtLeastOnce'' | ExactlyOnce \<Rightarrow> ''ExactlyOnce'')"

definition subscribe_filter ::
    "('c, 'l) extern \<Rightarrow> string \<Rightarrow> QoS \<Rightarrow> ('c, 'l) conn \<Rightarrow> SubscribeReasonCode \<times> ('c, 'l) conn" where
  "subscribe_filter x f req cn =
     (let b = cn_broker cn; cl = cn_client cn; scope = cfg_scope (b_cfg b)
      in case filter_to_keyexpr f scope of
           Inl _ \<Rightarrow> (SubFailure, on_broker (count subscribe_denied_total_update) cn)
         | Inr _ \<Rightarrow>
             if \<not> may_subscribe (b_acl b) (cl_identity cl) f
             then (SubFailure, on_broker (count subscribe_denied_total_update) cn)
             else
               (case activate_subscription scope (x_declare x) (cl_session cl) f (granted_qos req) (b_store b) of
                  (Inl _, st) \<Rightarrow> (SubFailure, cn\<lparr>cn_broker := b\<lparr>b_store := st\<rparr>\<rparr>)
                | (Inr _, st) \<Rightarrow>
                    (SubSuccess (granted_qos req),
                     on_broker
                       (publish_client_event x (cl_id cl)
                          (''subscribe filter='' @ f @ '' qos='' @ show_qos (granted_qos req))
                        \<circ> count subscribes_total_update)
                       (cn\<lparr>cn_broker := b\<lparr>b_store := st\<rparr>\<rparr>))))"

text \<open>\<open>age < Duration::from_secs(bound)\<close> on nanoseconds; the age of a value from the future is 0.\<close>

definition flag_if_stale ::
    "('c, 'l) extern \<Rightarrow> system_time \<Rightarrow> string \<Rightarrow> system_time \<Rightarrow> ('c, 'l) Broker \<Rightarrow> ('c, 'l) Broker" where
  "flag_if_stale x now t written_at b =
     (let bound = unat (bound_secs (b_staleness b) t);
          age = nat (now - written_at)
      in if bound = 0 then b
         else if age < bound * 10 ^ 9 then b
         else
           count stale_retained_total_update
             (snd (bus_write x
               (BusPut (meta_keyexpr t (cfg_scope (b_cfg b)))
                  (as_bytes (''stale=true age_secs='' @ show_nat (age div 10 ^ 9)
                     @ '' bound_secs='' @ show_nat bound))) b)))"

definition deliver_retained_one ::
    "('c, 'l) extern \<Rightarrow> system_time \<Rightarrow> QoS \<Rightarrow> RetainedEntry \<Rightarrow> ('c, 'l) conn
       \<Rightarrow> (ConnError, unit) result \<times> ('c, 'l) conn" where
  "deliver_retained_one x now q entry cn =
     (case entry of (t, payload, written_at) \<Rightarrow>
        (let p = (Publish_new t q payload)\<lparr>p_retain := True\<rparr>;
             (n, cn) = (if q \<noteq> AtMostOnce then client_next_pkid cn else (p_pkid p, cn))
         in case send (PPublish (p\<lparr>p_pkid := n\<rparr>)) cn of
              (Inl e, cn) \<Rightarrow> (Inl e, cn)
            | (Inr _, cn) \<Rightarrow>
                (Inr (), on_broker (flag_if_stale x now t written_at \<circ> count messages_out_total_update) cn)))"

text \<open>A \<open>for\<close> loop whose body may leave with \<open>?\<close>.\<close>

fun try_each ::
    "('a \<Rightarrow> 's \<Rightarrow> (ConnError, unit) result \<times> 's) \<Rightarrow> 'a list \<Rightarrow> 's \<Rightarrow> (ConnError, unit) result \<times> 's" where
  "try_each f [] s = (Inr (), s)"
| "try_each f (y # ys) s =
     (case f y s of (Inl e, s) \<Rightarrow> (Inl e, s) | (Inr _, s) \<Rightarrow> try_each f ys s)"

definition deliver_retained ::
    "('c, 'l) extern \<Rightarrow> system_time \<Rightarrow> string \<times> QoS \<Rightarrow> ('c, 'l) conn \<Rightarrow> (ConnError, unit) result \<times> ('c, 'l) conn" where
  "deliver_retained x now fq cn =
     (case fq of (f, q) \<Rightarrow>
        (case matching_cached (x_cache x) f (b_retained (cn_broker cn)) of
           (matches, rs) \<Rightarrow>
             try_each (deliver_retained_one x now q) matches (on_broker (\<lambda>b. b\<lparr>b_retained := rs\<rparr>) cn)))"

fun subscribe_all ::
    "('c, 'l) extern \<Rightarrow> (string \<times> QoS) list \<Rightarrow> ('c, 'l) conn \<Rightarrow> SubscribeReasonCode list \<times> ('c, 'l) conn" where
  "subscribe_all x [] cn = ([], cn)"
| "subscribe_all x ((f, q) # fs) cn =
     (case subscribe_filter x f q cn of
        (code, cn) \<Rightarrow> (case subscribe_all x fs cn of (codes, cn) \<Rightarrow> (code # codes, cn)))"

definition granted_filters :: "(string \<times> QoS) list \<Rightarrow> SubscribeReasonCode list \<Rightarrow> (string \<times> QoS) list" where
  "granted_filters fs codes =
     List.map_filter (\<lambda>((f, _), code). case code of SubSuccess q \<Rightarrow> Some (f, q) | SubFailure \<Rightarrow> None) (zip fs codes)"

definition handle_subscribe ::
    "('c, 'l) extern \<Rightarrow> system_time \<Rightarrow> u16 \<Rightarrow> (string \<times> QoS) list \<Rightarrow> ('c, 'l) conn
       \<Rightarrow> (ConnError, unit) result \<times> ('c, 'l) conn" where
  "handle_subscribe x now n fs cn =
     (case subscribe_all x fs cn of
        (codes, cn) \<Rightarrow>
          (case send (PSubAck n codes) cn of
             (Inl e, cn) \<Rightarrow> (Inl e, cn)
           | (Inr _, cn) \<Rightarrow> try_each (deliver_retained x now) (granted_filters fs codes) cn))"

definition handle_unsubscribe ::
    "('c, 'l) extern \<Rightarrow> u16 \<Rightarrow> string list \<Rightarrow> ('c, 'l) conn \<Rightarrow> (ConnError, unit) result \<times> ('c, 'l) conn" where
  "handle_unsubscribe x n ts cn =
     send (PUnsubAck n)
       (foldl (\<lambda>cn t.
          on_broker
            (\<lambda>b. publish_client_event x (cl_id (cn_client cn)) (''unsubscribe filter='' @ t)
               (b\<lparr>b_store := on_session (cl_session (cn_client cn)) (remove_sub t) (b_store b)\<rparr>)) cn) cn ts)"

subsection \<open>The read loop\<close>

text \<open>What the \<open>select!\<close> yields: a packet, a failed read, some time without a packet, a kick.\<close>

datatype event = Recv Packet | RecvError | Silence duration | KickSignal

datatype flow = Continue | Break "(ConnError, unit) result"

definition idle_limit :: "u16 \<Rightarrow> duration" where
  "idle_limit keep_alive =
     (if keep_alive = 0 then (2 ^ 64 - 1) div 4 * 10 ^ 9 else unat keep_alive * 1500 * 10 ^ 6)"

text \<open>\<open>send(...).await?\<close> in a loop arm: the error leaves \<open>run\<close>.\<close>

definition or_break :: "(ConnError, unit) result \<times> ('c, 'l) conn \<Rightarrow> flow \<times> ('c, 'l) conn" where
  "or_break r = (case r of (Inl e, cn) \<Rightarrow> (Break (Inl e), cn) | (Inr _, cn) \<Rightarrow> (Continue, cn))"

definition handle_packet ::
    "('c, 'l) extern \<Rightarrow> clocks \<Rightarrow> Packet \<Rightarrow> ('c, 'l) conn \<Rightarrow> flow \<times> ('c, 'l) conn" where
  "handle_packet x now p cn =
     (case p of
        PPublish pb \<Rightarrow> or_break (handle_publish x now pb cn)
      | PPubRel n \<Rightarrow>
          or_break (send (PPubComp n)
            (cn\<lparr>cn_client := (cn_client cn)\<lparr>cl_inflight := removeAll n (cl_inflight (cn_client cn))\<rparr>\<rparr>))
      | PSubscribe n fs \<Rightarrow> or_break (handle_subscribe x (snd now) n fs cn)
      | PUnsubscribe n ts \<Rightarrow> or_break (handle_unsubscribe x n ts cn)
      | PPingReq \<Rightarrow> or_break (send PPingResp cn)
      | PDisconnect \<Rightarrow> (Break (Inr ()), cn\<lparr>cn_client := (cn_client cn)\<lparr>cl_will := None\<rparr>\<rparr>)
      | PPubAck _ \<Rightarrow> (Continue, cn)
      | PPubRec _ \<Rightarrow> (Continue, cn)
      | PPubComp _ \<Rightarrow> (Continue, cn)
      | PConnect _ \<Rightarrow> (Break (Inl DuplicateConnect), cn)
      | other \<Rightarrow> (Break (Inl (Unexpected other)), cn))"

definition take_reason :: "('c, 'l) conn \<Rightarrow> string \<times> ('c, 'l) conn" where
  "take_reason cn =
     (let b = cn_broker cn; st = b_store b; r = cl_session (cn_client cn)
      in case hm_get (st_heap st) r of
           None \<Rightarrow> (KICK_TAKEOVER, cn)
         | Some s \<Rightarrow>
             (case take_kick_reason s of
                (why, s) \<Rightarrow>
                  (case why of None \<Rightarrow> KICK_TAKEOVER | Some w \<Rightarrow> w,
                   cn\<lparr>cn_broker := b\<lparr>b_store := st\<lparr>st_heap := hm_insert r s (st_heap st)\<rparr>\<rparr>\<rparr>)))"

definition run_event ::
    "('c, 'l) extern \<Rightarrow> clocks \<times> event \<Rightarrow> ('c, 'l) conn \<Rightarrow> flow \<times> ('c, 'l) conn" where
  "run_event x ne cn =
     (case ne of (now, ev) \<Rightarrow>
        (case ev of
           Recv p \<Rightarrow> handle_packet x now p cn
         | RecvError \<Rightarrow> (Break (Inl ReadError), cn)
         | Silence d \<Rightarrow>
             if d \<ge> idle_limit (cl_keep_alive (cn_client cn)) then (Break (Inl KeepAliveExpired), cn)
             else (Continue, cn)
         | KickSignal \<Rightarrow> (case take_reason cn of (why, cn) \<Rightarrow> (Break (Inl (Kicked why)), cn))))"

text \<open>\<open>None\<close>: the events are used up and the connection is still open.\<close>

fun run ::
    "('c, 'l) extern \<Rightarrow> (clocks \<times> event) list \<Rightarrow> ('c, 'l) conn
       \<Rightarrow> (ConnError, unit) result option \<times> ('c, 'l) conn" where
  "run x [] cn = (None, cn)"
| "run x (ne # nes) cn =
     (case run_event x ne cn of
        (Continue, cn) \<Rightarrow> run x nes cn
      | (Break r, cn) \<Rightarrow> (Some r, cn))"

definition fire_will :: "('c, 'l) extern \<Rightarrow> system_time \<Rightarrow> ('c, 'l) conn \<Rightarrow> ('c, 'l) conn" where
  "fire_will x now cn =
     (let cl = cn_client cn; b = cn_broker cn; scope = cfg_scope (b_cfg b)
      in case cl_will cl of
           None \<Rightarrow> cn
         | Some will \<Rightarrow>
             (let cn = cn\<lparr>cn_client := cl\<lparr>cl_will := None\<rparr>\<rparr>
              in if \<not> may_publish (b_acl b) (cl_identity cl) (lw_topic will) then cn
                 else
                   (case topic_to_keyexpr (lw_topic will) scope of
                      Inl _ \<Rightarrow> cn
                    | Inr ke \<Rightarrow>
                        (let b = snd (bus_write x (BusPut ke (lw_message will)) b);
                             b = (if lw_retain will \<and> lw_message will \<noteq> []
                                  then snd (bus_write x (BusPut (retained_keyexpr (lw_topic will) scope)
                                              (encode_envelope (lw_message will) now)) b)
                                  else b)
                         in cn\<lparr>cn_broker := b\<rparr>))))"

subsection \<open>The whole connection\<close>

datatype first_read = FirstPacket Packet | FirstError | FirstTimeout

datatype gate = Refused ConnectReturnCode | Granted string

definition connect_gate ::
    "('c, 'l) extern \<Rightarrow> clocks \<Rightarrow> string option \<Rightarrow> Connect \<Rightarrow> ('c, 'l) Broker \<Rightarrow> gate \<times> ('c, 'l) Broker" where
  "connect_gate x now cert c b =
     (case admit (x_governor x) (fst now) (b_admission b) of
        (False, l) \<Rightarrow> (Refused ServiceUnavailable, count connect_shed_total_update (b\<lparr>b_admission := l\<rparr>))
      | (True, l) \<Rightarrow>
          (let b = b\<lparr>b_admission := l\<rparr>
           in case cert of
                Some common_name \<Rightarrow> (Granted common_name, b)
              | None \<Rightarrow>
                  (case authenticate (x_digest x) (b_auth b) (cp_login c) of
                     Inr who \<Rightarrow> (Granted who, b)
                   | Inl denied \<Rightarrow>
                       (Refused (case denied of BadCredentials \<Rightarrow> BadUserNamePassword
                                               | AnonymousNotAllowed \<Rightarrow> NotAuthorized),
                        count connect_refused_total_update b))))"

definition session_name :: "system_time \<Rightarrow> Connect \<Rightarrow> string \<times> bool" where
  "session_name now c =
     (if cp_client_id c = [] then (''entmoot-anon-'' @ show_nat (nat now), True)
      else (cp_client_id c, cp_clean_session c))"

definition send_backlog_one :: "message \<Rightarrow> ('c, 'l) conn \<Rightarrow> (ConnError, unit) result \<times> ('c, 'l) conn" where
  "send_backlog_one m cn =
     (case m of (t, payload) \<Rightarrow>
        (case client_next_pkid cn of
           (n, cn) \<Rightarrow>
             (case send (PPublish ((Publish_new t AtLeastOnce payload)\<lparr>p_pkid := n\<rparr>)) cn of
                (Inl e, cn) \<Rightarrow> (Inl e, cn)
              | (Inr _, cn) \<Rightarrow> (Inr (), on_broker (count messages_out_total_update) cn))))"

definition show_bool :: "bool \<Rightarrow> string" where
  "show_bool b = (if b then ''true'' else ''false'')"

text \<open>From the admitted CONNECT to the end of the backlog; \<open>tx\<close> and \<open>k\<close> are the connection's new
  channel and kick handle.\<close>

definition open_session ::
    "('c, 'l) extern \<Rightarrow> clocks \<Rightarrow> string \<Rightarrow> nat \<Rightarrow> nat \<Rightarrow> nat \<Rightarrow> string \<Rightarrow> Connect \<Rightarrow> ('c, 'l) Broker
       \<Rightarrow> (ConnError, u64) result \<times> ('c, 'l) conn" where
  "open_session x now peer tx k room who c b =
     (let (cid, clean) = session_name (snd now) c;
          b = count connections_total_update b;
          (out, st) = attach cid who clean tx k (b_store b);
          cl = \<lparr>cl_session = (case out of Some ao \<Rightarrow> ao_session ao | None \<Rightarrow> 0), cl_id = cid, cl_identity = who,
                cl_keep_alive = cp_keep_alive c, cl_will = cp_last_will c,
                cl_rate = RateLimiter_new (cfg_max_publish_rate (b_cfg b)) (fst now), cl_inflight = []\<rparr>;
          cn = \<lparr>cn_client = cl, cn_broker = b\<lparr>b_store := st\<rparr>, cn_out = [], cn_room = room\<rparr>
      in case out of
           None \<Rightarrow> (Inl NoSession, cn)
         | Some ao \<Rightarrow>
             (case send (PConnAck Success (ao_present ao)) cn of
                (Inl e, cn) \<Rightarrow> (Inl e, cn)
              | (Inr _, cn) \<Rightarrow>
                  (case try_each send_backlog_one (ao_backlog ao)
                          (on_broker (publish_client_event x cid
                             (''connect addr='' @ peer @ '' clean='' @ show_bool clean)) cn) of
                     (Inl e, cn) \<Rightarrow> (Inl e, cn)
                   | (Inr _, cn) \<Rightarrow> (Inr (ao_epoch ao), cn))))"

definition close_session ::
    "('c, 'l) extern \<Rightarrow> clocks \<Rightarrow> bool \<Rightarrow> u64 \<Rightarrow> (ConnError, unit) result \<Rightarrow> ('c, 'l) conn \<Rightarrow> ('c, 'l) conn" where
  "close_session x now clean ep r cn =
     (let cn = (case r of Inl _ \<Rightarrow> fire_will x (snd now) cn | Inr _ \<Rightarrow> cn);
          cn = on_broker (\<lambda>b. b\<lparr>b_store := detach (fst now) (cl_session (cn_client cn)) ep clean (b_store b)\<rparr>) cn
      in on_broker (publish_client_event x (cl_id (cn_client cn))
           (''disconnect reason='' @ (case r of Inr _ \<Rightarrow> ''clean'' | Inl _ \<Rightarrow> ''abnormal''))) cn)"

record ('c, 'l) served =
  sv_result :: "(ConnError, unit) result option"
  sv_broker :: "('c, 'l) Broker"
  sv_out :: "Packet list"

definition serve ::
    "('c, 'l) extern \<Rightarrow> clocks \<Rightarrow> string \<Rightarrow> string option \<Rightarrow> nat \<Rightarrow> nat \<Rightarrow> nat \<Rightarrow> first_read
       \<Rightarrow> (clocks \<times> event) list \<Rightarrow> clocks \<Rightarrow> ('c, 'l) Broker \<Rightarrow> ('c, 'l) served" where
  "serve x now peer cert tx k room first events last_now b =
     (case first of
        FirstError \<Rightarrow> \<lparr>sv_result = Some (Inl ReadError), sv_broker = b, sv_out = []\<rparr>
      | FirstTimeout \<Rightarrow> \<lparr>sv_result = Some (Inl ConnectTimeout), sv_broker = b, sv_out = []\<rparr>
      | FirstPacket p \<Rightarrow>
          (case p of
             PConnect c \<Rightarrow>
               (case connect_gate x now cert c b of
                  (Refused code, b) \<Rightarrow>
                    (if room = 0 then \<lparr>sv_result = Some (Inl WriterClosed), sv_broker = b, sv_out = []\<rparr>
                     else \<lparr>sv_result = Some (Inr ()), sv_broker = b, sv_out = [PConnAck code False]\<rparr>)
                | (Granted who, b) \<Rightarrow>
                    (case open_session x now peer tx k room who c b of
                       (Inl e, cn) \<Rightarrow> \<lparr>sv_result = Some (Inl e), sv_broker = cn_broker cn, sv_out = cn_out cn\<rparr>
                     | (Inr ep, cn) \<Rightarrow>
                         (case run x events cn of
                            (None, cn) \<Rightarrow> \<lparr>sv_result = None, sv_broker = cn_broker cn, sv_out = cn_out cn\<rparr>
                          | (Some r, cn) \<Rightarrow>
                              (let cn = close_session x last_now (snd (session_name (snd now) c)) ep r cn
                               in \<lparr>sv_result = Some r, sv_broker = cn_broker cn, sv_out = cn_out cn\<rparr>))))
           | _ \<Rightarrow> \<lparr>sv_result = Some (Inl NotConnect), sv_broker = b, sv_out = []\<rparr>))"

subsection \<open>Framing\<close>

text \<open>\<open>read_from\<close>: parse off the buffer, read more when the parser asks for more. The parser
  (\<open>mqttbytes::v4::read\<close>) is an argument, and \<open>chunks\<close> are what the socket yields, ending the
  stream when used up; an empty chunk is a read of zero bytes.\<close>

datatype parsed = Parsed Packet bytes | NeedMore | Malformed

fun read_from ::
    "(nat \<Rightarrow> bytes \<Rightarrow> parsed) \<Rightarrow> nat \<Rightarrow> bytes \<Rightarrow> bytes list
       \<Rightarrow> (ConnError, Packet) result \<times> bytes \<times> bytes list" where
  "read_from parse max_size buf chunks =
     (case parse max_size buf of
        Parsed p rest \<Rightarrow> (Inr p, rest, chunks)
      | Malformed \<Rightarrow> (Inl ReadError, buf, chunks)
      | NeedMore \<Rightarrow>
          (case chunks of
             [] \<Rightarrow> (Inl ReadError, buf, [])
           | chunk # chunks \<Rightarrow>
               if chunk = [] then (Inl ReadError, buf, chunks)
               else read_from parse max_size (buf @ chunk) chunks))"

declare read_from.simps [simp del]

text \<open>\<open>encode\<close> writes the packets a server sends and refuses the others.\<close>

definition encodable :: "Packet \<Rightarrow> bool" where
  "encodable p =
     (case p of
        PConnAck _ _ \<Rightarrow> True | PPublish _ \<Rightarrow> True | PPubAck _ \<Rightarrow> True | PPubRec _ \<Rightarrow> True | PPubComp _ \<Rightarrow> True
      | PSubAck _ _ \<Rightarrow> True | PUnsubAck _ \<Rightarrow> True | PPingResp \<Rightarrow> True | _ \<Rightarrow> False)"

end
