(* ===== verification/Connection_Safety.thy ===== *)
theory Connection_Safety
  imports Connection
begin

text \<open>
  What one connection can make the node do, whatever its client sends: every handler of
  \<open>Connection\<close> is shown to follow its start state by confined bus writes and server packets
  (the relation \<open>adds\<close>, reflexive and transitive), and the whole of \<open>serve\<close> with them.
\<close>

section \<open>What a connection may write, and send\<close>

fun bus_key :: "bus_op \<Rightarrow> string" where
  "bus_key (BusPut ke _) = ke"
| "bus_key (BusDelete ke) = ke"

text \<open>A write is confined if it is to a topic the identity may publish on, or to that topic's
  retained slot, or to the node's own \<open>@meta\<close> keys.\<close>

definition confined :: "NodeConfig \<Rightarrow> Acl \<Rightarrow> string \<Rightarrow> bus_op \<Rightarrow> bool" where
  "confined cfg acl who w \<longleftrightarrow>
     (\<exists>t ke. may_publish acl who t \<and> topic_to_keyexpr t (cfg_scope cfg) = Inr ke
        \<and> (bus_key w = ke \<or> bus_key w = retained_keyexpr t (cfg_scope cfg)))
   \<or> (\<exists>t. bus_key w = meta_keyexpr t (cfg_scope cfg))"

text \<open>One broker state follows another by confined writes.\<close>

definition b_adds :: "string \<Rightarrow> ('c, 'l) Broker \<Rightarrow> ('c, 'l) Broker \<Rightarrow> bool" where
  "b_adds who b b' \<longleftrightarrow>
     b_cfg b' = b_cfg b \<and> b_acl b' = b_acl b
   \<and> (\<exists>ops. b_bus b' = b_bus b @ ops \<and> (\<forall>w\<in>set ops. confined (b_cfg b) (b_acl b) who w))"

text \<open>One connection state follows another: confined writes, server packets, the same client.\<close>

definition adds :: "('c, 'l) conn \<Rightarrow> ('c, 'l) conn \<Rightarrow> bool" where
  "adds cn cn' \<longleftrightarrow>
     b_adds (cl_identity (cn_client cn)) (cn_broker cn) (cn_broker cn')
   \<and> (\<exists>ps. cn_out cn' = cn_out cn @ ps \<and> (\<forall>p\<in>set ps. encodable p))
   \<and> cl_identity (cn_client cn') = cl_identity (cn_client cn)
   \<and> cl_id (cn_client cn') = cl_id (cn_client cn) \<and> cl_session (cn_client cn') = cl_session (cn_client cn)"

lemma b_adds_refl [simp]: "b_adds who b b"
  by (simp add: b_adds_def)

lemma b_adds_trans: "b_adds who b b' \<Longrightarrow> b_adds who b' b'' \<Longrightarrow> b_adds who b b''"
  unfolding b_adds_def by (metis Un_iff append_assoc set_append)

lemma adds_refl [simp]: "adds cn cn"
  by (simp add: adds_def)

lemma adds_trans: "adds cn cn' \<Longrightarrow> adds cn' cn'' \<Longrightarrow> adds cn cn''"
  unfolding adds_def using b_adds_trans by (metis Un_iff append_assoc set_append)

lemma count_simps [simp]:
  "b_cfg (count c b) = b_cfg b" "b_acl (count c b) = b_acl b" "b_bus (count c b) = b_bus b"
  "b_retained (count c b) = b_retained b" "b_admission (count c b) = b_admission b"
  "b_auth (count c b) = b_auth b" "b_staleness (count c b) = b_staleness b"
  by (simp_all add: count_def Let_def)

lemma b_adds_quiet:
  "b_cfg b' = b_cfg b \<Longrightarrow> b_acl b' = b_acl b \<Longrightarrow> b_bus b' = b_bus b \<Longrightarrow> b_adds who b b'"
  by (simp add: b_adds_def)

lemma bus_write_adds:
  assumes "confined (b_cfg b) (b_acl b) who w"
  shows "b_adds who b (snd (bus_write x w b))"
  using assms by (auto simp: bus_write_def b_adds_def)

lemma bus_write_simps [simp]:
  "b_cfg (snd (bus_write x w b)) = b_cfg b" "b_acl (snd (bus_write x w b)) = b_acl b"
  "b_store (snd (bus_write x w b)) = b_store b" "b_retained (snd (bus_write x w b)) = b_retained b"
  by (simp_all add: bus_write_def)

lemma client_event_adds: "b_adds who b (publish_client_event x cid ev b)"
  unfolding publish_client_event_def
  by (rule bus_write_adds) (auto simp: confined_def client_event_key_def)

lemma adds_broker:
  assumes "b_adds (cl_identity (cn_client cn)) (cn_broker cn) b"
  shows "adds cn (cn\<lparr>cn_broker := b\<rparr>)"
  using assms by (simp add: adds_def)

lemma adds_on_broker:
  "b_adds (cl_identity (cn_client cn)) (cn_broker cn) (f (cn_broker cn)) \<Longrightarrow> adds cn (on_broker f cn)"
  unfolding on_broker_def by (rule adds_broker)

lemma adds_count: "adds cn (on_broker (count c) cn)"
  by (rule adds_on_broker) (simp add: b_adds_quiet)

lemma send_adds: "encodable p \<Longrightarrow> send p cn = (r, cn') \<Longrightarrow> adds cn cn'"
  by (auto simp: send_def adds_def split: if_splits)

lemma client_state_adds:
  "adds cn (cn\<lparr>cn_client := (cn_client cn)\<lparr>cl_inflight := i\<rparr>\<rparr>)"
  "adds cn (cn\<lparr>cn_client := (cn_client cn)\<lparr>cl_rate := rl\<rparr>\<rparr>)"
  "adds cn (cn\<lparr>cn_client := (cn_client cn)\<lparr>cl_will := w\<rparr>\<rparr>)"
  by (simp_all add: adds_def)

lemma store_adds: "adds cn (cn\<lparr>cn_broker := (cn_broker cn)\<lparr>b_store := st\<rparr>\<rparr>)"
  by (rule adds_broker) (simp add: b_adds_quiet)

lemma next_pkid_adds: "client_next_pkid cn = (n, cn') \<Longrightarrow> adds cn cn'"
  by (auto simp: client_next_pkid_def Let_def store_adds split: option.splits prod.splits)

lemma try_each_adds:
  assumes "\<And>y cn r cn'. f y cn = (r, cn') \<Longrightarrow> adds cn cn'"
  shows "try_each f ys cn = (r, cn') \<Longrightarrow> adds cn cn'"
proof (induction ys arbitrary: cn)
  case (Cons y ys)
  obtain r1 cn1 where y: "f y cn = (r1, cn1)" by fastforce
  with Cons assms [OF y] adds_trans show ?case by (cases r1) auto
qed simp

lemma encodable_simps [simp]:
  "encodable (PConnAck c b)" "encodable (PPublish p)" "encodable (PPubAck n)" "encodable (PPubRec n)"
  "encodable (PPubComp n)" "encodable (PSubAck n cs)" "encodable (PUnsubAck n)" "encodable PPingResp"
  by (simp_all add: encodable_def)

lemma foldl_adds: "(\<And>c y. adds c (f c y)) \<Longrightarrow> adds c (foldl f c ys)"
proof (induction ys arbitrary: c)
  case (Cons y ys)
  from Cons.prems [of c y] Cons.IH [OF Cons.prems, of "f c y"] show ?case by (simp add: adds_trans)
qed simp

lemma acknowledge_adds:
  assumes "acknowledge p cn = (r, cn')"
  shows "adds cn cn'"
proof (cases "p_qos p")
  case AtMostOnce
  with assms show ?thesis by (simp add: acknowledge_def)
next
  case AtLeastOnce
  with assms send_adds [of "PPubAck (p_pkid p)" cn] show ?thesis by (simp add: acknowledge_def)
next
  case ExactlyOnce
  with assms have "adds (cn\<lparr>cn_client := (cn_client cn)\<lparr>cl_inflight := List.insert (p_pkid p) (cl_inflight (cn_client cn))\<rparr>\<rparr>) cn'"
    using send_adds [of "PPubRec (p_pkid p)"] by (simp add: acknowledge_def)
  with client_state_adds(1) show ?thesis by (rule adds_trans)
qed

text \<open>The writes of a relayed publish, in full.\<close>

lemma relay_writes:
  assumes "relay x now ke p b = (ok, b')"
  shows "b_cfg b' = b_cfg b \<and> b_acl b' = b_acl b \<and>
    (\<exists>ops. b_bus b' = b_bus b @ ops
      \<and> prefix ops (BusPut ke (p_payload p) # (if p_retain p then [retained_write (cfg_scope (b_cfg b)) now p] else []))
      \<and> (ok \<longrightarrow> ops = BusPut ke (p_payload p) # (if p_retain p then [retained_write (cfg_scope (b_cfg b)) now p] else [])))"
  using assms by (auto simp: relay_def bus_write_def Let_def split: if_splits)

lemma relay_adds:
  assumes "relay x now ke p b = (ok, b')" and "may_publish (b_acl b) who (p_topic p)"
    and "topic_to_keyexpr (p_topic p) (cfg_scope (b_cfg b)) = Inr ke"
  shows "b_adds who b b'"
proof -
  obtain ops where ops: "b_cfg b' = b_cfg b" "b_acl b' = b_acl b" "b_bus b' = b_bus b @ ops"
    "prefix ops (BusPut ke (p_payload p) # (if p_retain p then [retained_write (cfg_scope (b_cfg b)) now p] else []))"
    using relay_writes [OF assms(1)] by blast
  have "confined (b_cfg b) (b_acl b) who w" if "w \<in> set ops" for w
  proof -
    have "bus_key w = ke \<or> bus_key w = retained_keyexpr (p_topic p) (cfg_scope (b_cfg b))"
      using set_mono_prefix [OF ops(4)] that by (auto simp: retained_write_def Let_def split: if_splits)
    with assms(2,3) show ?thesis unfolding confined_def by blast
  qed
  with ops(1-3) show ?thesis unfolding b_adds_def by blast
qed

lemma handle_publish_adds:
  assumes "handle_publish x now p cn = (r, cn')"
  shows "adds cn cn'"
proof -
  obtain ok rl where a: "allow (x_rnd x) (fst now) (cl_rate (cn_client cn)) = (ok, rl)" by fastforce
  let ?cn = "cn\<lparr>cn_client := (cn_client cn)\<lparr>cl_rate := rl\<rparr>\<rparr>"
  have 0: "adds cn ?cn" by (rule client_state_adds)
  consider (rate) "\<not> ok" | (topic) e where "ok" "topic_to_keyexpr (p_topic p) (cfg_scope (b_cfg (cn_broker cn))) = Inl e"
    | (denied) ke where "ok" "topic_to_keyexpr (p_topic p) (cfg_scope (b_cfg (cn_broker cn))) = Inr ke"
        "\<not> may_publish (b_acl (cn_broker cn)) (cl_identity (cn_client cn)) (p_topic p)"
    | (relayed) ke ok' b where "ok" "topic_to_keyexpr (p_topic p) (cfg_scope (b_cfg (cn_broker cn))) = Inr ke"
        "may_publish (b_acl (cn_broker cn)) (cl_identity (cn_client cn)) (p_topic p)"
        "relay x (snd now) ke p (cn_broker cn) = (ok', b)"
    by (metis old.sum.exhaust surj_pair)
  then have "adds ?cn cn'"
  proof cases
    case rate
    with assms a adds_count [of ?cn] show ?thesis by (auto simp: handle_publish_def)
  next
    case topic
    with assms a show ?thesis by (simp add: handle_publish_def)
  next
    case denied
    with assms a have "acknowledge p (on_broker (count publish_denied_total_update) ?cn) = (r, cn')"
      by (simp add: handle_publish_def)
    with acknowledge_adds adds_count adds_trans show ?thesis by blast
  next
    case relayed
    have b: "adds ?cn (?cn\<lparr>cn_broker := b\<rparr>)"
      by (rule adds_broker) (use relay_adds [OF relayed(4)] relayed(2,3) in simp)
    show ?thesis
    proof (cases ok')
      case True
      with assms a relayed have "acknowledge p (?cn\<lparr>cn_broker := b\<rparr>) = (r, cn')"
        by (simp add: handle_publish_def)
      with b acknowledge_adds adds_trans show ?thesis by blast
    next
      case False
      with assms a relayed b show ?thesis by (simp add: handle_publish_def)
    qed
  qed
  with 0 show ?thesis by (rule adds_trans)
qed

lemma subscribe_filter_adds: "subscribe_filter x f q cn = (code, cn') \<Longrightarrow> adds cn cn'"
proof -
  assume s: "subscribe_filter x f q cn = (code, cn')"
  have ev: "b_adds who b (publish_client_event x cid ev (count c (b\<lparr>b_store := st\<rparr>)))"
    for who cid ev c st and b :: "('a, 'b) Broker"
    by (rule b_adds_trans [OF _ client_event_adds]) (simp add: b_adds_quiet)
  have "adds cn (on_broker (publish_client_event x (cl_id (cn_client cn)) ev \<circ> count c)
      (cn\<lparr>cn_broker := (cn_broker cn)\<lparr>b_store := st\<rparr>\<rparr>))" for ev c st
    using adds_broker [OF ev] by (simp add: on_broker_def)
  with s show ?thesis
    by (auto simp: subscribe_filter_def Let_def adds_count store_adds split: sum.splits if_splits prod.splits)
qed

lemma subscribe_all_adds: "subscribe_all x fs cn = (codes, cn') \<Longrightarrow> adds cn cn'"
proof (induction fs arbitrary: cn codes cn')
  case (Cons a fs)
  obtain f q where a: "a = (f, q)" by (cases a)
  obtain code cn1 where 1: "subscribe_filter x f q cn = (code, cn1)" by fastforce
  obtain cs cn2 where 2: "subscribe_all x fs cn1 = (cs, cn2)" by fastforce
  from Cons.prems 1 2 Cons.IH [OF 2] subscribe_filter_adds [OF 1] show ?case
    by (auto simp: a intro: adds_trans)
qed simp

lemma count_adds: "b_adds who b b' \<Longrightarrow> b_adds who b (count c b')"
  by (simp add: b_adds_def)

lemma meta_write_adds: "b_adds who b (snd (bus_write x (BusPut (meta_keyexpr t (cfg_scope (b_cfg b))) m) b))"
  by (rule bus_write_adds) (auto simp: confined_def)

lemma flag_if_stale_adds: "b_adds who b (flag_if_stale x now t ts b)"
  by (simp add: flag_if_stale_def Let_def count_adds meta_write_adds)

lemma deliver_retained_one_adds:
  assumes "deliver_retained_one x now q entry cn = (r, cn')"
  shows "adds cn cn'"
proof -
  obtain t payload ts where e: "entry = (t, payload, ts)" by (cases entry)
  let ?p = "(Publish_new t q payload)\<lparr>p_retain := True\<rparr>"
  obtain n cn1 where n: "(if q \<noteq> AtMostOnce then client_next_pkid cn else (p_pkid ?p, cn)) = (n, cn1)" by fastforce
  then have 1: "adds cn cn1" using next_pkid_adds by (auto split: if_splits)
  obtain r2 cn2 where s: "send (PPublish (?p\<lparr>p_pkid := n\<rparr>)) cn1 = (r2, cn2)" by fastforce
  have 2: "adds cn1 cn2" using send_adds [OF _ s] by simp
  have "b_adds who b (flag_if_stale x now t ts (count c b))" for who c and b :: "('a, 'b) Broker"
    by (rule b_adds_trans [OF _ flag_if_stale_adds]) (simp add: b_adds_quiet)
  then have 3: "adds cn2 (on_broker (flag_if_stale x now t ts \<circ> count c) cn2)" for c
    by (intro adds_on_broker) simp
  have "cn' = cn2 \<or> cn' = on_broker (flag_if_stale x now t ts \<circ> count messages_out_total_update) cn2"
    using assms n s by (auto simp: deliver_retained_one_def e Let_def split: sum.splits)
  with 1 2 3 adds_trans show ?thesis by blast
qed

lemma deliver_retained_adds: "deliver_retained x now fq cn = (r, cn') \<Longrightarrow> adds cn cn'"
proof -
  assume d: "deliver_retained x now fq cn = (r, cn')"
  obtain f q where fq: "fq = (f, q)" by (cases fq)
  obtain ms rs where m: "matching_cached (x_cache x) f (b_retained (cn_broker cn)) = (ms, rs)" by fastforce
  have "adds cn (on_broker (\<lambda>b. b\<lparr>b_retained := rs\<rparr>) cn)"
    by (rule adds_on_broker) (simp add: b_adds_quiet)
  moreover have "try_each (deliver_retained_one x now q) ms (on_broker (\<lambda>b. b\<lparr>b_retained := rs\<rparr>) cn) = (r, cn')"
    using d by (simp add: deliver_retained_def fq m)
  from try_each_adds [OF deliver_retained_one_adds this]
  have "adds (on_broker (\<lambda>b. b\<lparr>b_retained := rs\<rparr>) cn) cn'" .
  ultimately show ?thesis by (rule adds_trans)
qed

lemma handle_subscribe_adds: "handle_subscribe x now n fs cn = (r, cn') \<Longrightarrow> adds cn cn'"
proof -
  assume h: "handle_subscribe x now n fs cn = (r, cn')"
  obtain codes cn1 where 1: "subscribe_all x fs cn = (codes, cn1)" by fastforce
  obtain r2 cn2 where 2: "send (PSubAck n codes) cn1 = (r2, cn2)" by fastforce
  have "adds cn cn2" using subscribe_all_adds [OF 1] send_adds [OF _ 2] adds_trans by simp
  moreover have "adds cn2 cn'"
    using h try_each_adds [OF deliver_retained_adds]
    by (cases r2) (auto simp: handle_subscribe_def 1 2)
  ultimately show ?thesis by (rule adds_trans)
qed

lemma handle_unsubscribe_adds: "handle_unsubscribe x n ts cn = (r, cn') \<Longrightarrow> adds cn cn'"
proof -
  assume h: "handle_unsubscribe x n ts cn = (r, cn')"
  let ?f = "\<lambda>cn t. on_broker (\<lambda>b. publish_client_event x (cl_id (cn_client cn)) (''unsubscribe filter='' @ t)
               (b\<lparr>b_store := on_session (cl_session (cn_client cn)) (remove_sub t) (b_store b)\<rparr>)) cn"
  have step: "adds c (?f c t)" for c t
    by (intro adds_on_broker b_adds_trans [OF _ client_event_adds]) (simp add: b_adds_quiet)
  have "adds cn (foldl ?f cn ts)" by (rule foldl_adds) (rule step)
  moreover have "send (PUnsubAck n) (foldl ?f cn ts) = (r, cn')" using h by (simp only: handle_unsubscribe_def)
  from send_adds [OF encodable_simps(7) this] have "adds (foldl ?f cn ts) cn'" .
  ultimately show ?thesis by (rule adds_trans)
qed

lemma or_break_adds: "(\<And>r cn'. y = (r, cn') \<Longrightarrow> adds cn cn') \<Longrightarrow> adds cn (snd (or_break y))"
  by (cases y) (auto simp: or_break_def split: sum.splits)

lemma handle_packet_adds: "adds cn (snd (handle_packet x now p cn))"
proof (cases p)
  case (PPublish pb)
  then show ?thesis by (simp add: handle_packet_def or_break_adds handle_publish_adds)
next
  case (PPubRel n)
  let ?cn = "cn\<lparr>cn_client := (cn_client cn)\<lparr>cl_inflight := removeAll n (cl_inflight (cn_client cn))\<rparr>\<rparr>"
  have "adds ?cn cn'" if "send (PPubComp n) ?cn = (r, cn')" for r cn' using send_adds [OF _ that] by simp
  with client_state_adds(1) adds_trans have "adds cn (snd (or_break (send (PPubComp n) ?cn)))"
    by (intro or_break_adds) blast
  then show ?thesis by (simp add: PPubRel handle_packet_def)
next
  case (PSubscribe n fs)
  then show ?thesis by (simp add: handle_packet_def or_break_adds handle_subscribe_adds)
next
  case (PUnsubscribe n ts)
  then show ?thesis by (simp add: handle_packet_def or_break_adds handle_unsubscribe_adds)
next
  case PPingReq
  then show ?thesis
    using or_break_adds [OF send_adds [OF encodable_simps(8)]] by (simp add: handle_packet_def)
qed (simp_all add: handle_packet_def client_state_adds)

lemma take_reason_adds: "take_reason cn = (why, cn') \<Longrightarrow> adds cn cn'"
  by (auto simp: take_reason_def Let_def store_adds split: option.splits prod.splits)

lemma run_event_adds: "adds cn (snd (run_event x ne cn))"
  using take_reason_adds [of cn]
  by (auto simp: run_event_def handle_packet_adds split: prod.split event.split)

lemma run_adds: "run x nes cn = (r, cn') \<Longrightarrow> adds cn cn'"
proof (induction nes arbitrary: cn)
  case (Cons ne nes)
  obtain fl cn1 where 1: "run_event x ne cn = (fl, cn1)" by fastforce
  have "adds cn cn1" using run_event_adds [of cn x ne] 1 by simp
  moreover have "adds cn1 cn'"
    using Cons 1 by (cases fl) auto
  ultimately show ?case by (rule adds_trans)
qed simp

lemma fire_will_adds: "adds cn (fire_will x now cn)"
proof (cases "cl_will (cn_client cn)")
  case (Some will)
  let ?b = "cn_broker cn" and ?who = "cl_identity (cn_client cn)"
  let ?scope = "cfg_scope (b_cfg ?b)" and ?cn = "cn\<lparr>cn_client := (cn_client cn)\<lparr>cl_will := None\<rparr>\<rparr>"
  have 0: "adds cn ?cn" by (rule client_state_adds)
  show ?thesis
  proof (cases "may_publish (b_acl ?b) ?who (lw_topic will)")
    case True
    show ?thesis
    proof (cases "topic_to_keyexpr (lw_topic will) ?scope")
      case (Inr ke)
      have c: "bus_key w = ke \<or> bus_key w = retained_keyexpr (lw_topic will) ?scope \<Longrightarrow>
          confined (b_cfg ?b) (b_acl ?b) ?who w" for w
        using True Inr unfolding confined_def by blast
      let ?b1 = "snd (bus_write x (BusPut ke (lw_message will)) ?b)"
      have 1: "b_adds ?who ?b ?b1" by (rule bus_write_adds) (simp add: c)
      have 2: "b_adds ?who ?b1 (snd (bus_write x (BusPut (retained_keyexpr (lw_topic will) ?scope) m) ?b1))" for m
        by (rule bus_write_adds) (simp add: c)
      have "b_adds ?who ?b (if lw_retain will \<and> lw_message will \<noteq> [] then
          snd (bus_write x (BusPut (retained_keyexpr (lw_topic will) ?scope) (encode_envelope (lw_message will) now)) ?b1) else ?b1)"
        using 1 b_adds_trans [OF 1 2] by simp
      then have "adds ?cn (?cn\<lparr>cn_broker := (if lw_retain will \<and> lw_message will \<noteq> [] then
          snd (bus_write x (BusPut (retained_keyexpr (lw_topic will) ?scope) (encode_envelope (lw_message will) now)) ?b1) else ?b1)\<rparr>)"
        by (intro adds_broker) simp
      with 0 have "adds cn (?cn\<lparr>cn_broker := (if lw_retain will \<and> lw_message will \<noteq> [] then
          snd (bus_write x (BusPut (retained_keyexpr (lw_topic will) ?scope) (encode_envelope (lw_message will) now)) ?b1) else ?b1)\<rparr>)"
        by (rule adds_trans)
      then show ?thesis by (simp only: fire_will_def Let_def Some option.case True Inr sum.case if_False not_True_eq_False)
    qed (simp add: fire_will_def Some True 0)
  qed (simp add: fire_will_def Some 0)
qed (simp add: fire_will_def)

lemma close_session_adds: "adds cn (close_session x now clean ep r cn)"
proof -
  let ?cn = "case r of Inl _ \<Rightarrow> fire_will x (snd now) cn | Inr _ \<Rightarrow> cn"
  have 1: "adds cn ?cn" by (simp add: fire_will_adds split: sum.split)
  have 2: "adds c (on_broker (\<lambda>b. b\<lparr>b_store := f b\<rparr>) c)" for f and c :: "('a, 'b) conn"
    by (rule adds_on_broker) (simp add: b_adds_quiet)
  have 3: "adds c (on_broker (publish_client_event x cid ev) c)" for cid ev and c :: "('a, 'b) conn"
    by (rule adds_on_broker) (rule client_event_adds)
  show ?thesis unfolding close_session_def Let_def by (rule adds_trans [OF adds_trans [OF 1 2] 3])
qed

lemma send_backlog_one_adds: "send_backlog_one m cn = (r, cn') \<Longrightarrow> adds cn cn'"
proof -
  assume h: "send_backlog_one m cn = (r, cn')"
  obtain t payload where m: "m = (t, payload)" by (cases m)
  obtain n cn1 where 1: "client_next_pkid cn = (n, cn1)" by fastforce
  obtain r2 cn2 where 2: "send (PPublish ((Publish_new t AtLeastOnce payload)\<lparr>p_pkid := n\<rparr>)) cn1 = (r2, cn2)" by fastforce
  have "adds cn cn2" using next_pkid_adds [OF 1] send_adds [OF encodable_simps(2) 2] by (rule adds_trans)
  moreover have "cn' = cn2 \<or> cn' = on_broker (count messages_out_total_update) cn2"
    using h by (auto simp: send_backlog_one_def m 1 2 split: sum.splits)
  ultimately show ?thesis using adds_count adds_trans by blast
qed

lemma open_session_adds:
  assumes "open_session x now peer tx k room who c b = (r, cn')"
  shows "b_adds who b (cn_broker cn') \<and> (\<forall>p\<in>set (cn_out cn'). encodable p)
    \<and> cl_identity (cn_client cn') = who"
proof -
  obtain cid clean where nm: "session_name (snd now) c = (cid, clean)" by fastforce
  obtain out st where at: "attach cid who clean tx k (b_store (count connections_total_update b)) = (out, st)" by fastforce
  define cn where "cn = \<lparr>cn_client = \<lparr>cl_session = (case out of Some ao \<Rightarrow> ao_session ao | None \<Rightarrow> 0), cl_id = cid,
      cl_identity = who, cl_keep_alive = cp_keep_alive c, cl_will = cp_last_will c,
      cl_rate = RateLimiter_new (cfg_max_publish_rate (b_cfg b)) (fst now), cl_inflight = []\<rparr>,
      cn_broker = (count connections_total_update b)\<lparr>b_store := st\<rparr>, cn_out = [], cn_room = room\<rparr>"
  have 0: "b_adds who b (cn_broker cn)" "cn_out cn = []" "cl_identity (cn_client cn) = who"
    by (simp_all add: cn_def b_adds_quiet)
  have "adds cn cn'"
  proof (cases out)
    case None
    with assms show ?thesis by (simp add: open_session_def Let_def nm at cn_def)
  next
    case (Some ao)
    obtain r1 cn1 where 1: "send (PConnAck Success (ao_present ao)) cn = (r1, cn1)" by fastforce
    note a1 = send_adds [OF encodable_simps(1) 1]
    show ?thesis
    proof (cases r1)
      case (Inl e)
      with assms a1 Some 1 show ?thesis by (simp add: open_session_def Let_def nm at cn_def)
    next
      case (Inr u)
      let ?cn2 = "on_broker (publish_client_event x cid (''connect addr='' @ peer @ '' clean='' @ show_bool clean)) cn1"
      have a2: "adds cn1 ?cn2" by (rule adds_on_broker) (rule client_event_adds)
      obtain r3 cn3 where 3: "try_each send_backlog_one (ao_backlog ao) ?cn2 = (r3, cn3)" by fastforce
      have "cn' = cn3" using assms Some 1 3 Inr
        by (cases r3) (simp_all add: open_session_def Let_def nm at cn_def)
      with adds_trans [OF a1 adds_trans [OF a2 try_each_adds [OF send_backlog_one_adds 3]]] show ?thesis by simp
    qed
  qed
  with 0 b_adds_trans show ?thesis unfolding adds_def by (metis append_Nil)
qed

lemma connect_gate_quiet:
  assumes "connect_gate x now cert c b = (g, b')"
  shows "b_cfg b' = b_cfg b \<and> b_acl b' = b_acl b \<and> b_bus b' = b_bus b \<and> b_retained b' = b_retained b
    \<and> st_registry (b_store b') = st_registry (b_store b) \<and> st_heap (b_store b') = st_heap (b_store b)
    \<and> env_fs (st_env (b_store b')) = env_fs (st_env (b_store b))"
  using assms
  by (auto simp: connect_gate_def count_def Let_def split: prod.splits bool.splits option.splits sum.splits)

lemma serve_confined:
  assumes "serve x now peer cert tx k room (FirstPacket (PConnect c)) events last_now b = sv"
  shows "\<exists>ops. b_bus (sv_broker sv) = b_bus b @ ops
    \<and> (\<forall>w\<in>set ops. \<exists>who. fst (connect_gate x now cert c b) = Granted who \<and> confined (b_cfg b) (b_acl b) who w)
    \<and> (\<forall>p\<in>set (sv_out sv). encodable p)
    \<and> b_cfg (sv_broker sv) = b_cfg b \<and> b_acl (sv_broker sv) = b_acl b"
proof -
  obtain g b1 where g: "connect_gate x now cert c b = (g, b1)" by fastforce
  note q = connect_gate_quiet [OF g]
  show ?thesis
  proof (cases g)
    case (Refused code)
    with assms g q show ?thesis by (auto simp: serve_def split: if_splits)
  next
    case (Granted who)
    obtain r cn where o: "open_session x now peer tx k room who c b1 = (r, cn)" by fastforce
    note op = open_session_adds [OF o]
    have "\<exists>cn'. sv_broker sv = cn_broker cn' \<and> sv_out sv = cn_out cn' \<and> adds cn cn'"
    proof (cases r)
      case (Inl e)
      with assms g Granted o show ?thesis by (intro exI [of _ cn]) (auto simp: serve_def)
    next
      case (Inr ep)
      obtain r2 cn2 where rn: "run x events cn = (r2, cn2)" by fastforce
      note a = run_adds [OF rn]
      show ?thesis
      proof (cases r2)
        case None
        with assms g Granted o Inr rn a show ?thesis by (intro exI [of _ cn2]) (auto simp: serve_def)
      next
        case (Some res)
        with assms g Granted o Inr rn adds_trans [OF a close_session_adds] show ?thesis
          by (intro exI [of _ "close_session x last_now (snd (session_name (snd now) c)) ep res cn2"])
            (auto simp: serve_def Let_def)
      qed
    qed
    then obtain cn' where cn': "sv_broker sv = cn_broker cn'" "sv_out sv = cn_out cn'" "adds cn cn'" by blast
    have "b_adds who b1 (cn_broker cn')" using op cn'(3) b_adds_trans unfolding adds_def by blast
    moreover have "\<forall>p\<in>set (cn_out cn'). encodable p" using op cn'(3) unfolding adds_def by auto
    ultimately show ?thesis using q g Granted cn'(1,2) unfolding b_adds_def by auto
  qed
qed

section \<open>Properties\<close>

text \<open>(C10) Everything one connection makes the node write to the bus, from CONNECT to the last
  will, is confined: for every write there is a topic that the access list lets the
  authenticated identity publish on, and the write goes to that topic's key or its retained
  slot; or it goes to one of the node's own \<open>@meta\<close> keys. A refused connection writes nothing.
  And every packet the connection sends is one the writer can encode.\<close>

theorem connection_writes_confined:
  assumes "serve x now peer cert tx k room (FirstPacket (PConnect c)) events last_now b = sv"
  shows "\<exists>ops. b_bus (sv_broker sv) = b_bus b @ ops
    \<and> (\<forall>w\<in>set ops. \<exists>who. fst (connect_gate x now cert c b) = Granted who \<and> confined (b_cfg b) (b_acl b) who w)
    \<and> (\<forall>p\<in>set (sv_out sv). encodable p)"
  using serve_confined [OF assms] by blast

definition demo_x :: "((string, RetainedEntry list) hashmap, gcra) extern" where
  "demo_x = \<lparr>x_cache = list_cache, x_governor = gcra_api, x_digest = (\<lambda>_. []), x_rnd = (\<lambda>r. r),
     x_bus = (\<lambda>_. True), x_declare = (\<lambda>_. True)\<rparr>"

definition demo_rules :: Acl where
  "demo_rules = Acl_new [\<lparr>rule_user = ''*'', rule_publish = [''a/#''], rule_subscribe = [''a/#'']\<rparr>] Deny"

definition demo_broker :: "((string, RetainedEntry list) hashmap, gcra) Broker" where
  "demo_broker = \<lparr>b_cfg = NodeConfig_default, b_auth = Authenticator_new AuthConfig_default,
     b_acl = demo_rules,
     b_retained = RetainedStore_default list_cache, b_store = demo_store0, b_admission = None,
     b_staleness = StalenessPolicy_new [] 30, b_conn_count = 0, b_bus = []\<rparr>"

definition demo_connect :: Connect where
  "demo_connect = \<lparr>cp_client_id = ''dev1'', cp_clean_session = True, cp_keep_alive = 60, cp_login = None,
     cp_last_will = Some \<lparr>lw_topic = ''a/gone'', lw_message = [1], lw_retain = False\<rparr>\<rparr>"

definition demo_client :: Client where
  "demo_client = \<lparr>cl_session = 0, cl_id = ''dev1'', cl_identity = '''', cl_keep_alive = 60,
     cl_will = Some \<lparr>lw_topic = ''a/gone'', lw_message = [1], lw_retain = False\<rparr>,
     cl_rate = RateLimiter_new 0 0, cl_inflight = []\<rparr>"

definition demo_conn :: "((string, RetainedEntry list) hashmap, gcra) conn" where
  "demo_conn = \<lparr>cn_client = demo_client, cn_broker = demo_broker\<lparr>b_store := demo_store1\<rparr>, cn_out = [], cn_room = 9\<rparr>"

lemma demo_facts:
  "cn_broker demo_conn = demo_broker\<lparr>b_store := demo_store1\<rparr>" "cn_out demo_conn = []" "cn_room demo_conn = 9"
  "cn_client demo_conn = demo_client" "cl_identity demo_client = ''''" "cl_rate demo_client = RateLimiter_new 0 0"
  "cfg_scope (b_cfg demo_broker) = ''''" "b_acl demo_broker = demo_rules" "b_bus demo_broker = []"
  "x_bus demo_x w" "x_declare demo_x ke" "b_admission demo_broker = None"
  by (simp_all add: demo_conn_def demo_client_def demo_broker_def NodeConfig_default_def demo_x_def)

theorem connection_writes_confined_witness:
  "list_all encodable (sv_out (serve demo_x (0, 0) ''peer'' None 7 8 9 (FirstPacket (PConnect demo_connect))
     [((1, 1), Recv (PPublish (Publish_new ''a/b'' AtLeastOnce [5]))), ((2, 2), Recv PDisconnect)] (3, 3) demo_broker))"
  using connection_writes_confined [OF refl, of demo_x "(0, 0)" "''peer''" None 7 8 9 demo_connect
      "[((1, 1), Recv (PPublish (Publish_new ''a/b'' AtLeastOnce [5]))), ((2, 2), Recv PDisconnect)]" "(3, 3)" demo_broker]
  by (auto simp: list_all_iff)

end
