(* ===== verification/Connection_Protocol.thy ===== *)
theory Connection_Protocol
  imports Connection_Safety
begin

text \<open>
  What the handlers of \<open>Connection\<close> promise a client: acknowledgements, the answer to a
  SUBSCRIBE and the retained messages after it, the last will, the order of the first
  packets, and that a refused connection leaves no trace.
\<close>

section \<open>Publishing\<close>

definition ack_of :: "Publish \<Rightarrow> Packet list" where
  "ack_of p = (case p_qos p of AtMostOnce \<Rightarrow> [] | AtLeastOnce \<Rightarrow> [PPubAck (p_pkid p)] | ExactlyOnce \<Rightarrow> [PPubRec (p_pkid p)])"

lemma acknowledge_ok:
  assumes "0 < cn_room cn"
  shows "\<exists>cn'. acknowledge p cn = (Inr (), cn') \<and> cn_out cn' = cn_out cn @ ack_of p \<and> cn_broker cn' = cn_broker cn"
  using assms by (cases "p_qos p") (auto simp: acknowledge_def send_def ack_of_def)

text \<open>What a publish does: with the rate limit respected and a valid topic, a publish the access
  list permits writes its payload under the topic's key and then, if it is retained, the
  retained slot (cleared by an empty payload); one the list denies writes nothing. Either
  way it is acknowledged as its level asks: not at all, PUBACK, or PUBREC.\<close>

theorem publish_correct:
  assumes "fst (allow (x_rnd x) (fst now) (cl_rate (cn_client cn)))"
    and "topic_to_keyexpr (p_topic p) (cfg_scope (b_cfg (cn_broker cn))) = Inr ke"
    and "\<And>w. x_bus x w" and "0 < cn_room cn"
  shows "\<exists>cn'. handle_publish x now p cn = (Inr (), cn') \<and> cn_out cn' = cn_out cn @ ack_of p
    \<and> b_bus (cn_broker cn') = b_bus (cn_broker cn) @
        (if may_publish (b_acl (cn_broker cn)) (cl_identity (cn_client cn)) (p_topic p)
         then BusPut ke (p_payload p) #
           (if p_retain p then [retained_write (cfg_scope (b_cfg (cn_broker cn))) (snd now) p] else [])
         else [])"
proof -
  obtain rl where a: "allow (x_rnd x) (fst now) (cl_rate (cn_client cn)) = (True, rl)"
    using assms(1) by (metis prod.collapse)
  let ?cn = "cn\<lparr>cn_client := (cn_client cn)\<lparr>cl_rate := rl\<rparr>\<rparr>"
  show ?thesis
  proof (cases "may_publish (b_acl (cn_broker cn)) (cl_identity (cn_client cn)) (p_topic p)")
    case False
    from acknowledge_ok [of "on_broker (count publish_denied_total_update) ?cn" p] assms(4) False a assms(2)
    show ?thesis by (auto simp: handle_publish_def on_broker_def)
  next
    case True
    obtain ok b where r: "relay x (snd now) ke p (cn_broker cn) = (ok, b)" by fastforce
    then have ok: "ok" using assms(3) by (auto simp: relay_def bus_write_def Let_def split: if_splits)
    with relay_writes [OF r] have bus: "b_bus b = b_bus (cn_broker cn) @ BusPut ke (p_payload p) #
        (if p_retain p then [retained_write (cfg_scope (b_cfg (cn_broker cn))) (snd now) p] else [])" by auto
    from acknowledge_ok [of "?cn\<lparr>cn_broker := b\<rparr>" p] assms(4) True a assms(2) r ok bus
    show ?thesis by (auto simp: handle_publish_def)
  qed
qed

theorem publish_correct_witness:
  "\<exists>cn'. handle_publish demo_x (1, 1) (Publish_new ''b/x'' AtLeastOnce [5]) demo_conn = (Inr (), cn')
     \<and> cn_out cn' = [PPubAck 0] \<and> b_bus (cn_broker cn') = []"
proof -
  have t: "topic_to_keyexpr ''b/x'' '''' = Inr ''b/x''" by code_simp
  have m: "\<not> may_publish demo_rules '''' ''b/x''" by code_simp
  show ?thesis
    using publish_correct [of demo_x "(1, 1)" demo_conn "Publish_new ''b/x'' AtLeastOnce [5]" "''b/x''"] t m
    by (simp add: demo_facts Publish_new_def ack_of_def allow_def RateLimiter_new_def)
qed

lemma publish_outcome:
  assumes "handle_publish x now p cn = (r, cn')"
  shows "case r of
      Inr _ \<Rightarrow> cn_out cn' = cn_out cn @ ack_of p
        \<and> (if may_publish (b_acl (cn_broker cn)) (cl_identity (cn_client cn)) (p_topic p)
           then \<exists>ke. topic_to_keyexpr (p_topic p) (cfg_scope (b_cfg (cn_broker cn))) = Inr ke
              \<and> b_bus (cn_broker cn') = b_bus (cn_broker cn) @ BusPut ke (p_payload p) #
                  (if p_retain p then [retained_write (cfg_scope (b_cfg (cn_broker cn))) (snd now) p] else [])
           else b_bus (cn_broker cn') = b_bus (cn_broker cn))
    | Inl e \<Rightarrow> cn_out cn' = cn_out cn
        \<and> (e = RateExceeded \<longleftrightarrow> \<not> fst (allow (x_rnd x) (fst now) (cl_rate (cn_client cn))))
        \<and> (e \<in> {BusError, WriterClosed} \<or> b_bus (cn_broker cn') = b_bus (cn_broker cn))"
proof -
  have ack: "(case r of Inr _ \<Rightarrow> cn_out cn'' = cn_out c @ ack_of p | Inl e \<Rightarrow> e = WriterClosed \<and> cn_out cn'' = cn_out c)
    \<and> cn_broker cn'' = cn_broker c" if "acknowledge p c = (r, cn'')" for c cn'' r
    using that by (auto simp: acknowledge_def send_def ack_of_def split: QoS.splits if_splits)
  have rel: "b_bus b' = b_bus b @ BusPut ke (p_payload p) #
      (if p_retain p then [retained_write (cfg_scope (b_cfg b)) (snd now) p] else [])"
    if "relay x (snd now) ke p b = (True, b')" for b b' ke
    using that by (auto simp: relay_def bus_write_def Let_def split: if_splits)
  obtain ok rl where a: "allow (x_rnd x) (fst now) (cl_rate (cn_client cn)) = (ok, rl)" by fastforce
  show ?thesis
    using assms
    by (auto simp: handle_publish_def a Let_def on_broker_def split: if_splits sum.splits prod.splits bool.splits
        dest!: ack dest: rel)
qed

text \<open>(C12) An acknowledgement is honest: whatever the bus and the writer do, \<open>handle_publish\<close> either
  succeeds, and then the packets it sent are the acknowledgement and the message was
  denied or the bus took it (with its retained slot); or it fails, and then no packet
  was sent, so a client never sees an acknowledgement of a message the bus refused. The
  rate limit and an invalid topic fail before anything is written.\<close>

theorem publish_ack_honest:
  assumes "handle_publish x now p cn = (r, cn')"
  shows "case r of
      Inr _ \<Rightarrow> cn_out cn' = cn_out cn @ ack_of p
        \<and> (if may_publish (b_acl (cn_broker cn)) (cl_identity (cn_client cn)) (p_topic p)
           then \<exists>ke. topic_to_keyexpr (p_topic p) (cfg_scope (b_cfg (cn_broker cn))) = Inr ke
              \<and> b_bus (cn_broker cn') = b_bus (cn_broker cn) @ BusPut ke (p_payload p) #
                  (if p_retain p then [retained_write (cfg_scope (b_cfg (cn_broker cn))) (snd now) p] else [])
           else b_bus (cn_broker cn') = b_bus (cn_broker cn))
    | Inl e \<Rightarrow> cn_out cn' = cn_out cn
        \<and> (e = RateExceeded \<longleftrightarrow> \<not> fst (allow (x_rnd x) (fst now) (cl_rate (cn_client cn))))
        \<and> (e \<in> {BusError, WriterClosed} \<or> b_bus (cn_broker cn') = b_bus (cn_broker cn))"
  by (rule publish_outcome [OF assms])

theorem publish_ack_honest_witness:
  "\<exists>cn'. handle_publish (demo_x\<lparr>x_bus := \<lambda>_. False\<rparr>) (1, 1) (Publish_new ''a/x'' AtLeastOnce [5]) demo_conn = (Inl BusError, cn')
     \<and> cn_out cn' = []"
proof -
  have t: "topic_to_keyexpr ''a/x'' '''' = Inr ''a/x''" by code_simp
  have m: "may_publish demo_rules '''' ''a/x''" by code_simp
  have "fst (handle_publish (demo_x\<lparr>x_bus := \<lambda>_. False\<rparr>) (1, 1) (Publish_new ''a/x'' AtLeastOnce [5]) demo_conn) = Inl BusError"
    by (simp add: handle_publish_def demo_facts allow_def RateLimiter_new_def Publish_new_def t m relay_def bus_write_def)
  then obtain cn' where h: "handle_publish (demo_x\<lparr>x_bus := \<lambda>_. False\<rparr>) (1, 1) (Publish_new ''a/x'' AtLeastOnce [5]) demo_conn
      = (Inl BusError, cn')" by (metis prod.collapse)
  from publish_ack_honest [OF h] h show ?thesis by (simp add: demo_facts)
qed

section \<open>Subscribing\<close>

text \<open>The return code of one requested filter: success at the granted level if the filter is valid,
  permitted, and taken by the bus.\<close>

definition sub_code :: "('c, 'l) extern \<Rightarrow> ('c, 'l) Broker \<Rightarrow> string \<Rightarrow> string \<times> QoS \<Rightarrow> SubscribeReasonCode" where
  "sub_code x b who fq =
     (if restorable (b_acl b) (cfg_scope (b_cfg b)) (x_declare x) who (fst fq)
      then SubSuccess (granted_qos (snd fq)) else SubFailure)"

text \<open>Two states that answer a subscription alike and have sent the same packets.\<close>

definition alike :: "('c, 'l) conn \<Rightarrow> ('c, 'l) conn \<Rightarrow> bool" where
  "alike cn cn' \<longleftrightarrow>
     b_cfg (cn_broker cn') = b_cfg (cn_broker cn) \<and> b_acl (cn_broker cn') = b_acl (cn_broker cn)
   \<and> b_retained (cn_broker cn') = b_retained (cn_broker cn)
   \<and> cl_identity (cn_client cn') = cl_identity (cn_client cn)
   \<and> cn_out cn' = cn_out cn \<and> cn_room cn' = cn_room cn"

lemma alike_refl [simp]: "alike cn cn"
  by (simp add: alike_def)

lemma alike_trans: "alike cn cn' \<Longrightarrow> alike cn' cn'' \<Longrightarrow> alike cn cn''"
  by (simp add: alike_def)

lemma alike_on_broker:
  "b_cfg (f (cn_broker cn)) = b_cfg (cn_broker cn) \<Longrightarrow> b_acl (f (cn_broker cn)) = b_acl (cn_broker cn) \<Longrightarrow>
   b_retained (f (cn_broker cn)) = b_retained (cn_broker cn) \<Longrightarrow> alike cn (on_broker f cn)"
  by (simp add: alike_def on_broker_def)

lemma event_simps [simp]:
  "b_cfg (publish_client_event x c ev b) = b_cfg b" "b_acl (publish_client_event x c ev b) = b_acl b"
  "b_retained (publish_client_event x c ev b) = b_retained b" "b_store (publish_client_event x c ev b) = b_store b"
  by (simp_all add: publish_client_event_def)

lemma subscribe_filter_code:
  assumes "subscribe_filter x f q cn = (code, cn')"
  shows "code = sub_code x (cn_broker cn) (cl_identity (cn_client cn)) (f, q) \<and> alike cn cn'"
  using assms
  by (auto simp: subscribe_filter_def Let_def sub_code_def restorable_def activate_subscription_def alike_def on_broker_def
      split: sum.splits if_splits)

lemma subscribe_all_codes:
  "subscribe_all x fs cn = (codes, cn') \<Longrightarrow>
     codes = map (sub_code x (cn_broker cn) (cl_identity (cn_client cn))) fs \<and> alike cn cn'"
proof (induction fs arbitrary: cn codes cn')
  case (Cons a fs)
  obtain f q where a: "a = (f, q)" by (cases a)
  obtain code cn1 where 1: "subscribe_filter x f q cn = (code, cn1)" by fastforce
  obtain cs cn2 where 2: "subscribe_all x fs cn1 = (cs, cn2)" by fastforce
  note s = subscribe_filter_code [OF 1] and r = Cons.IH [OF 2]
  have "sub_code x (cn_broker cn1) (cl_identity (cn_client cn1)) =
      sub_code x (cn_broker cn) (cl_identity (cn_client cn))"
    using s by (simp add: fun_eq_iff sub_code_def alike_def)
  with Cons.prems 1 2 s r show ?case by (auto simp: a intro: alike_trans)
qed simp

text \<open>What a retained delivery shows the client of a stored entry.\<close>

definition shown :: "Publish \<Rightarrow> string \<times> bytes \<times> QoS \<times> bool" where
  "shown p = (p_topic p, p_payload p, p_qos p, p_retain p)"

definition retained_for :: "(string, bytes \<times> system_time) hashmap \<Rightarrow> string \<times> QoS \<Rightarrow> (string \<times> bytes \<times> QoS \<times> bool) list" where
  "retained_for mp fq = map (\<lambda>(t, payload, _). (t, payload, snd fq, True)) (scan_map mp (fst fq))"

lemma next_pkid_alike: "client_next_pkid cn = (n, cn') \<Longrightarrow> alike cn cn'"
  by (auto simp: client_next_pkid_def Let_def alike_def split: option.splits prod.splits)

lemma flag_simps [simp]:
  "b_cfg (flag_if_stale x now t ts b) = b_cfg b" "b_acl (flag_if_stale x now t ts b) = b_acl b"
  "b_retained (flag_if_stale x now t ts b) = b_retained b"
  by (simp_all add: flag_if_stale_def Let_def)

lemma deliver_retained_one_ok:
  assumes "0 < cn_room cn"
  shows "\<exists>p cn'. deliver_retained_one x now q (t, payload, ts) cn = (Inr (), cn')
    \<and> cn_out cn' = cn_out cn @ [PPublish p] \<and> shown p = (t, payload, q, True)
    \<and> cn_room cn' = cn_room cn - 1 \<and> b_retained (cn_broker cn') = b_retained (cn_broker cn)"
proof -
  let ?p = "(Publish_new t q payload)\<lparr>p_retain := True\<rparr>"
  let ?done = "\<lambda>n cn1. on_broker (flag_if_stale x now t ts \<circ> count messages_out_total_update)
      (cn1\<lparr>cn_out := cn_out cn1 @ [PPublish (?p\<lparr>p_pkid := n\<rparr>)], cn_room := cn_room cn1 - 1\<rparr>)"
  have "\<exists>n cn1. alike cn cn1 \<and> deliver_retained_one x now q (t, payload, ts) cn = (Inr (), ?done n cn1)"
  proof (cases "q = AtMostOnce")
    case True
    with assms have "deliver_retained_one x now q (t, payload, ts) cn = (Inr (), ?done (p_pkid ?p) cn)"
      by (simp add: deliver_retained_one_def send_def)
    then show ?thesis using alike_refl by blast
  next
    case False
    obtain n cn1 where n: "client_next_pkid cn = (n, cn1)" by fastforce
    have al: "alike cn cn1" using next_pkid_alike [OF n] .
    then have "0 < cn_room cn1" using assms by (simp add: alike_def)
    then have "deliver_retained_one x now q (t, payload, ts) cn = (Inr (), ?done n cn1)"
      using False by (simp add: deliver_retained_one_def n send_def)
    with al show ?thesis by blast
  qed
  then obtain n cn1 where 1: "alike cn cn1" "deliver_retained_one x now q (t, payload, ts) cn = (Inr (), ?done n cn1)"
    by blast
  show ?thesis
    by (rule exI [of _ "?p\<lparr>p_pkid := n\<rparr>"], rule exI [of _ "?done n cn1"])
      (use 1 in \<open>simp add: alike_def on_broker_def shown_def Publish_new_def\<close>)
qed

lemma deliver_each_ok:
  "length es \<le> cn_room cn \<Longrightarrow>
     \<exists>ps cn'. try_each (deliver_retained_one x now q) es cn = (Inr (), cn')
       \<and> cn_out cn' = cn_out cn @ map PPublish ps
       \<and> map shown ps = map (\<lambda>(t, payload, _). (t, payload, q, True)) es
       \<and> cn_room cn' = cn_room cn - length es \<and> b_retained (cn_broker cn') = b_retained (cn_broker cn)"
proof (induction es arbitrary: cn)
  case (Cons e es)
  obtain t payload ts where e: "e = (t, payload, ts)" by (cases e)
  have "0 < cn_room cn" using Cons.prems by simp
  from deliver_retained_one_ok [OF this, of x now q t payload ts] obtain p cn1 where
    1: "deliver_retained_one x now q e cn = (Inr (), cn1)" "cn_out cn1 = cn_out cn @ [PPublish p]"
      "shown p = (t, payload, q, True)" "cn_room cn1 = cn_room cn - 1"
      "b_retained (cn_broker cn1) = b_retained (cn_broker cn)" unfolding e by blast
  have "length es \<le> cn_room cn1" using Cons.prems 1(4) by simp
  from Cons.IH [OF this] obtain ps cn' where
    2: "try_each (deliver_retained_one x now q) es cn1 = (Inr (), cn')" "cn_out cn' = cn_out cn1 @ map PPublish ps"
      "map shown ps = map (\<lambda>(t, payload, _). (t, payload, q, True)) es"
      "cn_room cn' = cn_room cn1 - length es" "b_retained (cn_broker cn') = b_retained (cn_broker cn1)" by blast
  show ?case
    by (rule exI [of _ "p # ps"], rule exI [of _ cn']) (use 1 2 in \<open>simp add: e\<close>)
qed simp

text \<open>With a coherent cache a look-up leaves the map alone and the cache coherent.\<close>

lemma matching_cached_map: "rs_map (snd (matching_cached api f s)) = rs_map s"
  by (auto simp: matching_cached_def matching_def split: option.splits)

lemma deliver_filters_ok:
  assumes "match_cache (x_cache x)"
  shows "coherent (x_cache x) (b_retained (cn_broker cn)) \<Longrightarrow> rs_map (b_retained (cn_broker cn)) = mp \<Longrightarrow>
    (\<Sum>fq\<leftarrow>fqs. length (scan_map mp (fst fq))) \<le> cn_room cn \<Longrightarrow>
    \<exists>ps cn'. try_each (deliver_retained x now) fqs cn = (Inr (), cn')
      \<and> cn_out cn' = cn_out cn @ map PPublish ps \<and> map shown ps = concat (map (retained_for mp) fqs)"
proof (induction fqs arbitrary: cn)
  case (Cons fq fqs)
  obtain f q where fq: "fq = (f, q)" by (cases fq)
  obtain ms rs where m: "matching_cached (x_cache x) f (b_retained (cn_broker cn)) = (ms, rs)" by fastforce
  have ms: "ms = scan_map mp f"
    using match_cache.matching_cached_scan [OF assms Cons.prems(1), of f] m Cons.prems(2) by simp
  have rs: "coherent (x_cache x) rs" "rs_map rs = mp"
    using match_cache.coherent_matching_cached [OF assms Cons.prems(1), of f] m
      matching_cached_map [of "x_cache x" f "b_retained (cn_broker cn)"] Cons.prems(2) by simp_all
  let ?cn = "on_broker (\<lambda>b. b\<lparr>b_retained := rs\<rparr>) cn"
  have "length ms \<le> cn_room ?cn" using Cons.prems(3) by (simp add: ms fq on_broker_def)
  from deliver_each_ok [OF this, of x now q] obtain ps cn1 where
    1: "try_each (deliver_retained_one x now q) ms ?cn = (Inr (), cn1)" "cn_out cn1 = cn_out cn @ map PPublish ps"
      "map shown ps = retained_for mp fq" "cn_room cn1 = cn_room cn - length ms" "b_retained (cn_broker cn1) = rs"
    by (auto simp: on_broker_def retained_for_def ms fq)
  have "(\<Sum>fq\<leftarrow>fqs. length (scan_map mp (fst fq))) \<le> cn_room cn1"
    using Cons.prems(3) by (simp add: 1(4) ms fq)
  from Cons.IH [OF _ _ this] rs obtain ps' cn' where
    2: "try_each (deliver_retained x now) fqs cn1 = (Inr (), cn')" "cn_out cn' = cn_out cn1 @ map PPublish ps'"
      "map shown ps' = concat (map (retained_for mp) fqs)" by (auto simp: 1(5))
  have "try_each (deliver_retained x now) (fq # fqs) cn = (Inr (), cn')"
    using 1(1) 2(1) by (simp add: deliver_retained_def fq m)
  with 1 2 show ?case by (intro exI [of _ "ps @ ps'"] exI [of _ cn']) simp
qed simp


lemma demo_retained: "b_retained (cn_broker demo_conn) = RetainedStore_default list_cache"
  by (simp add: demo_facts demo_broker_def)


section \<open>The last will\<close>

text \<open>No handler touches the will but DISCONNECT.\<close>

lemma will_kept:
  "send p cn = (r, cn') \<Longrightarrow> cl_will (cn_client cn') = cl_will (cn_client cn)"
  "acknowledge pb cn = (r, cn') \<Longrightarrow> cl_will (cn_client cn') = cl_will (cn_client cn)"
  "client_next_pkid cn = (n, cn') \<Longrightarrow> cl_will (cn_client cn') = cl_will (cn_client cn)"
  "cl_will (cn_client (on_broker f cn)) = cl_will (cn_client cn)"
  by (auto simp: send_def acknowledge_def client_next_pkid_def on_broker_def Let_def
      split: if_splits QoS.splits option.splits prod.splits)

lemma try_each_will:
  assumes "\<And>y cn r cn'. f y cn = (r, cn') \<Longrightarrow> cl_will (cn_client cn') = cl_will (cn_client cn)"
  shows "try_each f ys cn = (r, cn') \<Longrightarrow> cl_will (cn_client cn') = cl_will (cn_client cn)"
proof (induction ys arbitrary: cn)
  case (Cons y ys)
  obtain r1 cn1 where y: "f y cn = (r1, cn1)" by fastforce
  with Cons assms [OF y] show ?case by (cases r1) auto
qed simp

lemma publish_will: "handle_publish x now p cn = (r, cn') \<Longrightarrow> cl_will (cn_client cn') = cl_will (cn_client cn)"
  by (auto simp: handle_publish_def Let_def will_kept(4) split: prod.splits if_splits sum.splits bool.splits
      dest!: will_kept(2))

lemma retained_will: "deliver_retained_one x now q e cn = (r, cn') \<Longrightarrow> cl_will (cn_client cn') = cl_will (cn_client cn)"
  by (auto simp: deliver_retained_one_def Let_def will_kept(4) split: prod.splits if_splits sum.splits
      dest!: will_kept(1,3))

lemma subscribe_filter_will: "subscribe_filter x f q cn = (c, cn') \<Longrightarrow> cl_will (cn_client cn') = cl_will (cn_client cn)"
  by (auto simp: subscribe_filter_def Let_def on_broker_def split: prod.splits if_splits sum.splits)

lemma subscribe_all_will: "subscribe_all x fs cn = (c, cn') \<Longrightarrow> cl_will (cn_client cn') = cl_will (cn_client cn)"
  by (induction x fs cn arbitrary: c cn' rule: subscribe_all.induct)
    (auto split: prod.splits dest: subscribe_filter_will)

lemma deliver_retained_will: "deliver_retained x now fq cn = (r, cn') \<Longrightarrow> cl_will (cn_client cn') = cl_will (cn_client cn)"
  using try_each_will [OF retained_will] by (fastforce simp: deliver_retained_def will_kept(4) split: prod.splits)

lemma subscribe_will: "handle_subscribe x now n fs cn = (r, cn') \<Longrightarrow> cl_will (cn_client cn') = cl_will (cn_client cn)"
  using try_each_will [OF deliver_retained_will]
  by (fastforce simp: handle_subscribe_def split: prod.splits sum.splits dest: will_kept(1) subscribe_all_will)

lemma unsubscribe_will: "handle_unsubscribe x n ts cn = (r, cn') \<Longrightarrow> cl_will (cn_client cn') = cl_will (cn_client cn)"
proof -
  have "cl_will (cn_client (foldl (\<lambda>cn t. on_broker (g cn t) cn) cn ts)) = cl_will (cn_client cn)"
    for g and cn :: "('a, 'b) conn"
    by (induction ts arbitrary: cn) (simp_all add: will_kept(4))
  then show "handle_unsubscribe x n ts cn = (r, cn') \<Longrightarrow> ?thesis"
    unfolding handle_unsubscribe_def by (auto dest!: will_kept(1))
qed

lemma or_break_case: "or_break y = (fl, cn') \<Longrightarrow> \<exists>r. y = (r, cn') \<and> fl \<noteq> Break (Inr ())"
  by (cases y) (auto simp: or_break_def split: sum.splits)

lemma handle_packet_will:
  assumes "handle_packet x now p cn = (fl, cn')"
  shows "cl_will (cn_client cn') = (if fl = Break (Inr ()) then None else cl_will (cn_client cn))"
  using assms
  by (cases p) (auto simp: handle_packet_def dest!: or_break_case
      dest: publish_will subscribe_will unsubscribe_will will_kept(1))

lemma run_will:
  "run x nes cn = (Some r, cn') \<Longrightarrow> cl_will (cn_client cn') = (if r = Inr () then None else cl_will (cn_client cn))"
proof (induction nes arbitrary: cn)
  case (Cons ne nes)
  obtain fl cn1 where 1: "run_event x ne cn = (fl, cn1)" by fastforce
  have "cl_will (cn_client cn1) = (if fl = Break (Inr ()) then None else cl_will (cn_client cn))"
    using 1 by (auto simp: run_event_def take_reason_def Let_def split: prod.splits event.splits if_splits option.splits
        dest: handle_packet_will)
  with Cons 1 show ?case by (cases fl) auto
qed simp



section \<open>Connecting\<close>

text \<open>(C15) A refused CONNECT leaves no trace but its counter: when admission control or
  authentication refuses, the client is sent exactly one CONNACK with the refusal code and
  without the session-present flag, and the registry, the sessions, the files, the retained
  store and the bus are as they were.\<close>

theorem refused_connect_no_trace:
  assumes "fst (connect_gate x now cert c b) = Refused code" and "0 < room"
  shows "\<exists>b'. serve x now peer cert tx k room (FirstPacket (PConnect c)) events last_now b =
      \<lparr>sv_result = Some (Inr ()), sv_broker = b', sv_out = [PConnAck code False]\<rparr>
    \<and> code \<noteq> Success \<and> b_bus b' = b_bus b \<and> b_retained b' = b_retained b
    \<and> st_registry (b_store b') = st_registry (b_store b) \<and> st_heap (b_store b') = st_heap (b_store b)
    \<and> env_fs (st_env (b_store b')) = env_fs (st_env (b_store b))"
proof -
  obtain b' where g: "connect_gate x now cert c b = (Refused code, b')" using assms(1) by (metis prod.collapse)
  have "code \<noteq> Success"
    using g by (auto simp: connect_gate_def Let_def split: prod.splits bool.splits option.splits sum.splits ConnectDenied.splits)
  with g connect_gate_quiet [OF g] assms(2) show ?thesis by (simp add: serve_def)
qed

theorem refused_connect_no_trace_witness:
  "\<exists>b'. serve demo_x (0, 0) ''p'' None 7 8 9 (FirstPacket (PConnect (demo_connect\<lparr>cp_login := Some (''eve'', ''x'')\<rparr>))) [] (1, 1) demo_broker
     = \<lparr>sv_result = Some (Inr ()), sv_broker = b', sv_out = [PConnAck BadUserNamePassword False]\<rparr>"
proof -
  have "authenticate (\<lambda>_. []) (Authenticator_new AuthConfig_default) (Some (''eve'', ''x'')) = Inl BadCredentials"
    by code_simp
  then have "fst (connect_gate demo_x (0, 0) None (demo_connect\<lparr>cp_login := Some (''eve'', ''x'')\<rparr>) demo_broker)
      = Refused BadUserNamePassword"
    by (simp add: connect_gate_def admit_def demo_facts) (simp add: demo_x_def demo_broker_def)
  from refused_connect_no_trace [OF this, of 9 "''p''" 7 8 "[]" "(1, 1)"] show ?thesis by auto
qed

lemma send_backlog_ok:
  "length ms \<le> cn_room cn \<Longrightarrow>
     \<exists>ps cn'. try_each send_backlog_one ms cn = (Inr (), cn') \<and> cn_out cn' = cn_out cn @ map PPublish ps
       \<and> map (\<lambda>p. (p_topic p, p_payload p)) ps = ms \<and> (\<forall>p\<in>set ps. p_qos p = AtLeastOnce)"
proof (induction ms arbitrary: cn)
  case (Cons m ms)
  obtain t payload where m: "m = (t, payload)" by (cases m)
  obtain n cn1 where n: "client_next_pkid cn = (n, cn1)" by fastforce
  have al: "alike cn cn1" by (rule next_pkid_alike [OF n])
  let ?p = "(Publish_new t AtLeastOnce payload)\<lparr>p_pkid := n\<rparr>"
  let ?cn = "on_broker (count messages_out_total_update)
      (cn1\<lparr>cn_out := cn_out cn1 @ [PPublish ?p], cn_room := cn_room cn1 - 1\<rparr>)"
  have 1: "send_backlog_one m cn = (Inr (), ?cn)"
    using al Cons.prems by (simp add: send_backlog_one_def m n send_def alike_def)
  have "length ms \<le> cn_room ?cn" using Cons.prems al by (simp add: on_broker_def alike_def)
  from Cons.IH [OF this] obtain ps cn' where 2: "try_each send_backlog_one ms ?cn = (Inr (), cn')"
    "cn_out cn' = cn_out ?cn @ map PPublish ps" "map (\<lambda>p. (p_topic p, p_payload p)) ps = ms"
    "\<forall>p\<in>set ps. p_qos p = AtLeastOnce" by blast
  show ?case
    by (rule exI [of _ "?p # ps"], rule exI [of _ cn'])
      (use 1 2 al in \<open>simp add: m on_broker_def alike_def Publish_new_def\<close>)
qed simp

lemma count_store_wf: "store_wf (b_store (count c b)) = store_wf (b_store b)"
  by (simp add: count_def Let_def)

text \<open>(C16) When no delivery interferes, an accepted CONNECT is answered in order: first the CONNACK, its session-present flag the
  one the registry reports, then the whole offline backlog, oldest message first, each at
  QoS 1, before any other packet; the connection then holds the epoch the registry gave it.\<close>

theorem connect_then_backlog:
  assumes "store_wf (b_store b)" and "session_name (snd now) c = (cid, clean)"
    and "attach cid who clean tx k (b_store (count connections_total_update b)) = (out, st)"
    and "\<forall>ao. out = Some ao \<longrightarrow> length (ao_backlog ao) < room"
  shows "\<exists>ao ps cn'. out = Some ao \<and> open_session x now peer tx k room who c b = (Inr (ao_epoch ao), cn')
    \<and> cn_out cn' = PConnAck Success (ao_present ao) # map PPublish ps
    \<and> map (\<lambda>p. (p_topic p, p_payload p)) ps = ao_backlog ao \<and> (\<forall>p\<in>set ps. p_qos p = AtLeastOnce)"
proof -
  have "store_wf (b_store (count connections_total_update b))" using assms(1) by (simp add: count_store_wf)
  from attach_wf [OF this assms(3)] obtain ao where ao: "out = Some ao" by blast
  define cn where "cn = \<lparr>cn_client = \<lparr>cl_session = ao_session ao, cl_id = cid,
      cl_identity = who, cl_keep_alive = cp_keep_alive c, cl_will = cp_last_will c,
      cl_rate = RateLimiter_new (cfg_max_publish_rate (b_cfg b)) (fst now), cl_inflight = []\<rparr>,
      cn_broker = (count connections_total_update b)\<lparr>b_store := st\<rparr>, cn_out = [PConnAck Success (ao_present ao)],
      cn_room = room - 1\<rparr>"
  let ?cn = "on_broker (publish_client_event x cid (''connect addr='' @ peer @ '' clean='' @ show_bool clean)) cn"
  have "length (ao_backlog ao) \<le> cn_room ?cn" using assms(4) ao by (simp add: cn_def on_broker_def)
  from send_backlog_ok [OF this] obtain ps cn' where
    1: "try_each send_backlog_one (ao_backlog ao) ?cn = (Inr (), cn')" "cn_out cn' = cn_out ?cn @ map PPublish ps"
      "map (\<lambda>p. (p_topic p, p_payload p)) ps = ao_backlog ao" "\<forall>p\<in>set ps. p_qos p = AtLeastOnce" by blast
  have "0 < room" using assms(4) ao by auto
  then have "open_session x now peer tx k room who c b = (Inr (ao_epoch ao), cn')"
    using assms(2,3) ao 1(1) by (simp add: open_session_def Let_def send_def cn_def)
  with 1 ao show ?thesis by (auto simp: cn_def on_broker_def)
qed

lemma demo_attach_out:
  "attach ''dev1'' '''' True 7 8 (b_store (count connections_total_update demo_broker)) =
     (Some \<lparr>ao_session = 0, ao_present = False, ao_epoch = 1, ao_backlog = []\<rparr>,
      snd (attach ''dev1'' '''' True 7 8 (b_store (count connections_total_update demo_broker))))"
proof -
  have "fst (attach ''dev1'' '''' True 7 8 (st\<lparr>st_env := e\<rparr>)) =
      Some \<lparr>ao_session = 0, ao_present = False, ao_epoch = 1, ao_backlog = []\<rparr>" if "st = demo_store0" for st e
    by (simp add: that attach_def attach_clean attach_conn_new cleared_def alloc_def Let_def demo_store0_def
        store_init_def SessionRegistry_new_def discard_paths_def register_def hm_insert_def split: option.split)
  from this [of "b_store demo_broker"]
  have "fst (attach ''dev1'' '''' True 7 8 (b_store (count connections_total_update demo_broker))) =
      Some \<lparr>ao_session = 0, ao_present = False, ao_epoch = 1, ao_backlog = []\<rparr>"
    by (simp add: count_def Let_def demo_broker_def)
  then show ?thesis by (metis prod.collapse)
qed

theorem connect_then_backlog_witness:
  "\<exists>cn'. open_session demo_x (0, 0) ''p'' 7 8 9 '''' demo_connect demo_broker = (Inr 1, cn')
     \<and> cn_out cn' = [PConnAck Success False]"
proof -
  have "store_wf (b_store demo_broker)" using store_init_wf by (simp add: demo_broker_def demo_store0_def)
  moreover have "session_name (snd (0, 0)) demo_connect = (''dev1'', True)" by (simp add: session_name_def demo_connect_def)
  ultimately show ?thesis
    using connect_then_backlog [OF _ _ demo_attach_out, of "(0, 0)" demo_connect 9 demo_x "''p''"] by auto
qed

text \<open>A CONNACK that cannot be written leaks the session: \<open>serve\<close> returns at once, and a clean
  session stays registered, attached to a channel nobody reads, with no disconnect to come.\<close>

theorem connack_failure_leaks_session:
  "\<exists>s. sv_result (serve demo_x (0, 0) ''p'' None 7 8 0 (FirstPacket (PConnect demo_connect)) [] (1, 1) demo_broker)
      = Some (Inl WriterClosed)
    \<and> hm_get (sessions (st_registry (b_store (sv_broker
        (serve demo_x (0, 0) ''p'' None 7 8 0 (FirstPacket (PConnect demo_connect)) [] (1, 1) demo_broker))))) ''dev1'' = Some 0
    \<and> hm_get (st_heap (b_store (sv_broker
        (serve demo_x (0, 0) ''p'' None 7 8 0 (FirstPacket (PConnect demo_connect)) [] (1, 1) demo_broker)))) 0 = Some s
    \<and> sink (inner s) = Some 7"
proof -
  let ?b = "demo_broker\<lparr>b_admission := None\<rparr>"
  let ?st = "snd (attach ''dev1'' '''' True 7 8 (b_store (count connections_total_update demo_broker)))"
  have b: "?b = demo_broker" by (simp add: demo_broker_def)
  have g: "connect_gate demo_x (0, 0) None demo_connect demo_broker = (Granted '''', demo_broker)"
  proof -
    have "authenticate (\<lambda>_. []) (Authenticator_new AuthConfig_default) None = Inr ''''" by code_simp
    then show ?thesis using b
      by (simp add: connect_gate_def admit_def demo_facts) (simp add: demo_x_def demo_broker_def demo_connect_def)
  qed
  define st where "st = ?st"
  have at: "attach ''dev1'' '''' True 7 8 (b_store (count connections_total_update demo_broker)) =
      (Some \<lparr>ao_session = 0, ao_present = False, ao_epoch = 1, ao_backlog = []\<rparr>, st)"
    unfolding st_def by (rule demo_attach_out)
  have nm: "session_name 0 demo_connect = (''dev1'', True)" by (simp add: session_name_def demo_connect_def)
  have sv: "serve demo_x (0, 0) ''p'' None 7 8 0 (FirstPacket (PConnect demo_connect)) [] (1, 1) demo_broker =
      \<lparr>sv_result = Some (Inl WriterClosed), sv_broker = (count connections_total_update demo_broker)\<lparr>b_store := st\<rparr>, sv_out = []\<rparr>"
    by (simp add: serve_def g open_session_def nm at send_def)
  have "hm_get (sessions (st_registry (snd (attach ''dev1'' '''' True 7 8 (demo_store0\<lparr>st_env := e\<rparr>))))) ''dev1'' = Some 0
    \<and> (\<exists>s. hm_get (st_heap (snd (attach ''dev1'' '''' True 7 8 (demo_store0\<lparr>st_env := e\<rparr>)))) 0 = Some s \<and> sink (inner s) = Some 7)" for e
    by (simp add: attach_def attach_clean attach_conn_new cleared_def alloc_def Let_def demo_store0_def
        store_init_def SessionRegistry_new_def discard_paths_def register_def hm_insert_def
        split: option.split)
  then show ?thesis unfolding sv by (simp add: st_def count_def Let_def demo_broker_def)
qed

end
