(* ===== verification/Framing.thy ===== *)
theory Framing
  imports Connection
begin

text \<open>
  Packet framing of \<open>crates/entmoot-node/src/connection.rs\<close>: the read loop \<open>read_from\<close> of
  \<open>MqttConn\<close> and \<open>PacketReader\<close>, \<open>encode\<close>, \<open>write_packet\<close>, and the writer task \<open>split\<close> spawns.

  Parsing and printing one packet is the \<open>mqttbytes\<close> crate, here the arguments \<open>parse\<close>
  (\<open>v4::read\<close>) and \<open>wr\<close> (\<open>Packet::write\<close>). What the node relies on is \<open>codec\<close>: a printed
  packet is parsed back off the front of the buffer, and a proper prefix of one asks for more.
\<close>

section \<open>Definitions\<close>

definition encode :: "(Packet \<Rightarrow> bytes option) \<Rightarrow> Packet \<Rightarrow> bytes option" where
  "encode wr p = (if encodable p then wr p else None)"

text \<open>\<open>write_all\<close> on a socket that takes \<open>cap\<close> more bytes before it breaks: what it took, and
  how much it takes from then on; a broken socket is \<open>None\<close>.\<close>

definition write_all :: "nat \<Rightarrow> bytes \<Rightarrow> bytes \<times> nat option" where
  "write_all cap bs = (if length bs \<le> cap then (bs, Some (cap - length bs)) else (take cap bs, None))"

definition write_packet :: "(Packet \<Rightarrow> bytes option) \<Rightarrow> Packet \<Rightarrow> nat \<Rightarrow> (ConnError, unit) result \<times> bytes" where
  "write_packet wr p cap =
     (case encode wr p of
        None \<Rightarrow> (Inl WriterClosed, [])
      | Some bs \<Rightarrow> (case write_all cap bs of (out, None) \<Rightarrow> (Inl WriterClosed, out) | (out, Some _) \<Rightarrow> (Inr (), out)))"

text \<open>The writer task: a packet that cannot be encoded is skipped, a failed write ends it.\<close>

fun writer_loop :: "(Packet \<Rightarrow> bytes option) \<Rightarrow> nat \<Rightarrow> Packet list \<Rightarrow> bytes" where
  "writer_loop wr cap [] = []"
| "writer_loop wr cap (p # ps) =
     (case encode wr p of
        None \<Rightarrow> writer_loop wr cap ps
      | Some bs \<Rightarrow> (case write_all cap bs of (out, None) \<Rightarrow> out | (out, Some cap) \<Rightarrow> out @ writer_loop wr cap ps))"

text \<open>The first \<open>n\<close> packets a connection reads; it stops at the first error.\<close>

fun read_packets ::
    "(nat \<Rightarrow> bytes \<Rightarrow> parsed) \<Rightarrow> nat \<Rightarrow> nat \<Rightarrow> bytes \<Rightarrow> bytes list
       \<Rightarrow> Packet list \<times> bytes \<times> bytes list" where
  "read_packets parse max_size 0 buf chunks = ([], buf, chunks)"
| "read_packets parse max_size (Suc n) buf chunks =
     (case read_from parse max_size buf chunks of
        (Inl _, buf, chunks) \<Rightarrow> ([], buf, chunks)
      | (Inr p, buf, chunks) \<Rightarrow>
          (case read_packets parse max_size n buf chunks of (ps, r) \<Rightarrow> (p # ps, r)))"

text \<open>The connection before its CONNECT, and the reading half that \<open>split\<close> makes of it: the bytes that
  were read beyond the CONNECT go with it. The stream is the list of what the reads yield.\<close>

record MqttConn =
  mc_buf :: bytes
  mc_max_packet_size :: nat

record PacketReader =
  pr_buf :: bytes
  pr_max_packet_size :: nat

definition MqttConn_new :: "nat \<Rightarrow> MqttConn" where
  "MqttConn_new max_size = \<lparr>mc_buf = [], mc_max_packet_size = max_size\<rparr>"

definition conn_read_packet ::
    "(nat \<Rightarrow> bytes \<Rightarrow> parsed) \<Rightarrow> bytes list \<Rightarrow> MqttConn \<Rightarrow> (ConnError, Packet) result \<times> MqttConn \<times> bytes list" where
  "conn_read_packet parse stream c =
     (case read_from parse (mc_max_packet_size c) (mc_buf c) stream of
        (r, buf, stream) \<Rightarrow> (r, c\<lparr>mc_buf := buf\<rparr>, stream))"

definition split_conn :: "MqttConn \<Rightarrow> PacketReader" where
  "split_conn c = \<lparr>pr_buf = mc_buf c, pr_max_packet_size = mc_max_packet_size c\<rparr>"

definition reader_read_packet ::
    "(nat \<Rightarrow> bytes \<Rightarrow> parsed) \<Rightarrow> bytes list \<Rightarrow> PacketReader \<Rightarrow> (ConnError, Packet) result \<times> PacketReader \<times> bytes list" where
  "reader_read_packet parse stream r =
     (case read_from parse (pr_max_packet_size r) (pr_buf r) stream of
        (res, buf, stream) \<Rightarrow> (res, r\<lparr>pr_buf := buf\<rparr>, stream))"

fun reader_packets :: "(nat \<Rightarrow> bytes \<Rightarrow> parsed) \<Rightarrow> nat \<Rightarrow> bytes list \<Rightarrow> PacketReader \<Rightarrow> Packet list" where
  "reader_packets parse 0 stream r = []"
| "reader_packets parse (Suc n) stream r =
     (case reader_read_packet parse stream r of
        (Inl _, _, _) \<Rightarrow> []
      | (Inr p, r, stream) \<Rightarrow> p # reader_packets parse n stream r)"

text \<open>The packets \<open>serve\<close> reads: the first on the whole connection, \<open>n\<close> more after the split.\<close>

definition serve_reads :: "(nat \<Rightarrow> bytes \<Rightarrow> parsed) \<Rightarrow> nat \<Rightarrow> nat \<Rightarrow> bytes list \<Rightarrow> Packet list" where
  "serve_reads parse max_size n stream =
     (case conn_read_packet parse stream (MqttConn_new max_size) of
        (Inl _, _, _) \<Rightarrow> []
      | (Inr p, c, stream) \<Rightarrow> p # reader_packets parse n stream (split_conn c))"

section \<open>What the node relies on\<close>

definition codec :: "(nat \<Rightarrow> bytes \<Rightarrow> parsed) \<Rightarrow> (Packet \<Rightarrow> bytes option) \<Rightarrow> nat \<Rightarrow> bool" where
  "codec parse wr max_size \<longleftrightarrow>
     (\<forall>p bs aft. wr p = Some bs \<longrightarrow>
        parse max_size (bs @ aft) = Parsed p aft \<and> (\<forall>k<length bs. parse max_size (take k bs) = NeedMore))"

lemma codec_whole: "codec parse wr n \<Longrightarrow> wr p = Some bs \<Longrightarrow> parse n (bs @ aft) = Parsed p aft"
  unfolding codec_def by blast

lemma codec_part: "codec parse wr n \<Longrightarrow> wr p = Some bs \<Longrightarrow> k < length bs \<Longrightarrow> parse n (take k bs) = NeedMore"
  unfolding codec_def by blast

text \<open>Every way a printed packet can arrive: all of it is there, or its beginning is.\<close>

lemma append_prefix_cases:
  assumes "buf @ rest = bs @ aft"
  obtains (whole) r where "buf = bs @ r" "aft = r @ rest"
  | (part) "buf = take (length buf) bs" "length buf < length bs"
proof (cases "length bs \<le> length buf")
  case True
  with assms whole show ?thesis by (auto simp: append_eq_append_conv2)
next
  case False
  with assms part show ?thesis by (metis append_eq_append_conv_if not_le)
qed

lemma read_from_whole:
  "codec parse wr n \<Longrightarrow> wr p = Some bs \<Longrightarrow> read_from parse n (bs @ aft) chunks = (Inr p, aft, chunks)"
  by (simp add: read_from.simps [of parse n "bs @ aft"] codec_whole)

text \<open>One packet off a stream that begins with it, however the stream is cut into reads.\<close>

lemma read_from_chunked:
  assumes "codec parse wr n" and "wr p = Some bs" and "buf @ concat chunks = bs @ aft" and "[] \<notin> set chunks"
  shows "\<exists>buf' chunks'. read_from parse n buf chunks = (Inr p, buf', chunks')
    \<and> buf' @ concat chunks' = aft \<and> [] \<notin> set chunks'"
  using assms(3,4)
proof (induction chunks arbitrary: buf)
  case Nil
  then show ?case using read_from_whole [OF assms(1,2)] by simp
next
  case (Cons c cs)
  from Cons.prems(1) show ?case
  proof (cases rule: append_prefix_cases)
    case (whole r)
    with Cons.prems show ?thesis using read_from_whole [OF assms(1,2)] by simp
  next
    case part
    then have "parse n buf = NeedMore" using codec_part [OF assms(1,2)] by metis
    moreover have "c \<noteq> []" using Cons.prems by auto
    ultimately have "read_from parse n buf (c # cs) = read_from parse n (buf @ c) cs"
      by (simp add: read_from.simps [of parse n buf])
    moreover have "\<exists>buf' chunks'. read_from parse n (buf @ c) cs = (Inr p, buf', chunks')
        \<and> buf' @ concat chunks' = aft \<and> [] \<notin> set chunks'"
      using Cons.prems by (intro Cons.IH) simp_all
    ultimately show ?thesis by simp
  qed
qed

lemma read_packets_chunked:
  assumes "codec parse wr n" and "\<forall>p\<in>set ps. wr p \<noteq> None"
    and "buf @ concat chunks = concat (map (the \<circ> wr) ps) @ aft" and "[] \<notin> set chunks"
  shows "\<exists>buf' chunks'. read_packets parse n (length ps) buf chunks = (ps, buf', chunks')
    \<and> buf' @ concat chunks' = aft \<and> [] \<notin> set chunks'"
  using assms(2-4)
proof (induction ps arbitrary: buf chunks)
  case (Cons p ps)
  from Cons.prems(1) obtain bs where bs: "wr p = Some bs" by auto
  have "buf @ concat chunks = bs @ concat (map (the \<circ> wr) ps) @ aft" using Cons.prems(2) bs by (simp add: comp_def)
  from read_from_chunked [OF assms(1) bs this Cons.prems(3)] obtain buf1 chunks1 where
    1: "read_from parse n buf chunks = (Inr p, buf1, chunks1)"
      "buf1 @ concat chunks1 = concat (map (the \<circ> wr) ps) @ aft" "[] \<notin> set chunks1" by blast
  from Cons.IH [OF _ 1(2,3)] Cons.prems(1) obtain buf' chunks' where
    "read_packets parse n (length ps) buf1 chunks1 = (ps, buf', chunks')"
    "buf' @ concat chunks' = aft" "[] \<notin> set chunks'" by auto
  with 1(1) show ?case by simp
qed simp

lemma writer_loop_take:
  "writer_loop wr cap ps = take cap (concat (List.map_filter (encode wr) ps))"
proof (induction ps arbitrary: cap)
  case (Cons p ps)
  then show ?case by (auto simp: write_all_def map_filter_simps split: option.split)
qed (simp add: map_filter_simps)

section \<open>A codec\<close>

text \<open>The two packets without a body, as MQTT 3.1.1 frames them.\<close>

definition short_wr :: "Packet \<Rightarrow> bytes option" where
  "short_wr p = (case p of PPingReq \<Rightarrow> Some [0xC0, 0] | PPingResp \<Rightarrow> Some [0xD0, 0] | PDisconnect \<Rightarrow> Some [0xE0, 0] | _ \<Rightarrow> None)"

definition short_parse :: "nat \<Rightarrow> bytes \<Rightarrow> parsed" where
  "short_parse max_size bs =
     (case bs of
        a # l # rest \<Rightarrow>
          if l \<noteq> 0 then Malformed
          else if a = 0xC0 then Parsed PPingReq rest
          else if a = 0xD0 then Parsed PPingResp rest
          else if a = 0xE0 then Parsed PDisconnect rest
          else Malformed
      | _ \<Rightarrow> NeedMore)"

lemma short_codec: "codec short_parse short_wr n"
proof -
  have "short_parse n (bs @ aft) = Parsed p aft \<and> (\<forall>k<length bs. short_parse n (take k bs) = NeedMore)"
    if "short_wr p = Some bs" for p bs aft
    using that by (cases p) (auto simp: short_wr_def short_parse_def less_Suc_eq)
  then show ?thesis unfolding codec_def by blast
qed

section \<open>Properties\<close>

text \<open>(C35) Reading is independent of how the network cuts the stream: from any sequence of reads
  whose bytes are those of some packets and a rest, the connection reads exactly these
  packets, in order, and keeps exactly the rest; and a packet that is in the buffer in full
  is returned without another read, so no client waits for bytes that need not come.\<close>

theorem reader_exact:
  assumes "codec parse wr max_size" and "\<forall>p\<in>set ps. wr p \<noteq> None" and "[] \<notin> set chunks"
    and "buf @ concat chunks = concat (map (the \<circ> wr) ps) @ aft"
  shows "(\<exists>buf' chunks'. read_packets parse max_size (length ps) buf chunks = (ps, buf', chunks')
      \<and> buf' @ concat chunks' = aft)
    \<and> (\<forall>p\<in>set ps. read_from parse max_size (the (wr p) @ aft) later = (Inr p, aft, later))"
proof -
  have "read_from parse max_size (the (wr p) @ aft) later = (Inr p, aft, later)" if "p \<in> set ps" for p
  proof -
    from assms(2) that obtain bs where "wr p = Some bs" by blast
    with read_from_whole [OF assms(1) this, of aft later] show ?thesis by simp
  qed
  moreover have "\<exists>buf' chunks'. read_packets parse max_size (length ps) buf chunks = (ps, buf', chunks')
      \<and> buf' @ concat chunks' = aft"
    using read_packets_chunked [OF assms(1,2,4,3)] by blast
  ultimately show ?thesis by blast
qed

theorem reader_exact_witness:
  "fst (read_packets short_parse 9 2 [0xC0] [[0, 0xE0], [0]]) = [PPingReq, PDisconnect]"
proof -
  have "fst (read_packets short_parse 9 (length [PPingReq, PDisconnect]) [0xC0] [[0, 0xE0], [0]]) = [PPingReq, PDisconnect]"
    using reader_exact [OF short_codec, of "[PPingReq, PDisconnect]" "[[0, 0xE0], [0]]" "[0xC0]" "[]" 9 "[]"]
    by (auto simp: short_wr_def)
  moreover have "length [PPingReq, PDisconnect] = 2" by simp
  ultimately show ?thesis by (simp only:)
qed

text \<open>What the writer task puts on the socket is what a reader takes off: whatever is sent, the
  bytes written are those of the packets that can be encoded, in order, cut only where the
  socket broke; and when it took them all, a reader gets these packets back, however the
  network cuts the stream.\<close>

theorem writer_reader_roundtrip:
  assumes "codec parse (encode wr) max_size"
  shows "(\<exists>k. writer_loop wr cap ps = take k (concat (List.map_filter (encode wr) ps)))
    \<and> (length (concat (List.map_filter (encode wr) ps)) \<le> cap \<and> concat chunks = writer_loop wr cap ps \<and> [] \<notin> set chunks \<longrightarrow>
        fst (read_packets parse max_size (length (filter (\<lambda>p. encode wr p \<noteq> None) ps)) [] chunks)
          = filter (\<lambda>p. encode wr p \<noteq> None) ps)"
proof -
  let ?qs = "filter (\<lambda>p. encode wr p \<noteq> None) ps"
  have c: "concat (List.map_filter (encode wr) ps) = concat (map (the \<circ> encode wr) ?qs) @ []"
    by (simp add: List.map_filter_def)
  have q: "\<forall>p\<in>set ?qs. encode wr p \<noteq> None" by simp
  have "fst (read_packets parse max_size (length ?qs) [] chunks) = ?qs"
    if "concat chunks = concat (List.map_filter (encode wr) ps)" "[] \<notin> set chunks"
    using read_packets_chunked [OF assms q, of "[]" chunks "[]"] that c by auto
  then show ?thesis unfolding writer_loop_take by auto
qed

theorem writer_reader_roundtrip_witness:
  "fst (read_packets short_parse 9 2 [] [[0xD0], [0, 0xD0, 0]]) = [PPingResp, PPingResp]"
proof -
  have c: "codec short_parse (encode short_wr) 9"
    using short_codec [of 9] by (auto simp: codec_def encode_def)
  from writer_reader_roundtrip [OF c, of 4 "[PPingResp, PPingReq, PPingResp]" "[[0xD0], [0, 0xD0, 0]]"]
  have "fst (read_packets short_parse 9 (length [PPingResp, PPingResp]) [] [[0xD0], [0, 0xD0, 0]]) = [PPingResp, PPingResp]"
    by (simp add: encode_def encodable_def short_wr_def map_filter_simps write_all_def)
  moreover have "length [PPingResp, PPingResp] = 2" by simp
  ultimately show ?thesis by (simp only:)
qed

lemma reader_packets_eq: "reader_packets parse n stream r = fst (read_packets parse (pr_max_packet_size r) n (pr_buf r) stream)"
  by (induction n arbitrary: stream r) (auto simp: reader_read_packet_def split: prod.split sum.split)

lemma serve_reads_eq: "serve_reads parse max_size n stream = fst (read_packets parse max_size (Suc n) [] stream)"
  by (simp add: serve_reads_def conn_read_packet_def MqttConn_new_def split_conn_def reader_packets_eq split: prod.split sum.split)

text \<open>(C34) Nothing is lost between the CONNECT and the read loop: a client that sends packets right behind
  its CONNECT, in the same segment or not, has all of them read in order.\<close>

theorem pipelined_packets_read:
  assumes "codec parse wr max_size" and "\<forall>q\<in>set (p # ps). wr q \<noteq> None" and "[] \<notin> set stream"
    and "concat stream = concat (map (the \<circ> wr) (p # ps)) @ aft"
  shows "serve_reads parse max_size (length ps) stream = p # ps"
proof -
  have "[] @ concat stream = concat (map (the \<circ> wr) (p # ps)) @ aft" using assms(4) by simp
  from read_packets_chunked [OF assms(1,2) this assms(3)] show ?thesis by (auto simp: serve_reads_eq)
qed

theorem pipelined_packets_read_witness:
  "serve_reads short_parse 9 (length [PDisconnect]) [[0xC0, 0, 0xE0], [0, 0xC0]] = [PPingReq, PDisconnect]"
  using pipelined_packets_read [OF short_codec, of PPingReq "[PDisconnect]" "[[0xC0, 0, 0xE0], [0, 0xC0]]" "[0xC0]" 9]
  by (simp add: short_wr_def)

end
