(* ===== verification/Delivery_Bound.thy ===== *)
theory Delivery_Bound
  imports Session
begin

text \<open>
  The loop of \<open>SessionState::deliver\<close> (\<open>crates/entmoot-node/src/session.rs\<close>) ends, also while
  connections come and go, other deliveries run and consumers are evicted. It goes around
  again only after a failed send or after a connection attached between two of its locked
  sections; a potential that every step of the delivery itself lowers, that an attachment
  raises by at most 5 and that nothing else raises, bounds its steps.
\<close>

section \<open>The potential\<close>

text \<open>The steps a delivery can still take if no connection attaches.\<close>

definition steps_left :: "deliver_pc \<Rightarrow> nat option \<Rightarrow> nat" where
  "steps_left pc cur =
     (case pc of
        AtLoop \<Rightarrow> if cur = None then 2 else 5
      | AtSend tx p \<Rightarrow> if cur = None \<or> cur = Some tx then 4 else 7
      | AtClear tx \<Rightarrow> if cur = None \<or> cur = Some tx then 3 else 6
      | AtQueue \<Rightarrow> if cur = None then 1 else 6
      | Done d \<Rightarrow> 0)"

lemma steps_left_Done: "steps_left pc cur = 0 \<longleftrightarrow> (\<exists>d. pc = Done d)"
  by (auto simp: steps_left_def split: deliver_pc.split)

text \<open>Attaching costs at most 5, detaching nothing.\<close>

lemma steps_left_attach: "steps_left pc cur' \<le> steps_left pc cur + 5"
  by (auto simp: steps_left_def split: deliver_pc.split)

lemma steps_left_detach: "steps_left pc None \<le> steps_left pc cur"
  by (auto simp: steps_left_def split: deliver_pc.split)

lemma deliver_step_sink:
  assumes "deliver_step t p q now outcome (pc, s, e) = (pc', s', e')"
  shows "sink (inner s') = sink (inner s) \<or> sink (inner s') = None"
  using assms
  by (cases pc) (auto simp: deliver_step_def Let_def evict_slow_def next_pkid_def
      split: option.splits if_splits SendOutcome.splits prod.splits)

lemma deliver_step_potential:
  assumes "deliver_step t p q now outcome (pc, s, e) = (pc', s', e')" and "\<And>d. pc \<noteq> Done d"
  shows "steps_left pc' (sink (inner s')) < steps_left pc (sink (inner s))"
  using assms
  by (cases pc) (auto simp: steps_left_def deliver_step_def Let_def evict_slow_def next_pkid_def
      split: option.splits if_splits SendOutcome.splits prod.splits)

lemma deliver_step_moves:
  assumes "deliver_step t p q now outcome (pc, s, e) = (pc', s', e')" and "\<And>d. pc \<noteq> Done d"
  shows "pc' \<noteq> pc"
  using assms
  by (cases pc) (auto simp: deliver_step_def Let_def split: option.splits if_splits SendOutcome.splits prod.splits)

section \<open>One delivery among others\<close>

text \<open>\<open>delivery_run i m n m'\<close>: a run from \<open>m\<close> to \<open>m'\<close> in which delivery \<open>i\<close> moved \<open>n\<close> times.\<close>

inductive delivery_run :: "nat \<Rightarrow> machine \<Rightarrow> nat \<Rightarrow> machine \<Rightarrow> bool" for i where
  idle: "delivery_run i m 0 m"
| rest: "delivery_run i m n m1 \<Longrightarrow> session_step m1 m2 \<Longrightarrow> m_threads m2 ! i = m_threads m1 ! i \<Longrightarrow> delivery_run i m n m2"
| own: "delivery_run i m n m1 \<Longrightarrow> session_step m1 m2 \<Longrightarrow> m_threads m2 ! i \<noteq> m_threads m1 ! i \<Longrightarrow> delivery_run i m (Suc n) m2"

definition left_of :: "nat \<Rightarrow> machine \<Rightarrow> nat" where
  "left_of i m = steps_left (th_pc (m_threads m ! i)) (sink (inner (m_session m)))"

lemma step_length: "session_step m m' \<Longrightarrow> length (m_threads m) \<le> length (m_threads m')"
  by (induction rule: session_step.induct) auto

lemma sink_methods:
  "attach_locked who tx k (s, e) = (r, s', e') \<Longrightarrow> sink (inner s') = Some tx"
  "detach_conn now ep s = (b, s') \<Longrightarrow> sink (inner s') = sink (inner s) \<or> sink (inner s') = None"
  "kick_current (s, e) = (s', e') \<Longrightarrow> sink (inner s') = sink (inner s)"
  "take_kick_reason s = (why, s') \<Longrightarrow> sink (inner s') = sink (inner s)"
  "next_pkid s = (n, s') \<Longrightarrow> sink (inner s') = sink (inner s)"
  "insert_sub f q task (s, e) = (s', e') \<Longrightarrow> sink (inner s') = sink (inner s)"
  "remove_sub f (s, e) = (s', e') \<Longrightarrow> sink (inner s') = sink (inner s)"
  "abort_subs (s, e) = (s', e') \<Longrightarrow> sink (inner s') = sink (inner s)"
  by (auto simp: attach_locked_def detach_conn_def kick_current_def take_kick_reason_def next_pkid_def insert_sub_def
      remove_sub_def abort_subs_def Let_def split: option.splits if_splits prod.splits)

text \<open>What a step does to the potential: its own moves pay one, attachments may cost five.\<close>

lemma step_potential:
  assumes "session_step m m'" and "i < length (m_threads m)"
  shows "left_of i m' + (if m_threads m' ! i = m_threads m ! i then 0 else 1)
    \<le> left_of i m + 5 * (m_attached m' - m_attached m)"
  using assms
proof cases
  case (work j th now outcome pc s e)
  note sk = deliver_step_sink [OF work(4)]
  show ?thesis
  proof (cases "i = j")
    case True
    show ?thesis
    proof (cases "\<exists>d. th_pc th = Done d")
      case True
      then have "pc = th_pc th" "s = m_session m" using work(4) by (auto simp: deliver_step_def)
      with \<open>i = j\<close> work assms(2) show ?thesis by (simp add: left_of_def)
    next
      case False
      with deliver_step_potential [OF work(4)] \<open>i = j\<close> work assms(2) show ?thesis
        by (auto simp: left_of_def)
    qed
  next
    case False
    with sk work assms(2) steps_left_detach [of "th_pc (m_threads m ! i)" "sink (inner (m_session m))"] show ?thesis
      by (auto simp: left_of_def)
  qed
next
  case (attach who tx k ep backlog s e)
  with steps_left_attach show ?thesis by (simp add: left_of_def)
next
  case (detach now ep b s)
  with sink_methods(2) [OF detach(2)] steps_left_detach show ?thesis by (auto simp: left_of_def)
qed (auto simp: left_of_def nth_append sink_methods)

lemma run_potential:
  assumes "delivery_run i m n m'" and "i < length (m_threads m)"
  shows "i < length (m_threads m') \<and> m_attached m \<le> m_attached m'
    \<and> left_of i m' + n \<le> left_of i m + 5 * (m_attached m' - m_attached m)"
  using assms
proof induction
  case (rest m n m1 m2)
  then have "left_of i m2 \<le> left_of i m1 + 5 * (m_attached m2 - m_attached m1)" using step_potential [OF rest(2), of i] by simp
  with rest step_length [OF rest(2)] step_attached [OF rest(2)] show ?case by (auto simp: diff_mult_distrib2)
next
  case (own m n m1 m2)
  then have "Suc (left_of i m2) \<le> left_of i m1 + 5 * (m_attached m2 - m_attached m1)" using step_potential [OF own(2), of i] by simp
  with own step_length [OF own(2)] step_attached [OF own(2)] show ?case by (auto simp: diff_mult_distrib2)
qed simp

text \<open>A delivery that is not done can always move: the move is enabled whatever the channel
  answers.\<close>

lemma can_move:
  assumes "i < length (m_threads m)" and "\<And>d. th_pc (m_threads m ! i) \<noteq> Done d"
  shows "\<exists>m'. session_step m m' \<and> m_threads m' ! i \<noteq> m_threads m ! i"
proof -
  let ?th = "m_threads m ! i"
  obtain pc s e where d: "deliver_step (th_topic ?th) (th_payload ?th) (th_qos ?th) 0 SendOk (th_pc ?th, m_session m, m_env m)
      = (pc, s, e)"
    by (metis prod_cases3)
  from deliver_step_moves [OF d] assms(2) have "?th\<lparr>th_pc := pc\<rparr> \<noteq> ?th" by (metis thread.select_convs(4) thread.surjective thread.update_convs(4))
  with session_step.work [OF assms(1) refl d] assms(1) show ?thesis by fastforce
qed

section \<open>Properties\<close>



end
