(* ===== verification/Http.thy ===== *)
theory Http
  imports Connection_Safety
begin

text \<open>
  What a node tells its operators: the metrics page and the \<open>$SYS\<close> statistics of
  \<open>crates/entmoot-node/src/metrics.rs\<close>, the health endpoint of
  \<open>crates/entmoot-node/src/health.rs\<close>, and the HTTP responses both write.

  A request is what one read of the socket returned, the empty list when the read failed or
  timed out. \<open>zid\<close>, the identity of the Zenoh session, is an argument.
\<close>

section \<open>Definitions\<close>

abbreviation NL :: char where "NL \<equiv> CHR 0x0A"
abbreviation CR :: char where "CR \<equiv> CHR 0x0D"

subsection \<open>The metrics page\<close>

definition metric :: "string \<Rightarrow> string \<times> string \<times> string \<times> nat \<Rightarrow> string" where
  "metric node m =
     (case m of (name, kind, help, v) \<Rightarrow>
        ''# HELP entmoot_'' @ name @ '' '' @ help @ [NL]
      @ ''# TYPE entmoot_'' @ name @ '' '' @ kind @ [NL]
      @ ''entmoot_'' @ name @ ''{node=\"'' @ node @ ''\"} '' @ show_nat v @ [NL])"

definition page_metrics :: "('c, 'l) Broker \<Rightarrow> (string \<times> string \<times> string \<times> nat) list" where
  "page_metrics b =
     (case stats (b_store b) of (sess, offl, queued, dropd) \<Rightarrow>
        (let m = env_metrics (st_env (b_store b)) in
         [(''connections_current'', ''gauge'', ''Open MQTT connections'', unat (b_conn_count b)),
          (''connections_total'', ''counter'', ''MQTT connections accepted since start'', unat (connections_total m)),
          (''connect_refused_total'', ''counter'', ''CONNECTs refused (auth)'', unat (connect_refused_total m)),
          (''connect_shed_total'', ''counter'', ''CONNECTs shed by admission control (reconnect-storm protection)'',
             unat (connect_shed_total m)),
          (''messages_in_total'', ''counter'', ''PUBLISH packets accepted from clients'', unat (messages_in_total m)),
          (''messages_out_total'', ''counter'', ''PUBLISH packets delivered to clients'', unat (messages_out_total m)),
          (''messages_queued_total'', ''counter'', ''Messages queued for offline sessions'', unat (messages_queued_total m)),
          (''publish_denied_total'', ''counter'', ''Publishes dropped by ACL'', unat (publish_denied_total m)),
          (''subscribe_denied_total'', ''counter'', ''Subscriptions refused by ACL or validation'',
             unat (subscribe_denied_total m)),
          (''subscribes_total'', ''counter'', ''Subscriptions granted'', unat (subscribes_total m)),
          (''retained_scans_total'', ''counter'',
             ''Retained-store scans performed (denominator for the reconnect-storm coalescing ratio: scans / subscribes_total)'',
             unat (scan_count (b_retained b))),
          (''stale_retained_total'', ''counter'',
             ''Retained deliveries flagged stale on $meta/<topic> (partition-heal staleness bound exceeded)'',
             unat (stale_retained_total m)),
          (''rate_limit_disconnects_total'', ''counter'', ''Clients disconnected for exceeding the publish rate'',
             unat (rate_limit_disconnects_total m)),
          (''slow_consumer_evictions_total'', ''counter'', ''Clients evicted because their outbound queue stayed full'',
             unat (slow_consumer_evictions_total m)),
          (''retained_messages'', ''gauge'', ''Retained messages replicated on this node'', rs_len (b_retained b)),
          (''sessions'', ''gauge'', ''Known MQTT sessions (connected + offline persistent)'', sess),
          (''sessions_offline'', ''gauge'', ''Offline persistent sessions'', offl),
          (''session_queue_depth'', ''gauge'', ''QoS 1 messages currently queued for offline sessions'', queued),
          (''session_queue_dropped_total'', ''counter'', ''Messages dropped from full offline queues'', unat dropd)]))"

definition render :: "('c, 'l) Broker \<Rightarrow> string" where
  "render b = concat (map (metric (cfg_id (b_cfg b))) (page_metrics b))"

subsection \<open>The \<open>$SYS\<close> tick\<close>

text \<open>One round of \<open>sys_publish\<close>, \<open>uptime\<close> seconds after the node started; \<open>version\<close> is that of
  the package. A put the bus refuses is logged and the next one is tried.\<close>

definition sys_stats :: "string \<Rightarrow> nat \<Rightarrow> ('c, 'l) Broker \<Rightarrow> (string \<times> string) list" where
  "sys_stats version uptime b =
     (case stats (b_store b) of (sess, offl, _, _) \<Rightarrow>
        (let m = env_metrics (st_env (b_store b)) in
         [(''clients/connected'', show_nat (unat (b_conn_count b))),
          (''messages/received'', show_nat (unat (messages_in_total m))),
          (''messages/sent'', show_nat (unat (messages_out_total m))),
          (''retained/count'', show_nat (rs_len (b_retained b))),
          (''sessions/count'', show_nat sess),
          (''sessions/offline'', show_nat offl),
          (''uptime/seconds'', show_nat uptime),
          (''version'', version)]))"

definition sys_key :: "NodeConfig \<Rightarrow> string \<Rightarrow> string" where
  "sys_key cfg path = sys_keyexpr (''broker/'' @ cfg_id cfg @ ''/'' @ path) (cfg_scope cfg)"

definition sys_tick :: "('c, 'l) extern \<Rightarrow> string \<Rightarrow> nat \<Rightarrow> ('c, 'l) Broker \<Rightarrow> ('c, 'l) Broker" where
  "sys_tick x version uptime b =
     foldl (\<lambda>b (path, v). snd (bus_write x (BusPut (sys_key (b_cfg b) path) (as_bytes v)) b))
       b (sys_stats version uptime b)"

text \<open>The loop of \<open>sys_publish\<close>, at the given seconds after its start.\<close>

definition sys_publish :: "('c, 'l) extern \<Rightarrow> string \<Rightarrow> nat list \<Rightarrow> ('c, 'l) Broker \<Rightarrow> ('c, 'l) Broker" where
  "sys_publish x version uptimes b = foldl (\<lambda>b uptime. sys_tick x version uptime b) b uptimes"

subsection \<open>HTTP\<close>

definition http_response :: "string \<Rightarrow> string \<Rightarrow> string \<Rightarrow> string" where
  "http_response status ctype body =
     ''HTTP/1.1 '' @ status @ [CR, NL] @ ''Content-Type: '' @ ctype @ [CR, NL]
     @ ''Content-Length: '' @ show_nat (length body) @ [CR, NL] @ ''Connection: close'' @ [CR, NL, CR, NL] @ body"

definition metrics_response :: "('c, 'l) Broker \<Rightarrow> string" where
  "metrics_response b = http_response ''200 OK'' ''text/plain; version=0.0.4; charset=utf-8'' (render b)"

text \<open>\<open>String::from_utf8_lossy\<close>: each maximal ill-formed part becomes U+FFFD. First how many bytes
  the next part has and whether it is well-formed.\<close>

definition second_ok :: "nat \<Rightarrow> u8 \<Rightarrow> bool" where
  "second_ok n b =
     (let k = unat b in
      if n = 0xE0 then 0xA0 \<le> k \<and> k \<le> 0xBF
      else if n = 0xED then 0x80 \<le> k \<and> k \<le> 0x9F
      else if n = 0xF0 then 0x90 \<le> k \<and> k \<le> 0xBF
      else if n = 0xF4 then 0x80 \<le> k \<and> k \<le> 0x8F
      else cont_byte b)"

definition lossy_part :: "u8 \<Rightarrow> bytes \<Rightarrow> nat \<times> bool" where
  "lossy_part a r =
     (let n = unat a;
          width = (if n \<le> 0x7F then 1 else if 0xC2 \<le> n \<and> n \<le> 0xDF then 2
                   else if 0xE0 \<le> n \<and> n \<le> 0xEF then 3 else if 0xF0 \<le> n \<and> n \<le> 0xF4 then 4 else 0 :: nat);
          good = (case r of
                    [] \<Rightarrow> 0
                  | b # r \<Rightarrow> if second_ok n b then 1 + length (takeWhile cont_byte (take (width - 2) r)) else 0)
      in if width = 0 then (1, False)
         else if width = 1 then (1, True)
         else if good \<ge> width - 1 then (width, True)
         else (1 + good, False))"

function utf8_lossy :: "bytes \<Rightarrow> bytes" where
  "utf8_lossy [] = []"
| "utf8_lossy (a # r) =
     (case lossy_part a r of
        (n, ok) \<Rightarrow> (if ok then take n (a # r) else [0xEF, 0xBF, 0xBD]) @ utf8_lossy (drop (n - 1) r))"
  by pat_completeness auto
termination
  by (relation "measure length") auto

text \<open>\<open>lines().next()\<close>.\<close>

definition first_line :: "string \<Rightarrow> string option" where
  "first_line s =
     (if s = [] then None
      else
        (let l = takeWhile (\<lambda>c. c \<noteq> NL) s
         in Some (if length l < length s \<and> l \<noteq> [] \<and> List.last l = CR then butlast l else l)))"

text \<open>\<open>split_whitespace\<close>: the bytes of the white space character at the front, if there is one.\<close>

definition ws_width :: "string \<Rightarrow> nat" where
  "ws_width s =
     (case map of_char (take 3 s) :: nat list of
        [] \<Rightarrow> 0
      | n # r \<Rightarrow>
          if (9 \<le> n \<and> n \<le> 13) \<or> n = 32 then 1
          else
            (case r of
               [] \<Rightarrow> 0
             | d # r \<Rightarrow>
                 if n = 0xC2 \<and> (d = 0x85 \<or> d = 0xA0) then 2
                 else
                   (case r of
                      [] \<Rightarrow> 0
                    | e # _ \<Rightarrow>
                        if (n = 0xE1 \<and> d = 0x9A \<and> e = 0x80)
                          \<or> (n = 0xE2 \<and> d = 0x80 \<and> (0x80 \<le> e \<and> e \<le> 0x8A \<or> e = 0xA8 \<or> e = 0xA9 \<or> e = 0xAF))
                          \<or> (n = 0xE2 \<and> d = 0x81 \<and> e = 0x9F)
                          \<or> (n = 0xE3 \<and> d = 0x80 \<and> e = 0x80)
                        then 3 else 0)))"

function split_words :: "string \<Rightarrow> string \<Rightarrow> string list" where
  "split_words cur [] = (if cur = [] then [] else [cur])"
| "split_words cur (c # cs) =
     (if ws_width (c # cs) = 0 then split_words (cur @ [c]) cs
      else (if cur = [] then [] else [cur]) @ split_words [] (drop (ws_width (c # cs) - 1) cs))"
  by pat_completeness auto
termination
  by (relation "measure (\<lambda>(_, s). length s)") auto

declare split_words.simps [simp del] utf8_lossy.simps [simp del]

definition health_path :: "bytes \<Rightarrow> string" where
  "health_path req =
     (case first_line (map u8_char (utf8_lossy req)) of
        None \<Rightarrow> ''/''
      | Some l \<Rightarrow> (case get_at (split_words [] l) 1 of None \<Rightarrow> ''/'' | Some p \<Rightarrow> p))"

definition health_answer :: "string \<Rightarrow> string \<Rightarrow> string \<Rightarrow> string \<times> string" where
  "health_answer node zid path =
     (if path = ''/healthz'' then (''200 OK'', ''ok'' @ [NL])
      else if path = ''/readyz'' then (''200 OK'', ''ready node='' @ node @ '' zid='' @ zid @ [NL])
      else (''404 Not Found'', ''not found'' @ [NL]))"

definition health_response :: "('c, 'l) Broker \<Rightarrow> string \<Rightarrow> bytes \<Rightarrow> string" where
  "health_response b zid req =
     (case health_answer (cfg_id (b_cfg b)) zid (health_path req) of
        (status, body) \<Rightarrow> http_response status ''text/plain; charset=utf-8'' body)"

subsection \<open>The accept loops\<close>

text \<open>What one turn of an accept loop does: it answers the client, from a task of its own, or waits some
  milliseconds after a failed accept. A client comes with the broker at the time its answer is
  made and with what the one read of its request returned, \<open>None\<close> after an error or five
  seconds; at most 1024 bytes are read, and the metrics endpoint ignores them.\<close>

datatype http_turn = Answer string | Backoff nat

definition metrics_serve :: "(('c, 'l) Broker \<times> bytes option) option list \<Rightarrow> http_turn list" where
  "metrics_serve clients =
     map (\<lambda>client. case client of None \<Rightarrow> Backoff 100 | Some (b, _) \<Rightarrow> Answer (metrics_response b)) clients"

definition health_serve :: "string \<Rightarrow> (('c, 'l) Broker \<times> bytes option) option list \<Rightarrow> http_turn list" where
  "health_serve zid clients =
     map (\<lambda>client.
            case client of
              None \<Rightarrow> Backoff 100
            | Some (b, req) \<Rightarrow> Answer (health_response b zid (case req of None \<Rightarrow> [] | Some bs \<Rightarrow> take 1024 bs))) clients"

section \<open>Numbers as text\<close>

definition digit :: "char \<Rightarrow> bool" where
  "digit c \<longleftrightarrow> 48 \<le> (of_char c :: nat) \<and> (of_char c :: nat) \<le> 57"

definition read_nat :: "string \<Rightarrow> nat option" where
  "read_nat s = (if s = [] \<or> \<not> list_all digit s then None else Some (foldl (\<lambda>n c. n * 10 + (of_char c - 48)) 0 s))"

lemma digit_char: "k < 10 \<Longrightarrow> of_char (char_of (48 + k) :: char) = (48 + k :: nat)"
  by (simp add: of_char_of)

lemma show_nat_read: "show_nat n \<noteq> [] \<and> list_all digit (show_nat n) \<and> foldl (\<lambda>n c. n * 10 + (of_char c - 48)) 0 (show_nat n) = n"
proof (induction n rule: show_nat.induct)
  case (1 n)
  show ?case
  proof (cases "n < 10")
    case True
    then show ?thesis using digit_char [OF True] by (simp add: show_nat.simps [of n] digit_def)
  next
    case False
    with 1 digit_char [of "n mod 10"] show ?thesis by (simp add: show_nat.simps [of n] digit_def)
  qed
qed

lemma read_show [simp]: "read_nat (show_nat n) = Some n"
  using show_nat_read [of n] by (simp add: read_nat_def)

lemma show_nat_plain: "c \<in> set (show_nat n) \<Longrightarrow> digit c"
  using show_nat_read [of n] by (auto simp: list_all_iff)

lemma show_nat_no [simp]: "NL \<notin> set (show_nat n)" "CR \<notin> set (show_nat n)" "CHR '' '' \<notin> set (show_nat n)"
  using show_nat_plain [of NL n] show_nat_plain [of CR n] show_nat_plain [of "CHR '' ''" n] by (auto simp: digit_def)

section \<open>Reading a response\<close>

text \<open>A client of the endpoints: the status line, the length header, and that many bytes after the
  empty line.\<close>

definition http_parse :: "string \<Rightarrow> (string \<times> string) option" where
  "http_parse s =
     (case split_on NL s of
        [] \<Rightarrow> None
      | first # rest \<Rightarrow>
          (case (strip_prefix ''HTTP/1.1 '' first,
                 List.find (\<lambda>h. strip_prefix ''Content-Length: '' h \<noteq> None) (takeWhile (\<lambda>l. l \<noteq> [CR]) rest)) of
             (Some status, Some h) \<Rightarrow>
               (case read_nat (butlast (drop (length ''Content-Length: '') h)) of
                  None \<Rightarrow> None
                | Some n \<Rightarrow>
                    (let body = join_with NL (drop 1 (dropWhile (\<lambda>l. l \<noteq> [CR]) rest))
                     in if length body < n then None else Some (butlast status, take n body)))
           | _ \<Rightarrow> None))"

lemma http_response_lines:
  assumes "NL \<notin> set status" and "NL \<notin> set ctype"
  shows "split_on NL (http_response status ctype body) =
    (''HTTP/1.1 '' @ status @ [CR]) # (''Content-Type: '' @ ctype @ [CR])
      # (''Content-Length: '' @ show_nat (length body) @ [CR]) # (''Connection: close'' @ [CR]) # [CR] # split_on NL body"
proof -
  have "http_response status ctype body = (''HTTP/1.1 '' @ status @ [CR]) @ NL # (''Content-Type: '' @ ctype @ [CR])
      @ NL # (''Content-Length: '' @ show_nat (length body) @ [CR]) @ NL # (''Connection: close'' @ [CR]) @ NL # [CR] @ NL # body"
    by (simp add: http_response_def)
  moreover have "NL \<notin> set (''HTTP/1.1 '' @ status @ [CR])" "NL \<notin> set (''Content-Type: '' @ ctype @ [CR])"
    "NL \<notin> set (''Content-Length: '' @ show_nat (length body) @ [CR])" "NL \<notin> set (''Connection: close'' @ [CR])" "NL \<notin> set [CR]"
    using assms by simp_all
  ultimately show ?thesis by (simp only: split_append_sep not_False_eq_True)
qed

lemma http_parse_response:
  assumes "NL \<notin> set status" and "NL \<notin> set ctype"
  shows "http_parse (http_response status ctype body) = Some (status, body)"
proof -
  have "strip_prefix ''Content-Length: '' (''Content-Type: '' @ ctype @ [CR]) = None" by simp
  moreover have "''Content-Type: '' @ ctype @ [CR] \<noteq> [CR]" "''Content-Length: '' @ show_nat n @ [CR] \<noteq> [CR]" for n by simp_all
  moreover have "strip_prefix ''HTTP/1.1 '' (''HTTP/1.1 '' @ status @ [CR]) = Some (status @ [CR])"
    "strip_prefix ''Content-Length: '' (''Content-Length: '' @ show_nat n @ [CR]) = Some (show_nat n @ [CR])" for n
    by (simp_all only: strip_prefix_append)
  ultimately show ?thesis
    unfolding http_parse_def http_response_lines [OF assms]
    by (simp add: butlast_append)
qed

section \<open>The health endpoint's requests\<close>

definition graphic :: "string \<Rightarrow> bool" where
  "graphic s \<longleftrightarrow> (\<forall>c\<in>set s. 33 \<le> (of_char c :: nat) \<and> (of_char c :: nat) \<le> 126)"

lemma lossy_ascii:
  assumes "\<forall>c\<in>set s. (of_char c :: nat) \<le> 127"
  shows "utf8_lossy (as_bytes s @ r) = as_bytes s @ utf8_lossy r"
  using assms
proof (induction s)
  case (Cons c s)
  then have "unat (char_u8 c) \<le> 0x7F" by (simp add: char_u8_def unat_of_nat)
  then have "lossy_part (char_u8 c) bs = (1, True)" for bs by (simp add: lossy_part_def Let_def)
  with Cons show ?case by (simp add: as_bytes_def utf8_lossy.simps)
qed (simp add: as_bytes_def)

lemma ws_width_graphic: "33 \<le> (of_char c :: nat) \<Longrightarrow> (of_char c :: nat) \<le> 126 \<Longrightarrow> ws_width (c # s) = 0"
  by (auto simp: ws_width_def split: list.split)

lemma split_words_graphic: "graphic w \<Longrightarrow> split_words cur (w @ s) = split_words (cur @ w) s"
  by (induction w arbitrary: cur) (auto simp: graphic_def ws_width_graphic split_words.simps(2))

lemma split_words_space: "cur \<noteq> [] \<Longrightarrow> split_words cur (CHR '' '' # s) = cur # split_words [] s"
  by (simp add: split_words.simps(2) ws_width_def split: list.split)

lemma graphic_word: "graphic w \<Longrightarrow> w \<noteq> [] \<Longrightarrow> split_words [] (w @ CHR '' '' # s) = w # split_words [] s"
  by (simp add: split_words_graphic split_words_space)

lemma graphic_no_NL: "graphic w \<Longrightarrow> NL \<notin> set w \<and> CR \<notin> set w"
  by (force simp: graphic_def)

lemma first_line_crlf:
  assumes "NL \<notin> set l"
  shows "first_line (l @ CR # NL # s) = Some l"
proof -
  have "takeWhile (\<lambda>c. c \<noteq> NL) (l @ CR # NL # s) = l @ [CR]" using assms by (induction l) auto
  then show ?thesis by (simp add: first_line_def)
qed

lemma health_path_request:
  assumes "graphic meth" and "meth \<noteq> []" and "graphic path" and "path \<noteq> []"
  shows "health_path (as_bytes (meth @ '' '' @ path @ '' HTTP/1.1'' @ [CR, NL]) @ rest) = path"
proof -
  let ?l = "meth @ '' '' @ path @ '' HTTP/1.1''"
  have "\<forall>c\<in>set (?l @ [CR, NL]). (of_char c :: nat) \<le> 127" using assms by (auto simp: graphic_def)
  from lossy_ascii [OF this, of rest]
  have "map u8_char (utf8_lossy (as_bytes (meth @ '' '' @ path @ '' HTTP/1.1'' @ [CR, NL]) @ rest))
      = ?l @ CR # NL # map u8_char (utf8_lossy rest)"
    by (simp add: as_bytes_def comp_def)
  moreover have "NL \<notin> set ?l" using assms(1,3) graphic_no_NL by simp
  moreover have "split_words [] ?l = meth # path # split_words [] ''HTTP/1.1''" using assms by (simp add: graphic_word)
  ultimately show ?thesis by (simp only: health_path_def first_line_crlf not_False_eq_True) simp
qed

section \<open>Reading the page\<close>

definition names_metric :: "string \<Rightarrow> string \<Rightarrow> bool" where
  "names_metric name l \<longleftrightarrow> strip_prefix (''entmoot_'' @ name @ ''{'') l \<noteq> None"

text \<open>A scraper: the value on the first line that begins with the metric's name.\<close>

definition scrape :: "string \<Rightarrow> string \<Rightarrow> nat option" where
  "scrape name page =
     (case List.find (names_metric name) (split_on NL page) of
        None \<Rightarrow> None
      | Some l \<Rightarrow> read_nat (rev (takeWhile (\<lambda>c. c \<noteq> CHR '' '') (rev l))))"

definition value_line :: "string \<Rightarrow> string \<times> nat \<Rightarrow> string" where
  "value_line node m = ''entmoot_'' @ fst m @ ''{node=\"'' @ node @ ''\"} '' @ show_nat (snd m)"

definition metric_lines :: "string \<Rightarrow> string \<times> string \<times> string \<times> nat \<Rightarrow> string list" where
  "metric_lines node m =
     (case m of (name, kind, help, v) \<Rightarrow>
        [''# HELP entmoot_'' @ name @ '' '' @ help, ''# TYPE entmoot_'' @ name @ '' '' @ kind, value_line node (name, v)])"

definition metric_ok :: "string \<times> string \<times> string \<times> nat \<Rightarrow> bool" where
  "metric_ok m \<longleftrightarrow> (case m of (name, kind, help, v) \<Rightarrow> NL \<notin> set (name @ kind @ help) \<and> CHR ''{'' \<notin> set name)"

lemma page_lines:
  assumes "NL \<notin> set node" and "\<forall>m\<in>set ms. metric_ok m"
  shows "split_on NL (concat (map (metric node) ms)) = concat (map (metric_lines node) ms) @ [[]]"
  using assms(2)
proof (induction ms)
  case (Cons m ms)
  obtain name kind hlp v where m: "m = (name, kind, hlp, v)" by (cases m)
  have eq: "metric node m @ s = (''# HELP entmoot_'' @ name @ '' '' @ hlp) @ NL # (''# TYPE entmoot_'' @ name @ '' '' @ kind)
      @ NL # value_line node (name, v) @ NL # s" for s
    by (simp add: metric_def m value_line_def)
  have "NL \<notin> set (''# HELP entmoot_'' @ name @ '' '' @ hlp)" "NL \<notin> set (''# TYPE entmoot_'' @ name @ '' '' @ kind)"
    "NL \<notin> set (value_line node (name, v))"
    using Cons.prems assms(1) by (simp_all add: m metric_ok_def value_line_def)
  then have "split_on NL (metric node m @ s) = metric_lines node m @ split_on NL s" for s
    unfolding eq by (simp only: split_append_sep not_False_eq_True) (simp add: metric_lines_def m)
  with Cons show ?case by simp
qed simp

lemma strip_prefix_brace:
  assumes "CHR ''{'' \<notin> set a" and "CHR ''{'' \<notin> set b"
  shows "strip_prefix (a @ ''{'') (b @ CHR ''{'' # r) \<noteq> None \<longleftrightarrow> a = b"
  using assms
proof (induction a b rule: strip_prefix.induct)
  case (1 ys)
  then show ?case by (cases ys) auto
qed auto

lemma value_line_prefix:
  assumes "CHR ''{'' \<notin> set name" and "CHR ''{'' \<notin> set (fst m)"
  shows "names_metric name (value_line node m) \<longleftrightarrow> name = fst m"
  using strip_prefix_brace [of "''entmoot_'' @ name" "''entmoot_'' @ fst m"] assms
  by (simp add: value_line_def names_metric_def)

lemma comment_line:
  "\<not> names_metric name (''# HELP entmoot_'' @ s)" "\<not> names_metric name (''# TYPE entmoot_'' @ s)"
  by (simp_all add: names_metric_def)

lemma value_line_value: "rev (takeWhile (\<lambda>c. c \<noteq> CHR '' '') (rev (value_line node m))) = show_nat (snd m)"
proof -
  have "value_line node m = (''entmoot_'' @ fst m @ ''{node=\"'' @ node @ ''\"}'') @ CHR '' '' # show_nat (snd m)"
    by (simp add: value_line_def)
  moreover have "takeWhile (\<lambda>c. c \<noteq> CHR '' '') (rev (show_nat n) @ CHR '' '' # r) = rev (show_nat n)" for n r
    using show_nat_no(3) [of n] by (subst takeWhile_append2) auto
  ultimately show ?thesis by simp
qed

lemma find_metric:
  assumes "(name, kind, help, v) \<in> set ms" and "distinct (map fst ms)" and "\<forall>m\<in>set ms. metric_ok m"
  shows "List.find (names_metric name) (concat (map (metric_lines node) ms) @ [[]])
    = Some (value_line node (name, v))"
  using assms
proof (induction ms)
  case (Cons m ms)
  obtain name' kind' hlp' v' where m: "m = (name', kind', hlp', v')" by (cases m)
  have n: "CHR ''{'' \<notin> set name" "CHR ''{'' \<notin> set name'"
    using Cons.prems by (auto simp: metric_ok_def m)
  from value_line_prefix [of name "(name', v')" node] n
  have "names_metric name (value_line node (name', v')) \<longleftrightarrow> name = name'" by simp
  moreover have "name = name' \<Longrightarrow> v = v'" using Cons.prems m by (auto simp: rev_image_eqI)
  moreover have "name \<noteq> name' \<Longrightarrow> (name, kind, help, v) \<in> set ms" using Cons.prems m by auto
  moreover obtain a b where "metric_lines node m = [a, b, value_line node (name', v')]"
      "\<not> names_metric name a" "\<not> names_metric name b"
    using comment_line [of name] by (simp add: metric_lines_def m del: append_Cons)
  ultimately show ?case using Cons.IH Cons.prems(2,3) by auto
qed simp

lemma page_metrics_ok: "distinct (map fst (page_metrics b)) \<and> (\<forall>m\<in>set (page_metrics b). metric_ok m)"
proof -
  have "list_all metric_ok (page_metrics b)" by (simp add: page_metrics_def Let_def metric_ok_def split: prod.split)
  moreover have "distinct (map fst (page_metrics b))" by (simp add: page_metrics_def Let_def split: prod.split)
  ultimately show ?thesis by (simp add: list_all_iff)
qed

lemma status_plain:
  "health_answer node zid path = (status, body) \<Longrightarrow> NL \<notin> set status"
  by (auto simp: health_answer_def split: if_splits)

section \<open>The statistics tick\<close>

lemma sys_tick_bus:
  "b_cfg (foldl (\<lambda>b (path, v). snd (bus_write x (BusPut (sys_key (b_cfg b) path) (as_bytes v)) b)) b kvs) = b_cfg b
   \<and> b_bus (foldl (\<lambda>b (path, v). snd (bus_write x (BusPut (sys_key (b_cfg b) path) (as_bytes v)) b)) b kvs)
     = b_bus b @ filter (x_bus x) (map (\<lambda>(path, v). BusPut (sys_key (b_cfg b) path) (as_bytes v)) kvs)"
  by (induction kvs arbitrary: b) (auto simp: bus_write_def)

section \<open>Properties\<close>

text \<open>The metrics endpoint reports every counter under its own name: a client of the endpoint gets
  a complete \<open>200\<close> response, and scraping its body for any of the nineteen metrics gives the
  value the broker holds, whatever its size (the node id has no line break).\<close>

theorem metrics_page_exact:
  assumes "NL \<notin> set (cfg_id (b_cfg b))" and "(name, kind, hlp, v) \<in> set (page_metrics b)"
  shows "http_parse (metrics_response b) = Some (''200 OK'', render b) \<and> scrape name (render b) = Some v"
proof -
  have "http_parse (metrics_response b) = Some (''200 OK'', render b)"
    unfolding metrics_response_def by (rule http_parse_response) simp_all
  moreover have "scrape name (render b) = Some v"
    using page_lines [OF assms(1), of "page_metrics b"] find_metric [OF assms(2)] page_metrics_ok [of b]
    by (simp add: scrape_def render_def value_line_value)
  ultimately show ?thesis by blast
qed

theorem metrics_page_exact_witness:
  "scrape ''connections_total'' (render demo_broker) = Some (unat (connections_total (env_metrics (st_env (b_store demo_broker)))))"
proof -
  have "NL \<notin> set (cfg_id (b_cfg demo_broker))" by (simp add: demo_broker_def NodeConfig_default_def)
  moreover have "(''connections_total'', ''counter'', ''MQTT connections accepted since start'',
      unat (connections_total (env_metrics (st_env (b_store demo_broker))))) \<in> set (page_metrics demo_broker)"
    by (cases "stats (b_store demo_broker)") (simp add: page_metrics_def Let_def)
  ultimately show ?thesis using metrics_page_exact by blast
qed

text \<open>The health endpoint answers the path of the request line and nothing else: for a request
  \<open>METHOD path HTTP/1.1\<close> with any headers after it, a client gets a complete response, \<open>200\<close>
  exactly for \<open>/healthz\<close> and \<open>/readyz\<close>, the latter naming the node and its Zenoh session, and
  \<open>404\<close> for every other path; a request of which nothing was read is answered \<open>404\<close>.\<close>

theorem health_endpoint_exact:
  assumes "graphic meth" and "meth \<noteq> []" and "graphic path" and "path \<noteq> []"
  shows "http_parse (health_response b zid (as_bytes (meth @ '' '' @ path @ '' HTTP/1.1'' @ [CR, NL]) @ rest)) =
      Some (if path = ''/healthz'' then (''200 OK'', ''ok'' @ [NL])
            else if path = ''/readyz'' then (''200 OK'', ''ready node='' @ cfg_id (b_cfg b) @ '' zid='' @ zid @ [NL])
            else (''404 Not Found'', ''not found'' @ [NL]))
    \<and> http_parse (health_response b zid []) = Some (''404 Not Found'', ''not found'' @ [NL])"
proof -
  have "http_parse (case health_answer n zid p of (status, body) \<Rightarrow> http_response status ''text/plain; charset=utf-8'' body)
      = Some (health_answer n zid p)" for n p
  proof -
    obtain status body where a: "health_answer n zid p = (status, body)" by fastforce
    have "NL \<notin> set ''text/plain; charset=utf-8''" by simp
    with http_parse_response [OF status_plain [OF a], of "''text/plain; charset=utf-8''" body] show ?thesis by (simp add: a)
  qed
  moreover have "health_path [] = ''/''" by (simp add: health_path_def first_line_def utf8_lossy.simps)
  ultimately show ?thesis
    unfolding health_response_def health_path_request [OF assms]
    by (simp only: health_answer_def) simp
qed

theorem health_endpoint_exact_witness:
  "http_parse (health_response demo_broker ''z'' (as_bytes (''GET'' @ '' '' @ ''/healthz'' @ '' HTTP/1.1'' @ [CR, NL]) @ []))
     = Some (''200 OK'', ''ok'' @ [NL])"
  using health_endpoint_exact [of "''GET''" "''/healthz''" demo_broker "''z''" "[]"] by (simp add: graphic_def)

text \<open>The statistics go where the documentation says: one tick puts the eight values, in order and as
  far as the bus takes them, each on a key of its own that reads back as
  \<open>$SYS/broker/<node-id>/<path>\<close>, and no publish of a client can reach such a key.\<close>

theorem sys_tick_exact:
  "b_bus (sys_tick x version uptime b) =
     b_bus b @ filter (x_bus x) (map (\<lambda>(path, v). BusPut (sys_key (b_cfg b) path) (as_bytes v)) (sys_stats version uptime b))
   \<and> distinct (map (\<lambda>(path, v). sys_key (b_cfg b) path) (sys_stats version uptime b))
   \<and> keyexpr_to_topic (sys_key (b_cfg b) path) (cfg_scope (b_cfg b)) = Some (SYS_PREFIX @ ''/broker/'' @ cfg_id (b_cfg b) @ ''/'' @ path)
   \<and> topic_to_keyexpr t (cfg_scope (b_cfg b)) \<noteq> Inr (sys_key (b_cfg b) path)"
proof -
  have inj: "sys_key cfg p = sys_key cfg q \<longleftrightarrow> p = q" for cfg p q by (simp add: sys_key_def sys_keyexpr_def scoped_def)
  have "distinct (map fst (sys_stats version uptime b))" by (simp add: sys_stats_def Let_def split: prod.split)
  then have "distinct (map (sys_key (b_cfg b)) (map fst (sys_stats version uptime b)))"
    by (simp only: distinct_map [of "sys_key (b_cfg b)"]) (simp add: inj_on_def inj)
  then have 1: "distinct (map (\<lambda>(path, v). sys_key (b_cfg b) path) (sys_stats version uptime b))"
    by (simp add: comp_def case_prod_unfold)
  have "valid_topic t \<Longrightarrow> t \<noteq> SYS_CHUNK @ s" for s using valid_topic_head [of t] by (auto simp: SYS_CHUNK_def)
  then have 2: "topic_to_keyexpr t (cfg_scope (b_cfg b)) \<noteq> Inr (sys_key (b_cfg b) path)"
    by (auto simp: topic_to_keyexpr_Inr sys_key_def sys_keyexpr_def scoped_def split: if_splits)
  have 3: "keyexpr_to_topic (sys_key (b_cfg b) path) (cfg_scope (b_cfg b))
      = Some (SYS_PREFIX @ ''/broker/'' @ cfg_id (b_cfg b) @ ''/'' @ path)"
    by (simp add: sys_key_def keyexpr_to_topic_def sys_keyexpr_def chunk_defs)
  show ?thesis using 1 2 3 sys_tick_bus [of x b "sys_stats version uptime b"] by (simp add: sys_tick_def)
qed

end
