(* ===== verification/Bench.thy ===== *)
theory Bench
  imports Http
begin

text \<open>
  The client programs under \<open>crates/entmoot-node/examples\<close>: the reconnect-storm benchmark
  \<open>storm_bench.rs\<close> and the two command-line clients \<open>pub.rs\<close> and \<open>sub.rs\<close>.

  They speak MQTT through the \<open>rumqttc\<close> crate. What its event loop yields is an argument: the
  list of the results of the successive calls of \<open>poll\<close>, which ends where a time limit of the
  program cuts the waiting off. \<open>MqttOptions::new\<close> is an argument too, and a histogram of the
  \<open>hdrhistogram\<close> crate is the list of the recording calls made on it. \<open>f64\<close> has infinities
  and NaN, one zero, and \<open>rnd\<close>, an argument, rounds a real number to it.

  Section \<open>The page read back\<close> composes the benchmark with the metrics endpoint of \<open>Http\<close>.
\<close>

section \<open>Definitions\<close>

subsection \<open>Numbers: \<open>str::parse::<f64>\<close>\<close>

datatype f64 = F64_nan | F64_inf bool | F64 real

definition digits_value :: "string \<Rightarrow> nat" where
  "digits_value s = foldl (\<lambda>n c. n * 10 + (of_char c - 48)) 0 s"

definition parse_sign :: "string \<Rightarrow> bool \<times> string" where
  "parse_sign s =
     (case s of
        [] \<Rightarrow> (False, [])
      | c # r \<Rightarrow> if c = CHR ''-'' then (True, r) else if c = CHR ''+'' then (False, r) else (False, s))"

definition parse_exp :: "string \<Rightarrow> int option" where
  "parse_exp s =
     (case s of
        [] \<Rightarrow> Some 0
      | c # r \<Rightarrow>
          if char_lower c = CHR ''e'' then
            (case parse_sign r of
               (neg, d) \<Rightarrow>
                 if d = [] \<or> \<not> list_all digit d then None
                 else Some (if neg then - int (digits_value d) else int (digits_value d)))
          else None)"

definition parse_number :: "string \<Rightarrow> real option" where
  "parse_number s =
     (let ip = takeWhile digit s; r = dropWhile digit s;
          (fp, r) = (if starts_with r (CHR ''.'') then (takeWhile digit (tl r), dropWhile digit (tl r)) else ([], r))
      in if ip = [] \<and> fp = [] then None
         else map_option (\<lambda>e. real (digits_value (ip @ fp)) * power_int 10 (e - int (length fp))) (parse_exp r))"

definition parse_f64 :: "(real \<Rightarrow> f64) \<Rightarrow> string \<Rightarrow> f64 option" where
  "parse_f64 rnd s =
     (case parse_sign s of
        (neg, t) \<Rightarrow>
          if to_lowercase t = ''nan'' then Some F64_nan
          else if to_lowercase t = ''inf'' \<or> to_lowercase t = ''infinity'' then Some (F64_inf (\<not> neg))
          else map_option (\<lambda>v. rnd (if neg then - v else v)) (parse_number t))"

definition f64_positive :: "f64 \<Rightarrow> bool" where
  "f64_positive a = (case a of F64_nan \<Rightarrow> False | F64_inf pos \<Rightarrow> pos | F64 r \<Rightarrow> 0 < r)"

text \<open>Division by a positive number.\<close>

definition f64_div :: "(real \<Rightarrow> f64) \<Rightarrow> f64 \<Rightarrow> f64 \<Rightarrow> f64" where
  "f64_div rnd a b =
     (case (a, b) of
        (F64 r, F64 s) \<Rightarrow> rnd (r / s)
      | (F64 r, F64_inf _) \<Rightarrow> F64 0
      | (F64_inf pos, F64 _) \<Rightarrow> F64_inf pos
      | _ \<Rightarrow> F64_nan)"

subsection \<open>The client library\<close>

record MqttOptions =
  mo_id :: string
  mo_host :: string
  mo_port :: u16
  mo_keep_alive :: nat
  mo_clean_session :: bool

datatype rumq_packet = RPublish string bytes | RSubAck | RPubAck | ROther

datatype rumq_event = Incoming rumq_packet | Outgoing

datatype rumq_error = ServiceUnavailable | OtherError string

type_synonym poll = "(rumq_error, rumq_event) result"

subsection \<open>The benchmark's arguments\<close>

record BenchArgs =
  ba_host :: string
  ba_port :: u16
  ba_metrics_port :: "u16 option"
  ba_live_clients :: u32
  ba_live_interval_ms :: u64
  ba_storm_clients :: u32
  ba_storm_topic :: string
  ba_duration_secs :: u64
  ba_toxiproxy_addr :: "string option"
  ba_toxiproxy_proxy :: "string option"
  ba_partition_secs :: u64

definition BenchArgs_default :: BenchArgs where
  "BenchArgs_default =
     \<lparr>ba_host = ''127.0.0.1'', ba_port = 1883, ba_metrics_port = None, ba_live_clients = 5,
      ba_live_interval_ms = 100, ba_storm_clients = 200, ba_storm_topic = ''plant/#'', ba_duration_secs = 20,
      ba_toxiproxy_addr = None, ba_toxiproxy_proxy = None, ba_partition_secs = 30\<rparr>"

text \<open>\<open>now_nanos\<close> at the system time \<open>now\<close>: 0 before the epoch, and the low 64 bits.\<close>

definition now_nanos :: "system_time \<Rightarrow> u64" where
  "now_nanos now = word_of_nat (nat now)"

definition client_opts :: "(string \<Rightarrow> string \<Rightarrow> u16 \<Rightarrow> MqttOptions) \<Rightarrow> string \<Rightarrow> u16 \<Rightarrow> string \<Rightarrow> MqttOptions" where
  "client_opts new host port cid = (new cid host port)\<lparr>mo_keep_alive := 10\<rparr>"

subsection \<open>Live traffic\<close>

text \<open>\<open>live_hist\<close>: the calls \<open>record_correct(value, interval)\<close>; \<open>live_sent\<close>: the payloads
  published; \<open>live_slept\<close>: the milliseconds slept after errors. A wake-up of the \<open>select!\<close> is a
  tick or the result of a poll, with the system time at which it is handled.\<close>

record live =
  live_hist :: "(u64 \<times> u64) list"
  live_sent :: "bytes list"
  live_slept :: nat

datatype live_wake = LTick system_time | LPoll poll system_time

definition latency_us :: "u64 \<Rightarrow> u64 \<Rightarrow> u64" where
  "latency_us now sent = (if sent \<le> now then now - sent else 0) div 1000"

definition live_step :: "u64 \<Rightarrow> live_wake \<Rightarrow> live \<Rightarrow> live" where
  "live_step interval_us w st =
     (case w of
        LTick now \<Rightarrow> st\<lparr>live_sent := live_sent st @ [u64_to_be_bytes (now_nanos now)]\<rparr>
      | LPoll ev now \<Rightarrow>
          (case ev of
             Inr (Incoming (RPublish topic p)) \<Rightarrow>
               if length p \<ge> 8 then
                 st\<lparr>live_hist := live_hist st
                      @ [(max (latency_us (now_nanos now) (u64_from_be_bytes (take 8 p))) 1, interval_us)]\<rparr>
               else st
           | Inr _ \<Rightarrow> st
           | Inl _ \<Rightarrow> st\<lparr>live_slept := live_slept st + 200\<rparr>))"

fun live_loop :: "instant \<Rightarrow> u64 \<Rightarrow> (instant \<times> live_wake) list \<Rightarrow> live \<Rightarrow> live" where
  "live_loop deadline interval_us [] st = st"
| "live_loop deadline interval_us ((now, w) # ws) st =
     (if now \<ge> deadline then st else live_loop deadline interval_us ws (live_step interval_us w st))"

definition live_topic :: "nat \<Rightarrow> string" where
  "live_topic idx = ''bench/live/'' @ show_nat idx"

definition live_id :: "nat \<Rightarrow> string" where
  "live_id idx = ''bench-live-'' @ show_nat idx"

text \<open>\<open>None\<close>: the task panics, in the multiplication of the interval (with overflow checks, as
  \<open>cargo run\<close> builds it) or because \<open>tokio::time::interval\<close> refuses an interval of zero.\<close>

definition run_live_client :: "bool \<Rightarrow> u64 \<Rightarrow> instant \<Rightarrow> (instant \<times> live_wake) list \<Rightarrow> live option" where
  "run_live_client subscribed interval_ms deadline ws =
     (let st = \<lparr>live_hist = [], live_sent = [], live_slept = 0\<rparr> in
      if \<not> subscribed then Some st
      else if unat interval_ms * 1000 \<ge> 2 ^ 64 \<or> interval_ms = 0 then None
      else Some (live_loop deadline (interval_ms * 1000) ws st))"

subsection \<open>The reconnect storm\<close>

datatype StormOutcome = Rehydrated u64 | Shed | Failed

definition storm_id :: "nat \<Rightarrow> string" where
  "storm_id i = ''bench-storm-'' @ show_nat i"

definition storm_opts :: "(string \<Rightarrow> string \<Rightarrow> u16 \<Rightarrow> MqttOptions) \<Rightarrow> BenchArgs \<Rightarrow> nat \<Rightarrow> MqttOptions" where
  "storm_opts new args i = (client_opts new (ba_host args) (ba_port args) (storm_id i))\<lparr>mo_clean_session := False\<rparr>"

text \<open>The polls a priming client leaves unread: it stops after the SUBACK or an error.\<close>

fun prime_loop :: "poll list \<Rightarrow> poll list" where
  "prime_loop [] = []"
| "prime_loop (p # ps) =
     (case p of
        Inr (Incoming RSubAck) \<Rightarrow> ps
      | Inr _ \<Rightarrow> prime_loop ps
      | Inl _ \<Rightarrow> ps)"

definition prime_storm_client :: "bool \<Rightarrow> poll list \<Rightarrow> poll list" where
  "prime_storm_client subscribed ps = (if subscribed then prime_loop ps else ps)"

text \<open>\<open>None\<close>: the fifteen seconds passed.\<close>

fun reconnect_loop :: "poll list \<Rightarrow> bool option" where
  "reconnect_loop [] = None"
| "reconnect_loop (p # ps) =
     (case p of
        Inr (Incoming RSubAck) \<Rightarrow> Some True
      | Inr (Incoming (RPublish _ _)) \<Rightarrow> Some True
      | Inl ServiceUnavailable \<Rightarrow> Some False
      | Inl _ \<Rightarrow> Some False
      | _ \<Rightarrow> reconnect_loop ps)"

definition reconnect_storm_client :: "poll list \<Rightarrow> duration \<Rightarrow> StormOutcome" where
  "reconnect_storm_client ps elapsed =
     (case reconnect_loop ps of
        Some True \<Rightarrow> Rehydrated (word_of_nat (elapsed div 10 ^ 6))
      | Some False \<Rightarrow> Shed
      | None \<Rightarrow> Failed)"

text \<open>The counters are \<open>usize\<close>; a task that panicked is joined as \<open>None\<close>.\<close>

record storm_tally =
  rehydrated :: u64
  shed :: u64
  failed :: u64
  rehydrate_hist :: "u64 list"

definition tally_one :: "storm_tally \<Rightarrow> StormOutcome option \<Rightarrow> storm_tally" where
  "tally_one t r =
     (case r of
        Some (Rehydrated millis) \<Rightarrow>
          t\<lparr>rehydrated := rehydrated t + 1, rehydrate_hist := rehydrate_hist t @ [max millis 1]\<rparr>
      | Some Shed \<Rightarrow> t\<lparr>shed := shed t + 1\<rparr>
      | _ \<Rightarrow> t\<lparr>failed := failed t + 1\<rparr>)"

definition storm_tally_of :: "StormOutcome option list \<Rightarrow> storm_tally" where
  "storm_tally_of rs = foldl tally_one \<lparr>rehydrated = 0, shed = 0, failed = 0, rehydrate_hist = []\<rparr> rs"

subsection \<open>The partition\<close>

text \<open>What the program starts, awaits and stops; clients by their number.\<close>

datatype bench_action =
  Toggle "string list" | Sleep_ms nat | Sleep_rest duration
| Spawn_live nat | Spawn_prime nat | Join_prime nat | Spawn_storm nat | Join_storm nat | Abort_live nat

definition toggle_toxiproxy :: "string \<Rightarrow> string \<Rightarrow> bench_action" where
  "toggle_toxiproxy addr proxy = Toggle [''-h'', addr, ''toggle'', proxy]"

definition partition_phase :: "BenchArgs \<Rightarrow> bench_action list" where
  "partition_phase args =
     (case (ba_toxiproxy_addr args, ba_toxiproxy_proxy args) of
        (Some addr, Some proxy) \<Rightarrow>
          [toggle_toxiproxy addr proxy, Sleep_ms (unat (ba_partition_secs args) * 1000), toggle_toxiproxy addr proxy]
      | _ \<Rightarrow> [Sleep_ms 500])"

text \<open>\<open>main\<close> up to the report; \<open>remaining\<close> is what is left of the run time after the storm.\<close>

definition bench_main :: "BenchArgs \<Rightarrow> duration \<Rightarrow> bench_action list" where
  "bench_main args remaining =
     (let live = [0..<unat (ba_live_clients args)]; storm = [0..<unat (ba_storm_clients args)]
      in map Spawn_live live
         @ map Spawn_prime storm @ map Join_prime storm
         @ partition_phase args
         @ map Spawn_storm storm @ map Join_storm storm
         @ (if remaining = 0 then [] else [Sleep_rest remaining])
         @ map Abort_live live)"

subsection \<open>The node's metrics\<close>

text \<open>\<open>str::split_once\<close> for a string pattern, \<open>str::lines\<close> and \<open>Iterator::find_map\<close>.\<close>

fun split_once :: "'a list \<Rightarrow> 'a list \<Rightarrow> ('a list \<times> 'a list) option" where
  "split_once p [] = (if p = [] then Some ([], []) else None)"
| "split_once p (x # s) =
     (case strip_prefix p (x # s) of
        Some r \<Rightarrow> Some ([], r)
      | None \<Rightarrow> map_option (\<lambda>(a, b). (x # a, b)) (split_once p s))"

definition chomp :: "string \<Rightarrow> string" where
  "chomp l = (if l \<noteq> [] \<and> List.last l = CR then butlast l else l)"

definition str_lines :: "string \<Rightarrow> string list" where
  "str_lines s =
     (let ps = split_on NL s
      in map chomp (butlast ps) @ (if List.last ps = [] then [] else [List.last ps]))"

fun find_map :: "('a \<Rightarrow> 'b option) \<Rightarrow> 'a list \<Rightarrow> 'b option" where
  "find_map f [] = None"
| "find_map f (x # xs) = (case f x of Some y \<Rightarrow> Some y | None \<Rightarrow> find_map f xs)"

text \<open>\<open>connect\<close>: the conversation with an address, if a connection to it can be made: all bytes that
  come back until the end of the stream, or \<open>None\<close> when writing or reading failed.\<close>

definition metrics_request :: bytes where
  "metrics_request = as_bytes (''GET /metrics HTTP/1.1'' @ [CR, NL] @ ''Host: localhost'' @ [CR, NL]
     @ ''Connection: close'' @ [CR, NL, CR, NL])"

definition fetch_metrics :: "(string \<Rightarrow> (bytes \<Rightarrow> bytes option) option) \<Rightarrow> string \<Rightarrow> string option" where
  "fetch_metrics connect addr =
     (case connect addr of
        None \<Rightarrow> None
      | Some talk \<Rightarrow>
          (case talk metrics_request of
             None \<Rightarrow> None
           | Some buf \<Rightarrow>
               (let t = map u8_char (utf8_lossy buf)
                in Some (case split_once [CR, NL, CR, NL] t of Some (_, body) \<Rightarrow> body | None \<Rightarrow> t))))"

definition metric_value :: "(real \<Rightarrow> f64) \<Rightarrow> string \<Rightarrow> string \<Rightarrow> f64 option" where
  "metric_value rnd body name =
     find_map
       (\<lambda>line. case strip_prefix name line of
                 None \<Rightarrow> None
               | Some rest \<Rightarrow>
                   if \<not> starts_with rest (CHR ''{'') \<and> \<not> starts_with rest (CHR '' '') then None
                   else parse_f64 rnd (List.last (split_on (CHR '' '') rest)))
       (str_lines body)"

text \<open>What the report prints of the page: scans, subscribes and their ratio, the shed connects and
  the stale deliveries.\<close>

definition metrics_report :: "(real \<Rightarrow> f64) \<Rightarrow> string \<Rightarrow> (f64 \<times> f64 \<times> f64) option \<times> f64 option \<times> f64 option" where
  "metrics_report rnd body =
     (let scans = metric_value rnd body ''entmoot_retained_scans_total'';
          subs = metric_value rnd body ''entmoot_subscribes_total'';
          shed_m = metric_value rnd body ''entmoot_connect_shed_total'';
          stale = metric_value rnd body ''entmoot_stale_retained_total''
      in ((case (scans, subs) of
             (Some m, Some n) \<Rightarrow> Some (m, n, if f64_positive n then f64_div rnd m n else F64 0)
           | _ \<Rightarrow> None),
          shed_m, stale))"

definition node_report ::
  "(real \<Rightarrow> f64) \<Rightarrow> (string \<Rightarrow> (bytes \<Rightarrow> bytes option) option) \<Rightarrow> BenchArgs
    \<Rightarrow> ((f64 \<times> f64 \<times> f64) option \<times> f64 option \<times> f64 option) option" where
  "node_report rnd connect args =
     (case ba_metrics_port args of
        None \<Rightarrow> None
      | Some mp \<Rightarrow> map_option (metrics_report rnd) (fetch_metrics connect (ba_host args @ '':'' @ show_nat (unat mp))))"

subsection \<open>The command-line clients\<close>

record PubArgs =
  pa_host :: string
  pa_port :: u16
  pa_topic :: string
  pa_msg :: string

record SubArgs =
  sa_host :: string
  sa_port :: u16
  sa_topic :: string

text \<open>How the programs end: the publisher prints its line, an error goes to the exit status, the
  request itself may panic on \<open>unwrap\<close>, or the program still waits.\<close>

datatype client_end = Published | Exit_error | Panicked | Waiting

fun pub_loop :: "poll list \<Rightarrow> client_end" where
  "pub_loop [] = Waiting"
| "pub_loop (p # ps) =
     (case p of
        Inr (Incoming RPubAck) \<Rightarrow> Published
      | Inr _ \<Rightarrow> pub_loop ps
      | Inl _ \<Rightarrow> Exit_error)"

definition pub_main :: "bool \<Rightarrow> poll list \<Rightarrow> client_end" where
  "pub_main queued ps = (if queued then pub_loop ps else Panicked)"

text \<open>The subscriber prints topic and text of every message.\<close>

fun sub_loop :: "poll list \<Rightarrow> (string \<times> string) list \<times> client_end" where
  "sub_loop [] = ([], Waiting)"
| "sub_loop (p # ps) =
     (case p of
        Inr (Incoming (RPublish topic payload)) \<Rightarrow>
          (case sub_loop ps of (out, e) \<Rightarrow> ((topic, map u8_char (utf8_lossy payload)) # out, e))
      | Inr _ \<Rightarrow> sub_loop ps
      | Inl _ \<Rightarrow> ([], Exit_error))"

definition sub_main :: "bool \<Rightarrow> poll list \<Rightarrow> (string \<times> string) list \<times> client_end" where
  "sub_main queued ps = (if queued then sub_loop ps else ([], Panicked))"

section \<open>The page read back\<close>

lemma lossy_part_valid:
  assumes "utf8_valid (a # r)"
  shows "\<exists>n. lossy_part a r = (n, True) \<and> 0 < n \<and> n \<le> Suc (length r) \<and> utf8_valid (drop (n - 1) r)"
proof -
  consider (1) "unat a \<le> 0x7F" | (2) "0xC2 \<le> unat a" "unat a \<le> 0xDF" | (3) "0xE0 \<le> unat a" "unat a \<le> 0xEF"
    | (4) "0xF0 \<le> unat a" "unat a \<le> 0xF4"
    using assms by (auto simp: Let_def split: if_splits)
  then show ?thesis
  proof cases
    case 1
    with assms show ?thesis by (simp add: lossy_part_def Let_def)
  next
    case 2
    with assms show ?thesis by (auto simp: lossy_part_def Let_def second_ok_def split: list.splits)
  next
    case 3
    with assms show ?thesis by (auto simp: lossy_part_def Let_def second_ok_def split: list.splits if_splits)
  next
    case 4
    with assms show ?thesis by (auto simp: lossy_part_def Let_def second_ok_def split: list.splits if_splits)
  qed
qed

lemma utf8_lossy_valid: "utf8_valid bs \<Longrightarrow> utf8_lossy bs = bs"
proof (induction bs rule: utf8_lossy.induct)
  case (2 a r)
  from lossy_part_valid [OF 2(2)] obtain n where n: "lossy_part a r = (n, True)" "0 < n" "utf8_valid (drop (n - 1) r)" by blast
  from n 2(1) [of n] have "utf8_lossy (drop (n - 1) r) = drop (n - 1) r" by simp
  with n show ?case by (cases n) (simp_all add: utf8_lossy.simps)
qed (simp add: utf8_lossy.simps)

lemma split_once_skip:
  "CR \<notin> set a \<Longrightarrow> split_once (CR # p) (a @ s) = map_option (\<lambda>(u, v). (a @ u, v)) (split_once (CR # p) s)"
  by (induction a) (auto simp: option.map_comp comp_def case_prod_unfold option.map_ident)

lemma split_once_header:
  assumes "CR \<notin> set a" and "c \<noteq> CR"
  shows "split_once [CR, NL, CR, NL] (a @ CR # NL # c # s)
    = map_option (\<lambda>(u, v). (a @ CR # NL # u, v)) (split_once [CR, NL, CR, NL] (c # s))"
  using assms by (simp add: split_once_skip option.map_comp comp_def case_prod_unfold)

lemma split_once_response:
  assumes "CR \<notin> set status" and "CR \<notin> set ctype"
  shows "\<exists>h. split_once [CR, NL, CR, NL] (http_response status ctype body) = Some (h, body)"
proof -
  have eq: "http_response status ctype body = (''HTTP/1.1 '' @ status) @ CR # NL # CHR ''C'' # (''ontent-Type: '' @ ctype)
      @ CR # NL # CHR ''C'' # (''ontent-Length: '' @ show_nat (length body)) @ CR # NL # CHR ''C'' # ''onnection: close''
      @ CR # NL # CR # NL # body"
    by (simp add: http_response_def)
  have step: "\<exists>h. split_once [CR, NL, CR, NL] (a @ CR # NL # CHR ''C'' # s) = Some (h, body)"
    if "CR \<notin> set a" and "\<exists>h. split_once [CR, NL, CR, NL] s = Some (h, body)" for a s
    using that by (auto simp: split_once_header)
  have "\<exists>h. split_once [CR, NL, CR, NL] (''onnection: close'' @ CR # NL # CR # NL # body) = Some (h, body)"
    by (simp add: split_once_skip)
  then show ?thesis unfolding eq using assms by (intro step) simp_all
qed

lemma rust_string_append: "rust_string s \<Longrightarrow> rust_string t \<Longrightarrow> rust_string (s @ t)"
proof -
  have "utf8_valid a \<Longrightarrow> utf8_valid b \<Longrightarrow> utf8_valid (a @ b)" for a b
    by (induction a rule: utf8_valid.induct) (auto simp: Let_def split: if_splits list.splits)
  then show "rust_string s \<Longrightarrow> rust_string t \<Longrightarrow> rust_string (s @ t)" by (simp add: rust_string_def as_bytes_def)
qed

lemma parse_show_nat: "parse_f64 rnd (show_nat n) = Some (rnd (real n))"
proof -
  obtain c r where s: "show_nat n = c # r" using show_nat_read [of n] by (cases "show_nat n") auto
  have d: "list_all digit (show_nat n)" and v: "digits_value (show_nat n) = n"
    and "show_nat n \<noteq> []"
    using show_nat_read [of n] by (simp_all add: digits_value_def)
  have "digit c" using d s by simp
  then have "c \<noteq> CHR ''-''" "c \<noteq> CHR ''+''" by (auto simp: digit_def)
  then have sign: "parse_sign (show_nat n) = (False, show_nat n)" by (simp add: parse_sign_def s)
  have "char_lower c = c" using \<open>digit c\<close> by (simp add: char_lower_def digit_def Let_def)
  moreover have "c \<noteq> CHR ''n''" "c \<noteq> CHR ''i''" using \<open>digit c\<close> by (auto simp: digit_def)
  ultimately have word: "to_lowercase (show_nat n) \<noteq> ''nan''" "to_lowercase (show_nat n) \<noteq> ''inf''"
      "to_lowercase (show_nat n) \<noteq> ''infinity''"
    by (simp_all add: to_lowercase_def s)
  have whole: "takeWhile digit (show_nat n) = show_nat n" "dropWhile digit (show_nat n) = []"
    using d by (simp_all add: takeWhile_eq_all_conv list_all_iff)
  have "parse_number (show_nat n) = Some (real n)"
    using \<open>show_nat n \<noteq> []\<close> by (simp add: parse_number_def parse_exp_def Let_def whole v starts_with_def)
  with sign word show ?thesis by (simp add: parse_f64_def)
qed

definition plain_name :: "string \<times> string \<times> string \<times> nat \<Rightarrow> bool" where
  "plain_name m \<longleftrightarrow> CHR ''{'' \<notin> set (fst m) \<and> CHR '' '' \<notin> set (fst m)"

definition line_value :: "(real \<Rightarrow> f64) \<Rightarrow> string \<Rightarrow> string \<Rightarrow> f64 option" where
  "line_value rnd name line =
     (case strip_prefix name line of
        None \<Rightarrow> None
      | Some rest \<Rightarrow>
          if \<not> starts_with rest (CHR ''{'') \<and> \<not> starts_with rest (CHR '' '') then None
          else parse_f64 rnd (List.last (split_on (CHR '' '') rest)))"

lemma metric_value_lines: "metric_value rnd body name = find_map (line_value rnd name) (str_lines body)"
  by (simp add: metric_value_def line_value_def [abs_def])

lemma prefix_plain:
  assumes "b @ CHR ''{'' # r = a @ rest" and "starts_with rest (CHR ''{'') \<or> starts_with rest (CHR '' '')"
    and "CHR ''{'' \<notin> set a" and "CHR ''{'' \<notin> set b \<and> CHR '' '' \<notin> set b"
  shows "a = b"
proof -
  from assms(1) obtain us where "b = a @ us \<and> us @ CHR ''{'' # r = rest \<or> b @ us = a \<and> CHR ''{'' # r = us @ rest"
    by (auto simp: append_eq_append_conv2)
  then show ?thesis using assms(2-4) by (cases us) (auto simp: starts_with_def)
qed

lemma line_value_other:
  assumes "CHR ''{'' \<notin> set name" and "plain_name (n, k, h, v)" and "name \<noteq> n"
  shows "line_value rnd (''entmoot_'' @ name) (value_line node (n, v)) = None"
proof (cases "strip_prefix (''entmoot_'' @ name) (value_line node (n, v))")
  case (Some rest)
  then have "n @ CHR ''{'' # ''node=\"'' @ node @ ''\"} '' @ show_nat v = name @ rest"
    by (simp add: value_line_def str_simps)
  from prefix_plain [OF this] assms have "\<not> starts_with rest (CHR ''{'') \<and> \<not> starts_with rest (CHR '' '')"
    by (auto simp: plain_name_def)
  with Some show ?thesis by (simp add: line_value_def)
qed (simp add: line_value_def)

lemma line_value_own: "line_value rnd (''entmoot_'' @ name) (value_line node (name, v)) = Some (rnd (real v))"
proof -
  let ?rest = "(''{node=\"'' @ node @ ''\"}'') @ CHR '' '' # show_nat v"
  have "value_line node (name, v) = (''entmoot_'' @ name) @ ?rest" by (simp add: value_line_def)
  then have "strip_prefix (''entmoot_'' @ name) (value_line node (name, v)) = Some ?rest" by (simp only: strip_prefix_append)
  moreover have "List.last (split_on (CHR '' '') ?rest) = show_nat v"
    by (simp only: split_append) (simp add: split_single)
  ultimately show ?thesis by (simp add: line_value_def parse_show_nat starts_with_def)
qed

lemma chomp_value_line: "chomp (value_line node (name, v)) = value_line node (name, v)"
proof -
  have "List.last (show_nat v) \<noteq> CR" using show_nat_read [of v] by (metis last_in_set show_nat_no(2))
  moreover have "List.last (a @ show_nat v) = List.last (show_nat v)" for a using show_nat_read [of v] by simp
  moreover have "value_line node (name, v) = (''entmoot_'' @ name @ ''{node=\"'' @ node @ ''\"} '') @ show_nat v"
    by (simp add: value_line_def)
  ultimately have "List.last (value_line node (name, v)) \<noteq> CR" by (simp only: not_False_eq_True)
  then show ?thesis by (simp add: chomp_def)
qed

lemma chomp_comment: "line_value rnd (''entmoot_'' @ name) (chomp (CHR ''#'' # CHR '' '' # s)) = None"
  by (auto simp: chomp_def line_value_def)

lemma find_map_page:
  assumes "(name, kind, hlp, v) \<in> set ms" and "distinct (map fst ms)" and "\<forall>m\<in>set ms. plain_name m"
  shows "find_map (line_value rnd (''entmoot_'' @ name)) (map chomp (concat (map (metric_lines node) ms)))
    = Some (rnd (real v))"
  using assms
proof (induction ms)
  case (Cons m ms)
  obtain name' kind' hlp' v' where m: "m = (name', kind', hlp', v')" by (cases m)
  have n: "CHR ''{'' \<notin> set name" using Cons.prems by (auto simp: plain_name_def)
  have lines: "find_map (line_value rnd (''entmoot_'' @ name)) (map chomp (metric_lines node m) @ s)
      = find_map (line_value rnd (''entmoot_'' @ name)) (value_line node (name', v') # s)" for s
    using chomp_comment [of rnd name] by (simp add: metric_lines_def m chomp_value_line)
  have eq: "find_map (line_value rnd (''entmoot_'' @ name)) (map chomp (concat (map (metric_lines node) (m # ms))))
      = find_map (line_value rnd (''entmoot_'' @ name))
          (value_line node (name', v') # map chomp (concat (map (metric_lines node) ms)))"
    by (simp only: list.map concat.simps map_append lines)
  show ?case
  proof (cases "name = name'")
    case True
    with Cons.prems m have "v = v'" by (auto simp: rev_image_eqI)
    with True line_value_own [of rnd name' node v']
    have "line_value rnd (''entmoot_'' @ name) (value_line node (name', v')) = Some (rnd (real v))" by (simp only:)
    then show ?thesis by (simp only: eq find_map.simps option.case)
  next
    case False
    with Cons.prems(1) m have "(name, kind, hlp, v) \<in> set ms" by auto
    then have "find_map (line_value rnd (''entmoot_'' @ name)) (map chomp (concat (map (metric_lines node) ms)))
        = Some (rnd (real v))"
      using Cons.IH Cons.prems(2,3) by simp
    moreover have "line_value rnd (''entmoot_'' @ name) (value_line node (name', v')) = None"
      using line_value_other [OF n _ False] Cons.prems(3) m by auto
    ultimately show ?thesis by (simp only: eq find_map.simps option.case)
  qed
qed simp

lemma page_names_plain: "\<forall>m\<in>set (page_metrics b). plain_name m"
proof -
  have "list_all plain_name (page_metrics b)" by (simp add: page_metrics_def Let_def plain_name_def split: prod.split)
  then show ?thesis by (simp add: list_all_iff)
qed

lemma metric_value_render:
  assumes "NL \<notin> set (cfg_id (b_cfg b))" and "(name, kind, hlp, v) \<in> set (page_metrics b)"
  shows "metric_value rnd (render b) (''entmoot_'' @ name) = Some (rnd (real v))"
proof -
  have "str_lines (render b) = map chomp (concat (map (metric_lines (cfg_id (b_cfg b))) (page_metrics b)))"
    using page_lines [OF assms(1), of "page_metrics b"] page_metrics_ok [of b]
    by (simp add: str_lines_def render_def Let_def)
  with find_map_page [OF assms(2) _ page_names_plain] page_metrics_ok [of b] show ?thesis
    by (simp add: metric_value_lines)
qed

definition ascii :: "string \<Rightarrow> bool" where
  "ascii s \<longleftrightarrow> list_all (\<lambda>c. (of_char c :: nat) \<le> 127) s"

lemma rust_string_ascii: "ascii s \<Longrightarrow> rust_string s"
  by (induction s) (auto simp: ascii_def rust_string_def as_bytes_def char_u8_def unat_of_nat Let_def)

lemma ascii_show_nat: "ascii (show_nat n)"
  using show_nat_plain [of _ n] by (force simp: ascii_def list_all_iff digit_def)

lemma rust_string_concat: "\<forall>s\<in>set ss. rust_string s \<Longrightarrow> rust_string (concat ss)"
proof (induction ss)
  case Nil
  show ?case by (simp add: rust_string_def as_bytes_def)
next
  case (Cons s ss)
  then show ?case by (simp add: rust_string_append)
qed

lemma rust_string_metric:
  assumes "rust_string node" and "ascii name" and "ascii kind" and "ascii hlp"
  shows "rust_string (metric node (name, kind, hlp, v))"
proof -
  have "ascii (''# HELP entmoot_'' @ name @ '' '' @ hlp @ [NL] @ ''# TYPE entmoot_'' @ name @ '' '' @ kind @ [NL]
      @ ''entmoot_'' @ name @ ''{node=\"'')" (is "ascii ?a")
    using assms(2-4) by (simp add: ascii_def)
  moreover have "ascii (''\"} '' @ show_nat v @ [NL])" (is "ascii ?z") using ascii_show_nat [of v] by (simp add: ascii_def)
  moreover have "metric node (name, kind, hlp, v) = ?a @ node @ ?z" by (simp add: metric_def)
  ultimately show ?thesis using assms(1) by (simp only: rust_string_append rust_string_ascii)
qed

lemma page_metrics_ascii: "list_all (\<lambda>(name, kind, hlp, v). ascii name \<and> ascii kind \<and> ascii hlp) (page_metrics b)"
  by (simp add: page_metrics_def Let_def ascii_def split: prod.split)

lemma rust_string_page:
  assumes "rust_string (cfg_id (b_cfg b))"
  shows "rust_string (metrics_response b)"
proof -
  have "rust_string (render b)"
    unfolding render_def
    using assms page_metrics_ascii [of b]
    by (intro rust_string_concat) (auto simp: list_all_iff intro: rust_string_metric)
  moreover have "ascii (''HTTP/1.1 '' @ ''200 OK'' @ [CR, NL] @ ''Content-Type: ''
      @ ''text/plain; version=0.0.4; charset=utf-8'' @ [CR, NL] @ ''Content-Length: '' @ show_nat (length (render b))
      @ [CR, NL] @ ''Connection: close'' @ [CR, NL, CR, NL])" (is "ascii ?h")
    using ascii_show_nat [of "length (render b)"] by (simp add: ascii_def)
  moreover have "metrics_response b = ?h @ render b" by (simp add: metrics_response_def http_response_def)
  ultimately show ?thesis by (simp only: rust_string_append rust_string_ascii)
qed

lemma fetch_page:
  assumes "rust_string (cfg_id (b_cfg b))"
    and "connect addr = Some (\<lambda>req. Some (as_bytes (metrics_response b)))"
  shows "fetch_metrics connect addr = Some (render b)"
proof -
  have "utf8_lossy (as_bytes (metrics_response b)) = as_bytes (metrics_response b)"
    using rust_string_page [OF assms(1)] by (simp add: rust_string_def utf8_lossy_valid)
  moreover have "map u8_char (as_bytes s) = s" for s by (simp add: as_bytes_def comp_def)
  moreover obtain h where "split_once [CR, NL, CR, NL] (metrics_response b) = Some (h, render b)"
    using split_once_response [of "''200 OK''" "''text/plain; version=0.0.4; charset=utf-8''" "render b"]
    by (auto simp: metrics_response_def)
  ultimately show ?thesis using assms(2) by (simp add: fetch_metrics_def)
qed

section \<open>The storm\<close>

definition is_rehydrated :: "StormOutcome option \<Rightarrow> bool" where
  "is_rehydrated r \<longleftrightarrow> (case r of Some (Rehydrated _) \<Rightarrow> True | _ \<Rightarrow> False)"

lemma tally_foldl:
  "foldl tally_one t rs =
     \<lparr>rehydrated = rehydrated t + word_of_nat (length (filter is_rehydrated rs)),
      shed = shed t + word_of_nat (length (filter (\<lambda>r. r = Some Shed) rs)),
      failed = failed t + word_of_nat (length (filter (\<lambda>r. \<not> is_rehydrated r \<and> r \<noteq> Some Shed) rs)),
      rehydrate_hist = rehydrate_hist t
        @ concat (map (\<lambda>r. case r of Some (Rehydrated ms) \<Rightarrow> [max ms 1] | _ \<Rightarrow> []) rs)\<rparr>"
  by (induction rs arbitrary: t)
    (auto simp: tally_one_def is_rehydrated_def split: option.split StormOutcome.split)

lemma three_way: "length rs = length (filter is_rehydrated rs) + length (filter (\<lambda>r. r = Some Shed) rs)
    + length (filter (\<lambda>r. \<not> is_rehydrated r \<and> r \<noteq> Some Shed) rs)"
  by (induction rs) (auto simp: is_rehydrated_def)

lemma hist_length:
  "length (concat (map (\<lambda>r. case r of Some (Rehydrated ms) \<Rightarrow> [max ms 1] | _ \<Rightarrow> []) rs)) = length (filter is_rehydrated rs)"
  by (induction rs) (auto simp: is_rehydrated_def split: option.split StormOutcome.split)

lemma ids_inject: "storm_id i = storm_id j \<longleftrightarrow> i = j" "live_id i = live_id j \<longleftrightarrow> i = j" "storm_id i \<noteq> live_id j"
proof -
  have "show_nat i = show_nat j \<longleftrightarrow> i = j" by (metis read_show option.inject)
  then show "storm_id i = storm_id j \<longleftrightarrow> i = j" "live_id i = live_id j \<longleftrightarrow> i = j" "storm_id i \<noteq> live_id j"
    by (simp_all add: storm_id_def live_id_def)
qed

section \<open>Properties\<close>

text \<open>The metrics endpoint of a node as a client sees it.\<close>

definition serve_bytes :: "('c, 'l) Broker \<Rightarrow> bytes \<Rightarrow> bytes option" where
  "serve_bytes b req =
     (case metrics_serve [Some (b, Some req)] of [Answer page] \<Rightarrow> Some (as_bytes page) | _ \<Rightarrow> None)"

lemma serve_bytes_page: "serve_bytes b req = Some (as_bytes (metrics_response b))"
  by (simp add: serve_bytes_def metrics_serve_def)

text \<open>(C30) The benchmark reports what the node counts: fetched from a node that serves its metrics page,
  the page arrives whole, every metric read off it is the broker's value as an \<open>f64\<close>, and the
  report is made of the scans, the subscribes, their ratio, the shed connects and the stale
  deliveries of that broker (the node id is a Rust string without a line break).\<close>

theorem benchmark_reads_node:
  assumes "rust_string (cfg_id (b_cfg b))" and "NL \<notin> set (cfg_id (b_cfg b))"
    and "ba_metrics_port args = Some mp"
    and "connect (ba_host args @ '':'' @ show_nat (unat mp)) = Some (serve_bytes b)"
  shows "fetch_metrics connect (ba_host args @ '':'' @ show_nat (unat mp)) = Some (render b)
    \<and> (\<forall>(name, kind, hlp, v) \<in> set (page_metrics b).
         metric_value rnd (render b) (''entmoot_'' @ name) = Some (rnd (real v)))
    \<and> node_report rnd connect args =
        Some (let scans = rnd (real (unat (scan_count (b_retained b))));
                  m = env_metrics (st_env (b_store b)); subs = rnd (real (unat (subscribes_total m)))
              in (Some (scans, subs, if f64_positive subs then f64_div rnd scans subs else F64 0),
                  Some (rnd (real (unat (connect_shed_total m)))), Some (rnd (real (unat (stale_retained_total m))))))"
proof -
  have fetch: "fetch_metrics connect (ba_host args @ '':'' @ show_nat (unat mp)) = Some (render b)"
    using fetch_page [where b = b and connect = connect, OF assms(1)] assms(4) by (simp add: serve_bytes_page [abs_def])
  have val: "metric_value rnd (render b) (''entmoot_'' @ name) = Some (rnd (real v))"
    if "(name, kind, hlp, v) \<in> set (page_metrics b)" for name kind hlp v
    using metric_value_render [OF assms(2) that] .
  obtain n0 n1 n2 n3 where st: "stats (b_store b) = (n0, n1, n2, n3)" by (rule prod_cases4)
  have names: "\<exists>kind hlp. (''retained_scans_total'', kind, hlp, unat (scan_count (b_retained b))) \<in> set (page_metrics b)"
    "\<exists>kind hlp. (''subscribes_total'', kind, hlp, unat (subscribes_total (env_metrics (st_env (b_store b))))) \<in> set (page_metrics b)"
    "\<exists>kind hlp. (''connect_shed_total'', kind, hlp, unat (connect_shed_total (env_metrics (st_env (b_store b))))) \<in> set (page_metrics b)"
    "\<exists>kind hlp. (''stale_retained_total'', kind, hlp, unat (stale_retained_total (env_metrics (st_env (b_store b))))) \<in> set (page_metrics b)"
    by (simp_all add: page_metrics_def Let_def st)
  have four: "metric_value rnd (render b) ''entmoot_retained_scans_total'' = Some (rnd (real (unat (scan_count (b_retained b)))))"
    "metric_value rnd (render b) ''entmoot_subscribes_total'' = Some (rnd (real (unat (subscribes_total (env_metrics (st_env (b_store b)))))))"
    "metric_value rnd (render b) ''entmoot_connect_shed_total'' = Some (rnd (real (unat (connect_shed_total (env_metrics (st_env (b_store b)))))))"
    "metric_value rnd (render b) ''entmoot_stale_retained_total'' = Some (rnd (real (unat (stale_retained_total (env_metrics (st_env (b_store b)))))))"
    using names val by fastforce+
  have "node_report rnd connect args = Some (metrics_report rnd (render b))"
    using assms(3) fetch by (simp add: node_report_def)
  then show ?thesis using fetch val four by (auto simp: metrics_report_def Let_def)
qed

theorem benchmark_reads_node_witness:
  "fetch_metrics (\<lambda>addr. Some (serve_bytes demo_broker)) (''127.0.0.1'' @ '':'' @ show_nat 9464)
     = Some (render demo_broker)"
proof -
  have "rust_string (cfg_id (b_cfg demo_broker))" "NL \<notin> set (cfg_id (b_cfg demo_broker))"
    by (simp_all add: demo_broker_def NodeConfig_default_def rust_string_ascii ascii_def)
  then show ?thesis
    using benchmark_reads_node [of demo_broker "BenchArgs_default\<lparr>ba_metrics_port := Some 9464\<rparr>" 9464
        "\<lambda>addr. Some (serve_bytes demo_broker)" "\<lambda>r. F64 r"]
    by (simp add: BenchArgs_default_def)
qed

text \<open>The storm's account adds up: the clients are pairwise different persistent sessions, none of
  them that of a live client, the three counters are exact and sum up to the number of storm
  clients, and the histogram has one sample of at least 1 per rehydrated client, in the order of
  the clients.\<close>

theorem storm_account_exact:
  assumes "length rs = unat (ba_storm_clients args)"
  shows "unat (rehydrated (storm_tally_of rs)) = length (filter is_rehydrated rs)
    \<and> unat (shed (storm_tally_of rs)) = length (filter (\<lambda>r. r = Some Shed) rs)
    \<and> unat (rehydrated (storm_tally_of rs)) + unat (shed (storm_tally_of rs)) + unat (failed (storm_tally_of rs))
        = unat (ba_storm_clients args)
    \<and> length (rehydrate_hist (storm_tally_of rs)) = length (filter is_rehydrated rs)
    \<and> (\<forall>ms\<in>set (rehydrate_hist (storm_tally_of rs)). 1 \<le> ms)
    \<and> distinct (map storm_id [0..<length rs]) \<and> (\<forall>i j. storm_id i \<noteq> live_id j)"
proof -
  have small: "n \<le> length rs \<Longrightarrow> unat (word_of_nat n :: u64) = n" for n
    using assms u32_less [of "ba_storm_clients args"] by (simp add: unat_of_nat)
  let ?ok = "length (filter is_rehydrated rs)"
  let ?sh = "length (filter (\<lambda>r. r = Some Shed) rs)"
  let ?ko = "length (filter (\<lambda>r. \<not> is_rehydrated r \<and> r \<noteq> Some Shed) rs)"
  have sum: "?ok + ?sh + ?ko = length rs" using three_way [of rs] by simp
  then have "unat (word_of_nat ?ok :: u64) = ?ok" "unat (word_of_nat ?sh :: u64) = ?sh" "unat (word_of_nat ?ko :: u64) = ?ko"
    by (simp_all only: small)
  moreover have "distinct (map storm_id [0..<length rs])" by (simp add: distinct_map inj_on_def ids_inject)
  ultimately show ?thesis
    using sum assms
    by (auto simp: storm_tally_of_def tally_foldl hist_length ids_inject split: option.splits StormOutcome.splits)
qed

theorem storm_account_exact_witness:
  "unat (rehydrated (storm_tally_of [Some (Rehydrated 7), Some Shed, None, Some (Rehydrated 0)])) = 2"
  using storm_account_exact [of "[Some (Rehydrated 7), Some Shed, None, Some (Rehydrated 0)]"
      "BenchArgs_default\<lparr>ba_storm_clients := 4\<rparr>"]
  by (simp add: BenchArgs_default_def is_rehydrated_def)

text \<open>The storm hits a healed network and primed sessions: when a storm client is started, its session
  was primed and awaited before, the partition was toggled an even number of times, and nothing
  toggles it later.\<close>

theorem storm_after_healing:
  assumes "i < unat (ba_storm_clients args)"
  shows "\<exists>before aft. bench_main args remaining = before @ Spawn_storm i # aft \<and> Join_prime i \<in> set before
    \<and> even (length (filter (\<lambda>a. case a of Toggle _ \<Rightarrow> True | _ \<Rightarrow> False) before))
    \<and> \<not> list_ex (\<lambda>a. case a of Toggle _ \<Rightarrow> True | _ \<Rightarrow> False) aft"
proof -
  let ?n = "unat (ba_storm_clients args)" and ?live = "[0..<unat (ba_live_clients args)]"
  let ?toggle = "\<lambda>a. case a of Toggle _ \<Rightarrow> True | _ \<Rightarrow> False"
  have "[0..<?n] = [0..<i] @ i # [Suc i..<?n]"
    using assms upt_add_eq_append [of 0 i "?n - i"] by (simp add: upt_conv_Cons)
  then have storm: "map Spawn_storm [0..<?n] = map Spawn_storm [0..<i] @ Spawn_storm i # map Spawn_storm [Suc i..<?n]"
    by (metis list.simps(9) map_append)
  let ?a = "map Spawn_live ?live @ map Spawn_prime [0..<?n] @ map Join_prime [0..<?n] @ partition_phase args @ map Spawn_storm [0..<i]"
  let ?b = "map Spawn_storm [Suc i..<?n] @ map Join_storm [0..<?n] @ (if remaining = 0 then [] else [Sleep_rest remaining]) @ map Abort_live ?live"
  have "bench_main args remaining = ?a @ Spawn_storm i # ?b" by (simp add: bench_main_def Let_def storm)
  moreover have "Join_prime i \<in> set ?a" using assms by simp
  moreover have none: "filter ?toggle (map f xs) = []" if "\<And>x. \<not> ?toggle (f x)" for f :: "nat \<Rightarrow> bench_action" and xs
    using that by (simp add: filter_empty_conv)
  then have "even (length (filter ?toggle ?a))"
    by (simp add: partition_phase_def toggle_toxiproxy_def split: option.split)
  moreover have "\<not> list_ex ?toggle ?b" by (auto simp: list_ex_iff)
  ultimately show ?thesis by blast
qed

theorem storm_after_healing_witness:
  "\<exists>before aft. bench_main BenchArgs_default 0 = before @ Spawn_storm 7 # aft \<and> Join_prime 7 \<in> set before"
  using storm_after_healing [of 7 BenchArgs_default 0] by (auto simp: BenchArgs_default_def)

text \<open>A round trip is measured right: a client that receives at \<open>t1\<close> the payload it published at
  \<open>t0\<close> records their distance in microseconds, at least 1, with the publish interval as the
  correction, and the payload of a tick is eight bytes.\<close>

theorem live_latency_exact:
  assumes "0 \<le> t0" and "t0 \<le> t1" and "t1 < 2 ^ 64"
  shows "live_sent (live_step i (LTick t0) st) = live_sent st @ [u64_to_be_bytes (now_nanos t0)]
    \<and> length (u64_to_be_bytes (now_nanos t0)) = 8
    \<and> live_hist (live_step i (LPoll (Inr (Incoming (RPublish topic (u64_to_be_bytes (now_nanos t0))))) t1) st)
        = live_hist st @ [(max (word_of_nat (nat (t1 - t0) div 1000)) 1, i)]"
proof -
  have len: "length (u64_to_be_bytes w) = 8" for w by (simp add: u64_to_be_bytes_def)
  have "nat t < 2 ^ LENGTH(64)" if "t < 2 ^ 64" for t using that by (simp add: nat_less_iff)
  then have "unat (now_nanos t) = nat t" if "t < 2 ^ 64" for t
    unfolding now_nanos_def using that by (intro of_nat_inverse [OF refl]) blast
  then have u: "unat (now_nanos t0) = nat t0" "unat (now_nanos t1) = nat t1" using assms by simp_all
  have le: "now_nanos t0 \<le> now_nanos t1" using assms u by (simp add: word_le_nat_alt)
  have "nat (t1 - t0) div 1000 < 2 ^ 64" using assms by (simp add: nat_less_iff div_le_dividend le_less_trans)
  then have "latency_us (now_nanos t1) (now_nanos t0) = word_of_nat (nat (t1 - t0) div 1000)"
    using le u assms
    by (intro word_unat_eq_iff [THEN iffD2])
      (simp add: latency_us_def unat_div unat_sub unat_of_nat nat_diff_distrib)
  then show ?thesis by (simp add: live_step_def len)
qed

theorem live_latency_exact_witness:
  "live_hist (live_step 100000 (LPoll (Inr (Incoming (RPublish ''bench/live/0'' (u64_to_be_bytes (now_nanos 1000))))) 5000) st)
     = live_hist st @ [(max (word_of_nat (nat (5000 - 1000) div 1000)) 1, 100000)]"
  using live_latency_exact [of 1000 5000] by simp

text \<open>The account of shed connects is wider than its documentation says: every connection error,
  not only a CONNACK with \<open>ServiceUnavailable\<close>, counts as shed.\<close>

theorem any_error_is_shed: "reconnect_storm_client (Inl e # ps) elapsed = Shed"
  by (cases e) (simp_all add: reconnect_storm_client_def)

end
