(* ===== verification/Broker_Invariant.thy ===== *)
theory Broker_Invariant
  imports Connection_Safety
begin

text \<open>
  What a connection may do to the broker it runs on, as an interface. The locale
  \<open>broker_quiet\<close> lists the primitive changes the packet handlers of \<open>Connection\<close> make: counters,
  the bus, a retained look-up, the admission state, packet ids, the kick reason, subscriptions.
  A predicate that each of them keeps is kept by every event of an open connection.
  \<open>broker_invariant\<close> adds attach and detach, so that a whole connection keeps the predicate,
  from CONNECT to the last will. The latter is interpreted on \<open>broker_ok\<close>: the registry and every
  session are in order, the match cache is coherent with the retained store, and every
  subscription in force was permitted to somebody by the access list.
\<close>

section \<open>The interface\<close>

abbreviation with_session :: "nat \<Rightarrow> SessionState \<Rightarrow> store \<Rightarrow> store" where
  "with_session r s st \<equiv> st\<lparr>st_heap := hm_insert r s (st_heap st)\<rparr>"

lemma send_broker: "send p cn = (r, cn') \<Longrightarrow> cn_broker cn' = cn_broker cn"
  by (auto simp: send_def split: if_splits)

lemma acknowledge_broker: "acknowledge p cn = (r, cn') \<Longrightarrow> cn_broker cn' = cn_broker cn"
  by (auto simp: acknowledge_def send_def split: QoS.splits if_splits)

lemma on_broker_broker [simp]: "cn_broker (on_broker f cn) = f (cn_broker cn)"
  by (simp add: on_broker_def)

locale broker_quiet =
  fixes x :: "('c, 'l) extern" and inv :: "('c, 'l) Broker \<Rightarrow> bool"
  assumes inv_count: "inv b \<Longrightarrow> inv (count c b)"
    and inv_bus: "inv b \<Longrightarrow> inv (b\<lparr>b_bus := ops\<rparr>)"
    and inv_admission: "inv b \<Longrightarrow> inv (b\<lparr>b_admission := l\<rparr>)"
    and inv_look_up: "inv b \<Longrightarrow> matching_cached (x_cache x) f (b_retained b) = (ms, rs) \<Longrightarrow> inv (b\<lparr>b_retained := rs\<rparr>)"
    and inv_pkid: "inv b \<Longrightarrow> hm_get (st_heap (b_store b)) r = Some s \<Longrightarrow> next_pkid s = (n, s') \<Longrightarrow>
      inv (b\<lparr>b_store := with_session r s' (b_store b)\<rparr>)"
    and inv_reason: "inv b \<Longrightarrow> hm_get (st_heap (b_store b)) r = Some s \<Longrightarrow> take_kick_reason s = (why, s') \<Longrightarrow>
      inv (b\<lparr>b_store := with_session r s' (b_store b)\<rparr>)"
    and inv_subscribe: "inv b \<Longrightarrow> may_subscribe (b_acl b) who f \<Longrightarrow> activate_subscription scope decl r f q (b_store b) = (res, st) \<Longrightarrow>
      inv (b\<lparr>b_store := st\<rparr>)"
    and inv_unsubscribe: "inv b \<Longrightarrow> inv (b\<lparr>b_store := on_session r (remove_sub f) (b_store b)\<rparr>)"
begin

lemma bus_write_inv: "inv b \<Longrightarrow> inv (snd (bus_write x w b))"
  by (simp add: bus_write_def inv_bus)

lemma event_inv: "inv b \<Longrightarrow> inv (publish_client_event x cid ev b)"
  by (simp add: publish_client_event_def bus_write_inv)

lemma client_pkid_inv: "inv (cn_broker cn) \<Longrightarrow> client_next_pkid cn = (n, cn') \<Longrightarrow> inv (cn_broker cn')"
  by (auto simp: client_next_pkid_def Let_def intro: inv_pkid split: option.splits prod.splits)

lemma try_each_inv:
  assumes "\<forall>y cn r cn'. inv (cn_broker cn) \<longrightarrow> f y cn = (r, cn') \<longrightarrow> inv (cn_broker cn')"
  shows "inv (cn_broker cn) \<Longrightarrow> try_each f ys cn = (r, cn') \<Longrightarrow> inv (cn_broker cn')"
proof (induction ys arbitrary: cn)
  case (Cons y ys)
  obtain r1 cn1 where y: "f y cn = (r1, cn1)" by fastforce
  with assms Cons.prems(1) have "inv (cn_broker cn1)" by blast
  with Cons y show ?case by (cases r1) auto
qed simp

lemma relay_inv: "inv b \<Longrightarrow> relay x now ke p b = (ok, b') \<Longrightarrow> inv b'"
  by (auto simp: relay_def bus_write_def Let_def inv_bus inv_count split: if_splits)

lemma handle_publish_inv:
  assumes "inv (cn_broker cn)" and "handle_publish x now p cn = (r, cn')"
  shows "inv (cn_broker cn')"
  using assms
  by (auto simp: handle_publish_def Let_def inv_count split: prod.splits if_splits sum.splits bool.splits
      dest!: acknowledge_broker dest: relay_inv)

lemma subscribe_filter_inv:
  assumes "inv (cn_broker cn)" and "subscribe_filter x f q cn = (code, cn')"
  shows "inv (cn_broker cn')"
  using assms
  by (auto simp: subscribe_filter_def Let_def inv_count event_inv split: sum.splits if_splits prod.splits
      dest: inv_subscribe intro!: event_inv inv_count)

lemma subscribe_all_inv: "inv (cn_broker cn) \<Longrightarrow> subscribe_all x fs cn = (codes, cn') \<Longrightarrow> inv (cn_broker cn')"
proof (induction fs arbitrary: cn codes cn')
  case (Cons a fs)
  then show ?case by (cases a) (auto split: prod.splits dest: subscribe_filter_inv)
qed simp

lemma flag_if_stale_inv: "inv b \<Longrightarrow> inv (flag_if_stale x now t ts b)"
  by (simp add: flag_if_stale_def Let_def inv_count bus_write_inv)

lemma deliver_retained_one_inv:
  assumes "inv (cn_broker cn)" and "deliver_retained_one x now q entry cn = (r, cn')"
  shows "inv (cn_broker cn')"
proof -
  obtain t payload ts where e: "entry = (t, payload, ts)" by (cases entry)
  let ?p = "(Publish_new t q payload)\<lparr>p_retain := True\<rparr>"
  obtain n cn1 where n: "(if q \<noteq> AtMostOnce then client_next_pkid cn else (p_pkid ?p, cn)) = (n, cn1)" by fastforce
  then have 1: "inv (cn_broker cn1)" using assms(1) client_pkid_inv by (auto split: if_splits)
  obtain r2 cn2 where s: "send (PPublish (?p\<lparr>p_pkid := n\<rparr>)) cn1 = (r2, cn2)" by fastforce
  have "inv (cn_broker cn2)" using 1 send_broker [OF s] by simp
  then show ?thesis
    using assms(2) n s by (auto simp: deliver_retained_one_def e Let_def flag_if_stale_inv inv_count split: sum.splits)
qed

lemma deliver_retained_inv:
  assumes "inv (cn_broker cn)" and "deliver_retained x now fq cn = (r, cn')"
  shows "inv (cn_broker cn')"
proof -
  obtain f q where fq: "fq = (f, q)" by (cases fq)
  obtain ms rs where m: "matching_cached (x_cache x) f (b_retained (cn_broker cn)) = (ms, rs)" by fastforce
  have "inv (cn_broker (on_broker (\<lambda>b. b\<lparr>b_retained := rs\<rparr>) cn))" using inv_look_up [OF assms(1) m] by simp
  moreover have "try_each (deliver_retained_one x now q) ms (on_broker (\<lambda>b. b\<lparr>b_retained := rs\<rparr>) cn) = (r, cn')"
    using assms(2) by (simp add: deliver_retained_def fq m)
  moreover have "\<forall>y cn r cn'. inv (cn_broker cn) \<longrightarrow> deliver_retained_one x now q y cn = (r, cn') \<longrightarrow> inv (cn_broker cn')"
    using deliver_retained_one_inv by blast
  ultimately show ?thesis using try_each_inv by blast
qed

lemma handle_subscribe_inv:
  assumes "inv (cn_broker cn)" and "handle_subscribe x now n fs cn = (r, cn')"
  shows "inv (cn_broker cn')"
proof -
  obtain codes cn1 where 1: "subscribe_all x fs cn = (codes, cn1)" by fastforce
  obtain r2 cn2 where 2: "send (PSubAck n codes) cn1 = (r2, cn2)" by fastforce
  have "inv (cn_broker cn2)" using subscribe_all_inv [OF assms(1) 1] send_broker [OF 2] by simp
  moreover have "\<forall>y cn r cn'. inv (cn_broker cn) \<longrightarrow> deliver_retained x now y cn = (r, cn') \<longrightarrow> inv (cn_broker cn')"
    using deliver_retained_inv by blast
  ultimately have "try_each (deliver_retained x now) fqs cn2 = (r', c) \<Longrightarrow> inv (cn_broker c)" for fqs r' c
    using try_each_inv by blast
  with \<open>inv (cn_broker cn2)\<close> assms(2) show ?thesis by (cases r2) (auto simp: handle_subscribe_def 1 2)
qed

lemma handle_unsubscribe_inv:
  assumes "inv (cn_broker cn)" and "handle_unsubscribe x n ts cn = (r, cn')"
  shows "inv (cn_broker cn')"
proof -
  let ?f = "\<lambda>cn t. on_broker (\<lambda>b. publish_client_event x (cl_id (cn_client cn)) (''unsubscribe filter='' @ t)
               (b\<lparr>b_store := on_session (cl_session (cn_client cn)) (remove_sub t) (b_store b)\<rparr>)) cn"
  have "inv (cn_broker c) \<Longrightarrow> inv (cn_broker (foldl ?f c ts))" for c
    by (induction ts arbitrary: c) (simp_all add: event_inv inv_unsubscribe)
  then have "inv (cn_broker (foldl ?f cn ts))" using assms(1) by blast
  moreover have "cn_broker cn' = cn_broker (foldl ?f cn ts)"
    using assms(2) unfolding handle_unsubscribe_def by (rule send_broker)
  ultimately show ?thesis by (simp only:)
qed

lemma or_break_inv: "(\<And>r cn'. y = (r, cn') \<Longrightarrow> inv (cn_broker cn')) \<Longrightarrow> inv (cn_broker (snd (or_break y)))"
  by (cases y) (auto simp: or_break_def split: sum.splits)

lemma handle_packet_inv:
  assumes "inv (cn_broker cn)"
  shows "inv (cn_broker (snd (handle_packet x now p cn)))"
proof -
  have send: "inv (cn_broker (snd (or_break (send q c))))" if "inv (cn_broker c)" for q c
    using that by (intro or_break_inv) (simp add: send_broker)
  have "inv (cn_broker (snd (or_break (handle_publish x now pb cn))))"
    "inv (cn_broker (snd (or_break (handle_subscribe x (snd now) n fs cn))))"
    "inv (cn_broker (snd (or_break (handle_unsubscribe x n ts cn))))" for pb n fs ts
    by (rule or_break_inv, erule handle_publish_inv [OF assms] handle_subscribe_inv [OF assms] handle_unsubscribe_inv [OF assms])+
  with send assms show ?thesis by (cases p) (simp_all add: handle_packet_def)
qed

lemma run_event_inv: "inv (cn_broker cn) \<Longrightarrow> run_event x ne cn = (fl, cn') \<Longrightarrow> inv (cn_broker cn')"
proof -
  assume i: "inv (cn_broker cn)" and r: "run_event x ne cn = (fl, cn')"
  obtain now ev where ne: "ne = (now, ev)" by (cases ne)
  obtain why c where t: "take_reason cn = (why, c)" by fastforce
  have k: "inv (cn_broker c)"
    using i t by (auto simp: take_reason_def Let_def intro: inv_reason split: option.splits prod.splits)
  have "cn' = snd (run_event x ne cn)" using r by simp
  also have "inv (cn_broker \<dots>)"
    using i k handle_packet_inv [OF i] by (cases ev) (simp_all add: run_event_def ne t)
  finally show ?thesis .
qed

lemma run_inv: "inv (cn_broker cn) \<Longrightarrow> run x events cn = (r, cn') \<Longrightarrow> inv (cn_broker cn')"
proof (induction events arbitrary: cn)
  case (Cons ne nes)
  obtain fl cn1 where 1: "run_event x ne cn = (fl, cn1)" by fastforce
  with Cons run_event_inv [OF Cons.prems(1) 1] show ?case by (cases fl) auto
qed simp

lemma fire_will_inv: "inv (cn_broker cn) \<Longrightarrow> inv (cn_broker (fire_will x now cn))"
  by (simp add: fire_will_def Let_def bus_write_inv split: option.split sum.split)

lemma connect_gate_inv: "inv b \<Longrightarrow> connect_gate x now cert c b = (g, b') \<Longrightarrow> inv b'"
  by (auto simp: connect_gate_def Let_def inv_count inv_admission split: prod.splits bool.splits option.splits sum.splits)

lemma send_backlog_one_inv: "inv (cn_broker cn) \<Longrightarrow> send_backlog_one m cn = (r, cn') \<Longrightarrow> inv (cn_broker cn')"
  by (auto simp: send_backlog_one_def intro!: inv_count split: prod.splits sum.splits dest!: send_broker dest: client_pkid_inv)

text \<open>What the attachment establishes, the rest of the opening keeps.\<close>

lemma open_session_rest:
  assumes "open_session x now peer tx k room who c b = (r, cn)"
    and n: "session_name (snd now) c = (cid, clean)"
    and a: "attach cid who clean tx k (b_store (count connections_total_update b)) = (out, st)"
    and b: "inv ((count connections_total_update b)\<lparr>b_store := st\<rparr>)"
  shows "inv (cn_broker cn)"
proof -
  let ?b = "count connections_total_update b"
  have each: "inv (cn_broker c) \<Longrightarrow> try_each send_backlog_one ms c = (r, c') \<Longrightarrow> inv (cn_broker c')" for ms c r c'
    using send_backlog_one_inv try_each_inv [of send_backlog_one] by blast
  show ?thesis
  proof (cases out)
    case None
    with assms(1) n a b show ?thesis by (auto simp: open_session_def)
  next
    case (Some ao)
    define cn0 where "cn0 = \<lparr>cn_client = \<lparr>cl_session = ao_session ao, cl_id = cid, cl_identity = who,
        cl_keep_alive = cp_keep_alive c, cl_will = cp_last_will c,
        cl_rate = RateLimiter_new (cfg_max_publish_rate (b_cfg ?b)) (fst now), cl_inflight = []\<rparr>,
        cn_broker = ?b\<lparr>b_store := st\<rparr>, cn_out = [], cn_room = room\<rparr>"
    obtain r1 cn1 where s: "send (PConnAck Success (ao_present ao)) cn0 = (r1, cn1)" by fastforce
    have 1: "inv (cn_broker cn1)" using b send_broker [OF s] by (simp add: cn0_def)
    let ?cn2 = "on_broker (publish_client_event x cid (''connect addr='' @ peer @ '' clean='' @ show_bool clean)) cn1"
    obtain r3 cn3 where t: "try_each send_backlog_one (ao_backlog ao) ?cn2 = (r3, cn3)" by fastforce
    have 3: "inv (cn_broker cn3)" using each [OF _ t] 1 by (simp add: event_inv)
    have "cn = cn1 \<or> cn = cn3"
      using assms(1) n a Some s t by (cases r1; cases r3) (simp_all add: open_session_def Let_def cn0_def)
    with 1 3 show ?thesis by blast
  qed
qed

end

text \<open>Attaching and detaching besides.\<close>

locale broker_invariant = broker_quiet +
  assumes inv_attach: "inv b \<Longrightarrow> attach cid who clean tx k (b_store b) = (out, st) \<Longrightarrow> inv (b\<lparr>b_store := st\<rparr>)"
    and inv_detach: "inv b \<Longrightarrow> inv (b\<lparr>b_store := detach now r ep clean (b_store b)\<rparr>)"
begin

lemma close_session_inv: "inv (cn_broker cn) \<Longrightarrow> inv (cn_broker (close_session x now clean ep r cn))"
  by (simp add: close_session_def Let_def event_inv inv_detach fire_will_inv split: sum.split)

lemma open_session_inv:
  assumes "inv b" and "open_session x now peer tx k room who c b = (r, cn)"
  shows "inv (cn_broker cn)"
proof -
  obtain cid clean where n: "session_name (snd now) c = (cid, clean)" by fastforce
  obtain out st where a: "attach cid who clean tx k (b_store (count connections_total_update b)) = (out, st)" by fastforce
  from open_session_rest [OF assms(2) n a] inv_attach [OF inv_count [OF assms(1)] a] show ?thesis by blast
qed

lemma serve_inv:
  assumes "inv b"
  shows "inv (sv_broker (serve x now peer cert tx k room first events last_now b))"
proof -
  have granted: "inv (sv_broker (serve x now peer cert tx k room (FirstPacket (PConnect c)) events last_now b))"
    if g: "connect_gate x now cert c b = (Granted who, b1)" for c who b1
  proof -
    obtain r cn where o: "open_session x now peer tx k room who c b1 = (r, cn)" by fastforce
    have 1: "inv (cn_broker cn)" using open_session_inv [OF connect_gate_inv [OF assms g] o] .
    obtain r2 cn2 where 2: "run x events cn = (r2, cn2)" by fastforce
    show ?thesis
      using 1 run_inv [OF 1 2] by (cases r; cases r2) (simp_all add: serve_def g o 2 close_session_inv Let_def)
  qed
  have refused: "inv (sv_broker (serve x now peer cert tx k room (FirstPacket (PConnect c)) events last_now b))"
    if "connect_gate x now cert c b = (Refused code, b1)" for c code b1
    using connect_gate_inv [OF assms that] by (simp add: serve_def that)
  have "inv (sv_broker (serve x now peer cert tx k room (FirstPacket (PConnect c)) events last_now b))" for c
  proof -
    obtain g b1 where "connect_gate x now cert c b = (g, b1)" by fastforce
    then show ?thesis using granted refused by (cases g) auto
  qed
  then show ?thesis
    using assms by (cases first; simp add: serve_def split: Packet.splits)
qed

end

section \<open>Whose subscriptions\<close>

text \<open>The filters some session of the store is subscribed to.\<close>

definition filters_of :: "SessionState \<Rightarrow> string set" where
  "filters_of s = dom (hm_get (subs (inner s)))"

definition sub_filters :: "store \<Rightarrow> string set" where
  "sub_filters st = {f. \<exists>r s. hm_get (st_heap st) r = Some s \<and> f \<in> filters_of s}"

lemma filters_of_methods:
  "next_pkid s = (n, s') \<Longrightarrow> filters_of s' = filters_of s"
  "take_kick_reason s = (why, s') \<Longrightarrow> filters_of s' = filters_of s"
  "detach_conn now ep s = (b, s') \<Longrightarrow> filters_of s' = filters_of s"
  "attach_conn who tx k (s, e) = (out, s', e') \<Longrightarrow> filters_of s' = filters_of s"
  "evict_slow now tx (s, e) = (s', e') \<Longrightarrow> filters_of s' = filters_of s"
  by (auto simp: filters_of_def attach_conn_def session_defs split: prod.splits option.splits if_splits)

lemma filters_of_changes:
  "filters_of (fst (kick_current (s, e))) = filters_of s"
  "filters_of (fst (abort_subs (s, e))) = {}"
  "session_inv s \<Longrightarrow> filters_of (fst (insert_sub f q task (s, e))) = insert f (filters_of s)"
  "session_inv s \<Longrightarrow> filters_of (fst (remove_sub f (s, e))) = filters_of s - {f}"
  "filters_of (SessionState_new fs cid n g qp sp) = {}"
  by (auto simp: filters_of_def session_defs session_inv_def SessionState_new_def split: option.splits if_splits)

lemma deliver_step_filters:
  "deliver_step t p q now outcome (pc, s, e) = (pc', s', e') \<Longrightarrow> filters_of s' = filters_of s"
proof (cases pc)
  case (AtClear tx)
  moreover assume "deliver_step t p q now outcome (pc, s, e) = (pc', s', e')"
  ultimately show ?thesis by (auto simp: deliver_step_def Let_def filters_of_def split: if_splits)
next
  case AtQueue
  moreover assume "deliver_step t p q now outcome (pc, s, e) = (pc', s', e')"
  ultimately show ?thesis by (auto simp: deliver_step_def Let_def filters_of_def split: if_splits)
qed (auto simp: deliver_step_def Let_def filters_of_methods(1,5)
       split: option.splits if_splits prod.splits SendOutcome.splits)

lemma sub_filters_same [simp]:
  "sub_filters (st\<lparr>st_env := e\<rparr>) = sub_filters st" "sub_filters (st\<lparr>st_registry := reg\<rparr>) = sub_filters st"
  "sub_filters (st\<lparr>st_next := n\<rparr>) = sub_filters st" "sub_filters (register cid r st) = sub_filters st"
  "sub_filters (discard_paths qp sp st) = sub_filters st"
  by (simp_all add: sub_filters_def register_def discard_paths_def)

lemma sub_filters_with:
  assumes "store_wf st"
  shows "sub_filters (with_session r s st) \<subseteq> sub_filters st \<union> filters_of s"
  using store_wf_maps [OF assms] by (auto simp: sub_filters_def split: if_splits)

lemma sub_filters_session: "hm_get (st_heap st) r = Some s \<Longrightarrow> filters_of s \<subseteq> sub_filters st"
  by (auto simp: sub_filters_def)

lemma sub_filters_on_session:
  assumes "store_wf st" and "\<And>s e. session_inv s \<Longrightarrow> filters_of (fst (g (s, e))) \<subseteq> filters_of s \<union> F"
  shows "sub_filters (on_session r g st) \<subseteq> sub_filters st \<union> F"
proof (cases "hm_get (st_heap st) r")
  case (Some s)
  obtain s' e' where g: "g (s, st_env st) = (s', e')" by fastforce
  have "session_inv s" using store_wf_session [OF assms(1) Some] by blast
  from assms(2) [OF this, of "st_env st"] g have "filters_of s' \<subseteq> filters_of s \<union> F" by simp
  moreover have "on_session r g st = (with_session r s' st)\<lparr>st_env := e'\<rparr>" by (simp add: on_session_def Some g)
  ultimately show ?thesis
    using sub_filters_with [OF assms(1), of r s'] sub_filters_session [OF Some] by auto
qed (simp add: on_session_def)

lemma sub_filters_quiet:
  assumes "store_wf st"
  shows "sub_filters (on_session r kick_current st) \<subseteq> sub_filters st"
    and "sub_filters (on_session r abort_subs st) \<subseteq> sub_filters st"
    and "sub_filters (on_session r (remove_sub f) st) \<subseteq> sub_filters st"
    and "sub_filters (on_session r (insert_sub f q task) st) \<subseteq> insert f (sub_filters st)"
    and "sub_filters (sweep_one st r) \<subseteq> sub_filters st"
  using sub_filters_on_session [OF assms, of kick_current "{}" r]
    sub_filters_on_session [OF assms, of abort_subs "{}" r]
    sub_filters_on_session [OF assms, of "remove_sub f" "{}" r]
    sub_filters_on_session [OF assms, of "insert_sub f q task" "{f}" r]
    sub_filters_on_session [OF assms, of "\<lambda>(s, e). case abort_subs (s, e) of (s, e) \<Rightarrow> (s, discard_state_files s e)" "{}" r]
    filters_of_changes(2)
  by (auto simp: filters_of_changes sweep_one_def case_prod_unfold)

lemma sub_filters_alloc:
  assumes "store_wf st" and "alloc s st = (r, st')" and "filters_of s = {}"
  shows "sub_filters st' \<subseteq> sub_filters st"
  using sub_filters_with [OF assms(1), of "st_next st" s] assms(2,3) by (auto simp: alloc_def)

lemma sub_filters_activate:
  assumes "store_wf st" and "activate_subscription scope decl r f q st = (res, st')"
  shows "sub_filters st' \<subseteq> insert f (sub_filters st)"
  using assms sub_filters_quiet(4) [OF store_wf_bump [OF assms(1)], of r f q "st_next st"]
  by (auto simp: activate_subscription_def split: sum.splits if_splits)

lemma sub_filters_detach:
  assumes "store_wf st"
  shows "sub_filters (detach now r ep clean st) \<subseteq> sub_filters st"
proof (cases "hm_get (st_heap st) r")
  case (Some s)
  obtain b s' where d: "detach_conn now ep s = (b, s')" by fastforce
  let ?st = "with_session r s' st"
  have s': "session_inv s'" "client_id s' = client_id s"
    using detach_inv [OF _ d] books_methods(3) [OF d] store_wf_session [OF assms Some] by (auto simp: same_config_def)
  have wf: "store_wf ?st" using store_wf_update [OF assms Some s'] .
  have 1: "sub_filters ?st \<subseteq> sub_filters st"
    using sub_filters_with [OF assms, of r s'] filters_of_methods(3) [OF d] sub_filters_session [OF Some] by auto
  with sub_filters_quiet(2) [OF wf, of r] show ?thesis
    by (cases b) (auto simp: detach_def Some d Let_def)
qed (simp add: detach_def)

lemma sub_filters_attach:
  assumes "store_wf st" and "attach cid who clean tx k st = (out, st')"
  shows "sub_filters st' \<subseteq> sub_filters st"
proof -
  obtain r present st1 where l: "attach_lookup cid clean st = (r, present, st1)" by (metis prod_cases3)
  from attach_lookup_wf [OF assms(1) l] obtain s where
    wf: "store_wf st1" and s: "hm_get (st_heap st1) r = Some s" by blast
  have 1: "sub_filters st1 \<subseteq> sub_filters st"
  proof (cases "hm_get (sessions (st_registry st)) cid")
    case None
    have "sub_filters st3 \<subseteq> sub_filters st"
      if "alloc (SessionState_new fs cid n g qp' sp') (discard_paths qp sp st) = (r', st3)
        \<or> alloc (SessionState_new fs cid n g qp' sp') st = (r', st3)" for fs n g qp' sp' qp sp r' st3
      using that sub_filters_alloc [OF _ _ filters_of_changes(5)] assms(1) by (metis sub_filters_same(5) store_wf_discard)
    with l None show ?thesis
      by (cases clean) (fastforce simp: attach_lookup_def Let_def split: prod.splits)+
  next
    case (Some r0)
    let ?st0 = "on_session r0 kick_current st" and ?st2 = "on_session r0 abort_subs (on_session r0 kick_current st)"
    have w: "store_wf ?st0" "store_wf ?st2" using assms(1) by (simp_all add: store_wf_on_session safe_methods)
    have "sub_filters ?st2 \<subseteq> sub_filters st"
      using sub_filters_quiet(1) [OF assms(1), of r0] sub_filters_quiet(2) [OF w(1), of r0] by blast
    moreover have w3: "store_wf (discard_paths qp sp ?st2)" for qp sp using w by simp
    moreover have "sub_filters st3 \<subseteq> sub_filters ?st2"
      if "alloc (SessionState_new fs cid n g None None) (discard_paths qp sp ?st2) = (r', st3)" for fs n g qp sp r' st3
      using sub_filters_alloc [OF w3 that filters_of_changes(5)] by simp
    ultimately show ?thesis
      using l Some by (fastforce simp: attach_lookup_def Let_def split: prod.splits if_splits)
  qed
  obtain ep backlog s' e' where a: "attach_conn who tx k (s, st_env st1) = ((ep, backlog), s', e')"
    by (metis prod_cases3 surj_pair)
  have "sub_filters (with_session r s' st1) \<subseteq> sub_filters st1"
    using sub_filters_with [OF wf, of r s'] filters_of_methods(4) [OF a] sub_filters_session [OF s] by auto
  moreover have "st' = (with_session r s' st1)\<lparr>st_env := e'\<rparr>" using assms(2) by (simp add: attach_def l s a)
  ultimately show ?thesis using 1 by auto
qed

lemma sub_filters_sweep:
  assumes "store_wf st"
  shows "sub_filters (sweep now expiry st) \<subseteq> sub_filters st"
proof -
  have fold: "store_wf st' \<Longrightarrow> sub_filters (foldl sweep_one st' rs) \<subseteq> sub_filters st'" for st' rs
  proof (induction rs arbitrary: st')
    case (Cons r rs)
    with sub_filters_quiet(5) [OF Cons.prems, of r] Cons.IH [OF sweep_one_wf [OF Cons.prems, of r]] show ?case by auto
  qed simp
  have "store_wf (st\<lparr>st_registry := (st_registry st)\<lparr>sessions :=
      hm_retain (\<lambda>_ r. \<not> ref_expired now expiry st r) (sessions (st_registry st))\<rparr>\<rparr>)"
    using store_wf_maps [OF assms]
    by (intro store_wf_forget [OF assms]) (auto simp: hm_get_retain split: option.splits if_splits)
  from fold [OF this] show ?thesis by (simp add: sweep_def Let_def)
qed

section \<open>A broker in order\<close>

definition granted_somebody :: "Acl \<Rightarrow> string set" where
  "granted_somebody acl = {f. \<exists>who. may_subscribe acl who f}"

definition broker_ok :: "('c, 'l) extern \<Rightarrow> ('c, 'l) Broker \<Rightarrow> bool" where
  "broker_ok x b \<longleftrightarrow>
     store_wf (b_store b) \<and> rs_wf (b_retained b)
   \<and> (match_cache (x_cache x) \<longrightarrow> coherent (x_cache x) (b_retained b))
   \<and> sub_filters (b_store b) \<subseteq> granted_somebody (b_acl b)"

lemma broker_ok_store:
  assumes "broker_ok x b" and "store_wf st" and "sub_filters st \<subseteq> sub_filters (b_store b) \<union> granted_somebody (b_acl b)"
  shows "broker_ok x (b\<lparr>b_store := st\<rparr>)"
  using assms by (auto simp: broker_ok_def)

lemma broker_ok_session:
  assumes "broker_ok x b" and "hm_get (st_heap (b_store b)) r = Some s"
    and "session_inv s'" and "client_id s' = client_id s" and "filters_of s' = filters_of s"
  shows "broker_ok x (b\<lparr>b_store := with_session r s' (b_store b)\<rparr>)"
proof -
  have wf: "store_wf (b_store b)" using assms(1) by (simp add: broker_ok_def)
  show ?thesis
    using sub_filters_with [OF wf, of r s'] sub_filters_session [OF assms(2)] assms(5)
    by (intro broker_ok_store [OF assms(1) store_wf_update [OF wf assms(2-4)]]) auto
qed

lemma look_up_map: "rs_map (snd (matching_cached api f rs)) = rs_map rs"
  by (auto simp: matching_cached_def matching_def split: option.split)

interpretation sound: broker_invariant x "broker_ok x" for x :: "('c, 'l) extern"
proof unfold_locales
  fix b :: "('c, 'l) Broker" and c
  assume "broker_ok x b"
  then show "broker_ok x (count c b)" by (simp add: broker_ok_def count_def Let_def)
next
  fix b :: "('c, 'l) Broker" and f ms rs
  assume b: "broker_ok x b" and m: "matching_cached (x_cache x) f (b_retained b) = (ms, rs)"
  have "rs_map rs = rs_map (b_retained b)" using look_up_map [of "x_cache x" f "b_retained b"] m by simp
  moreover have "coherent (x_cache x) rs" if "match_cache (x_cache x)" "coherent (x_cache x) (b_retained b)"
    using match_cache.coherent_matching_cached [OF that, of f] m by simp
  ultimately show "broker_ok x (b\<lparr>b_retained := rs\<rparr>)" using b by (simp add: broker_ok_def rs_wf_def)
next
  fix b :: "('c, 'l) Broker" and r s n s'
  assume b: "broker_ok x b" and s: "hm_get (st_heap (b_store b)) r = Some s" and n: "next_pkid s = (n, s')"
  have "session_inv s" using b store_wf_session s by (auto simp: broker_ok_def)
  then show "broker_ok x (b\<lparr>b_store := with_session r s' (b_store b)\<rparr>)"
    using broker_ok_session [OF b s] pkid_inv [OF _ n] books_methods(2) [OF n] filters_of_methods(1) [OF n]
    by (simp add: same_config_def)
next
  fix b :: "('c, 'l) Broker" and r s why s'
  assume b: "broker_ok x b" and s: "hm_get (st_heap (b_store b)) r = Some s" and n: "take_kick_reason s = (why, s')"
  have "session_inv s" using b store_wf_session s by (auto simp: broker_ok_def)
  then show "broker_ok x (b\<lparr>b_store := with_session r s' (b_store b)\<rparr>)"
    using broker_ok_session [OF b s] subs_inv(4) [OF _ n] books_methods(5) [OF n] filters_of_methods(2) [OF n]
    by (simp add: same_config_def)
next
  fix b :: "('c, 'l) Broker" and who f scope decl r q res st
  assume b: "broker_ok x b" and m: "may_subscribe (b_acl b) who f"
    and a: "activate_subscription scope decl r f q (b_store b) = (res, st)"
  have wf: "store_wf (b_store b)" using b by (simp add: broker_ok_def)
  have "store_wf st" using activate_wf [OF wf, of scope decl r f q] a by simp
  with sub_filters_activate [OF wf a] m show "broker_ok x (b\<lparr>b_store := st\<rparr>)"
    by (intro broker_ok_store [OF b]) (auto simp: granted_somebody_def)
next
  fix b :: "('c, 'l) Broker" and r f
  assume b: "broker_ok x b"
  then have wf: "store_wf (b_store b)" by (simp add: broker_ok_def)
  show "broker_ok x (b\<lparr>b_store := on_session r (remove_sub f) (b_store b)\<rparr>)"
    using sub_filters_quiet(3) [OF wf, of r f]
    by (intro broker_ok_store [OF b]) (auto simp: store_wf_on_session wf safe_methods)
next
  fix b :: "('c, 'l) Broker" and cid who clean tx k out st
  assume b: "broker_ok x b" and a: "attach cid who clean tx k (b_store b) = (out, st)"
  then have wf: "store_wf (b_store b)" by (simp add: broker_ok_def)
  show "broker_ok x (b\<lparr>b_store := st\<rparr>)"
    using sub_filters_attach [OF wf a] attach_wf [OF wf a] by (intro broker_ok_store [OF b]) auto
next
  fix b :: "('c, 'l) Broker" and now r ep clean
  assume b: "broker_ok x b"
  then have wf: "store_wf (b_store b)" by (simp add: broker_ok_def)
  show "broker_ok x (b\<lparr>b_store := detach now r ep clean (b_store b)\<rparr>)"
    using sub_filters_detach [OF wf, of now r ep clean] by (intro broker_ok_store [OF b]) (auto simp: detach_wf wf)
qed (simp_all add: broker_ok_def)

end
