(* ===== verification/Connection_Quiet.thy ===== *)
theory Connection_Quiet
  imports Broker_Invariant
begin

text \<open>
  What the events of one open connection leave alone on the broker they share with the others:
  which connection every session is attached to and under which epoch, the registered
  sessions, the kicks sent and the connection count. \<open>quiet_from\<close> is the second interpretation of
  the interface \<open>broker_quiet\<close>. Then the type of the packets a connection sends: a PUBLISH
  carries a packet identifier exactly when its level needs one, and no packet of level 2
  leaves the node.
\<close>

section \<open>What an event leaves alone\<close>

text \<open>The part of a session that only attaching, detaching and evicting change.\<close>

definition core :: "SessionState \<Rightarrow> u64 \<times> nat option \<times> nat option \<times> string \<times> nat" where
  "core s = (epoch (inner s), sink (inner s), kick (inner s), client_id s, max_queue s)"

definition cores :: "store \<Rightarrow> nat \<Rightarrow> (u64 \<times> nat option \<times> nat option \<times> string \<times> nat) option" where
  "cores st r = map_option core (hm_get (st_heap st) r)"

definition store_quiet :: "store \<Rightarrow> store \<Rightarrow> bool" where
  "store_quiet st0 st \<longleftrightarrow>
     hm_wf (st_heap st) \<and> cores st = cores st0 \<and> sessions (st_registry st) = sessions (st_registry st0)
   \<and> env_notified (st_env st) = env_notified (st_env st0)"

definition quiet_from :: "('c, 'l) Broker \<Rightarrow> ('c, 'l) Broker \<Rightarrow> bool" where
  "quiet_from b0 b \<longleftrightarrow> store_quiet (b_store b0) (b_store b) \<and> b_conn_count b = b_conn_count b0"

lemma core_methods:
  "next_pkid s = (n, s') \<Longrightarrow> core s' = core s"
  "take_kick_reason s = (why, s') \<Longrightarrow> core s' = core s"
  "core (fst (insert_sub f q task (s, e))) = core s"
  "core (fst (remove_sub f (s, e))) = core s"
  "core (fst (abort_subs (s, e))) = core s"
  "core (fst (kick_current (s, e))) = core s"
  by (auto simp: core_def next_pkid_def take_kick_reason_def insert_sub_def remove_sub_def abort_subs_def kick_current_def
      Let_def split: prod.splits option.splits)

lemma abort_task_notified [simp]: "env_notified (abort_task t e) = env_notified e"
  by (simp add: abort_task_def)

lemma discard_notified [simp]:
  "env_notified (discard_file p e) = env_notified e" "env_notified (discard_state_files s e) = env_notified e"
  "env_notified (discard_queue_file s e) = env_notified e" "env_notified (persist_subs s e) = env_notified e"
  "env_notified (persist_queue s e) = env_notified e"
  by (simp_all add: discard_file_def discard_state_files_def discard_subs_file_def discard_queue_file_def
      persist_subs_def persist_queue_def split: option.split)

lemma notified_methods:
  "env_notified (snd (insert_sub f q task (s, e))) = env_notified e"
  "env_notified (snd (remove_sub f (s, e))) = env_notified e"
  "env_notified (snd (abort_subs (s, e))) = env_notified e"
proof -
  have "env_notified (foldl (\<lambda>e (_, entry). abort_task (sub_task entry) e) e l) = env_notified e" for l :: "(string \<times> SubEntry) list"
    by (induction l arbitrary: e) auto
  then show "env_notified (snd (abort_subs (s, e))) = env_notified e" by (simp add: abort_subs_def)
qed (simp_all add: insert_sub_def remove_sub_def Let_def split: option.split)

lemma store_quiet_refl: "hm_wf (st_heap st) \<Longrightarrow> store_quiet st st"
  by (simp add: store_quiet_def)

lemma store_quiet_trans: "store_quiet st0 st1 \<Longrightarrow> store_quiet st1 st2 \<Longrightarrow> store_quiet st0 st2"
  by (simp add: store_quiet_def)

lemma store_quiet_with:
  assumes "store_quiet st0 st" and "hm_get (st_heap st) r = Some s" and "core s' = core s"
  shows "store_quiet st0 (with_session r s' st)"
proof -
  have "hm_wf (st_heap st)" using assms(1) by (simp add: store_quiet_def)
  then have "cores (with_session r s' st) r' = cores st r'" for r'
    using assms(2,3) by (auto simp: cores_def)
  then have "cores (with_session r s' st) = cores st" by (rule ext)
  with assms(1) show ?thesis by (simp add: store_quiet_def)
qed

lemma store_quiet_env:
  "store_quiet st0 st \<Longrightarrow> env_notified e = env_notified (st_env st) \<Longrightarrow> store_quiet st0 (st\<lparr>st_env := e\<rparr>)"
  by (simp add: store_quiet_def cores_def fun_eq_iff)

lemma store_quiet_next: "store_quiet st0 st \<Longrightarrow> store_quiet st0 (st\<lparr>st_next := n\<rparr>)"
  by (simp add: store_quiet_def cores_def fun_eq_iff)

lemma store_quiet_on_session:
  assumes "store_quiet st0 st" and "\<And>s e. core (fst (f (s, e))) = core s"
    and "\<And>s e. env_notified (snd (f (s, e))) = env_notified e"
  shows "store_quiet st0 (on_session r f st)"
proof (cases "hm_get (st_heap st) r")
  case (Some s)
  obtain s' e' where f: "f (s, st_env st) = (s', e')" by fastforce
  have "store_quiet st0 (with_session r s' st)" using store_quiet_with [OF assms(1) Some] assms(2) [of s "st_env st"] f by simp
  then have "store_quiet st0 ((with_session r s' st)\<lparr>st_env := e'\<rparr>)"
    using assms(3) [of s "st_env st"] f by (intro store_quiet_env) simp_all
  then show ?thesis by (simp add: on_session_def Some f)
qed (simp add: on_session_def assms(1))

interpretation quiet: broker_quiet x "quiet_from b0" for x :: "('c, 'l) extern" and b0 :: "('c, 'l) Broker"
proof unfold_locales
  fix b c assume "quiet_from b0 (b :: ('c, 'l) Broker)"
  then show "quiet_from b0 (count c b)" by (simp add: quiet_from_def count_def Let_def store_quiet_env)
next
  fix b :: "('c, 'l) Broker" and who f scope decl r q res st
  assume b: "quiet_from b0 b" and "activate_subscription scope decl r f q (b_store b) = (res, st)"
  then have "st = b_store b \<or> st = on_session r (insert_sub f q (st_next (b_store b))) ((b_store b)\<lparr>st_next := Suc (st_next (b_store b))\<rparr>)"
    by (auto simp: activate_subscription_def split: sum.splits if_splits)
  with b show "quiet_from b0 (b\<lparr>b_store := st\<rparr>)"
    by (auto simp: quiet_from_def core_methods notified_methods intro!: store_quiet_on_session store_quiet_next)
qed (auto simp: quiet_from_def core_methods notified_methods intro: store_quiet_with store_quiet_on_session)

section \<open>The type of outgoing packets\<close>

definition packet_typed :: "Packet \<Rightarrow> bool" where
  "packet_typed p \<longleftrightarrow> encodable p \<and>
     (case p of
        PPublish pb \<Rightarrow> p_qos pb \<noteq> ExactlyOnce \<and> (p_pkid pb = 0 \<longleftrightarrow> p_qos pb = AtMostOnce)
      | _ \<Rightarrow> True)"

lemma packet_typed_simps [simp]:
  "packet_typed (PConnAck code b)" "packet_typed (PPubAck n)" "packet_typed (PPubRec n)" "packet_typed (PPubComp n)"
  "packet_typed (PSubAck n cs)" "packet_typed (PUnsubAck n)" "packet_typed PPingResp"
  "packet_typed (PPublish pb) \<longleftrightarrow> p_qos pb \<noteq> ExactlyOnce \<and> (p_pkid pb = 0 \<longleftrightarrow> p_qos pb = AtMostOnce)"
  by (simp_all add: packet_typed_def)

text \<open>One connection state follows another by sending typed packets.\<close>

definition out_typed :: "('c, 'l) conn \<Rightarrow> ('c, 'l) conn \<Rightarrow> bool" where
  "out_typed cn cn' \<longleftrightarrow> (\<exists>ps. cn_out cn' = cn_out cn @ ps \<and> list_all packet_typed ps)"

definition has_session :: "('c, 'l) conn \<Rightarrow> bool" where
  "has_session cn \<longleftrightarrow>
     hm_wf (st_heap (b_store (cn_broker cn))) \<and> hm_get (st_heap (b_store (cn_broker cn))) (cl_session (cn_client cn)) \<noteq> None"

lemma out_typed_same: "cn_out cn' = cn_out cn \<Longrightarrow> out_typed cn cn'"
  by (simp add: out_typed_def)

lemma out_typed_trans: "out_typed cn cn' \<Longrightarrow> out_typed cn' cn'' \<Longrightarrow> out_typed cn cn''"
  unfolding out_typed_def by (metis append_assoc list_all_append)

lemma has_session_keep:
  assumes "has_session cn" and "quiet_from (cn_broker cn) (cn_broker cn')" and "cl_session (cn_client cn') = cl_session (cn_client cn)"
  shows "has_session cn'"
proof -
  from assms(2) have "cores (b_store (cn_broker cn')) (cl_session (cn_client cn)) = cores (b_store (cn_broker cn)) (cl_session (cn_client cn))"
    by (simp add: quiet_from_def store_quiet_def)
  then have "hm_get (st_heap (b_store (cn_broker cn'))) (cl_session (cn_client cn)) \<noteq> None"
    using assms(1) by (cases "hm_get (st_heap (b_store (cn_broker cn'))) (cl_session (cn_client cn))")
      (auto simp: cores_def has_session_def)
  moreover have "hm_wf (st_heap (b_store (cn_broker cn')))" using assms(2) by (simp add: quiet_from_def store_quiet_def)
  ultimately show ?thesis using assms(3) by (simp add: has_session_def)
qed

lemma quiet_self: "has_session cn \<Longrightarrow> quiet_from (cn_broker cn) (cn_broker cn)"
  by (simp add: quiet_from_def store_quiet_refl has_session_def)

lemma adds_session: "adds cn cn' \<Longrightarrow> cl_session (cn_client cn') = cl_session (cn_client cn)"
  by (simp add: adds_def)

lemma send_typed: "packet_typed p \<Longrightarrow> send p cn = (r, cn') \<Longrightarrow> out_typed cn cn'"
  by (auto simp: send_def out_typed_def split: if_splits)

lemma on_broker_out [simp]: "cn_out (on_broker f cn) = cn_out cn" "cn_client (on_broker f cn) = cn_client cn"
  by (simp_all add: on_broker_def)

lemma client_pkid_typed:
  assumes "has_session cn" and "client_next_pkid cn = (n, cn')"
  shows "n \<noteq> 0 \<and> cn_out cn' = cn_out cn \<and> has_session cn'"
proof -
  have "has_session cn'"
    using has_session_keep [OF assms(1) quiet.client_pkid_inv [OF quiet_self [OF assms(1)] assms(2)] adds_session [OF next_pkid_adds [OF assms(2)]]] .
  with assms show ?thesis
    by (auto simp: client_next_pkid_def next_pkid_def has_session_def Let_def draw_pkid_eq split: prod.splits if_splits)
qed

lemma acknowledge_typed: "acknowledge p cn = (r, cn') \<Longrightarrow> out_typed cn cn'"
  by (auto simp: acknowledge_def send_def out_typed_def split: QoS.splits if_splits)

lemma handle_publish_typed: "handle_publish x now p cn = (r, cn') \<Longrightarrow> out_typed cn cn'"
  by (auto simp: handle_publish_def Let_def out_typed_def split: prod.splits if_splits sum.splits bool.splits
      dest!: acknowledge_typed)

lemma subscribe_filter_typed:
  "subscribe_filter x f q cn = (code, cn') \<Longrightarrow> cn_out cn' = cn_out cn \<and> code \<noteq> SubSuccess ExactlyOnce"
  by (auto simp: subscribe_filter_def granted_qos_def Let_def split: sum.splits if_splits prod.splits QoS.splits)

lemma subscribe_all_typed:
  "subscribe_all x fs cn = (codes, cn') \<Longrightarrow> cn_out cn' = cn_out cn \<and> SubSuccess ExactlyOnce \<notin> set codes"
proof (induction fs arbitrary: cn codes cn')
  case (Cons a fs)
  then show ?case by (cases a) (fastforce split: prod.splits dest: subscribe_filter_typed)
qed simp

lemma try_each_typed:
  assumes "\<And>y cn r cn'. y \<in> set ys \<Longrightarrow> has_session cn \<Longrightarrow> f y cn = (r, cn') \<Longrightarrow> out_typed cn cn' \<and> has_session cn'"
  shows "has_session cn \<Longrightarrow> try_each f ys cn = (r, cn') \<Longrightarrow> out_typed cn cn' \<and> has_session cn'"
  using assms
proof (induction ys arbitrary: cn)
  case (Cons y ys)
  obtain r1 cn1 where y: "f y cn = (r1, cn1)" by fastforce
  with Cons.prems(1) Cons.prems(3) [of y cn r1 cn1] have 1: "out_typed cn cn1 \<and> has_session cn1" by simp
  show ?case
  proof (cases r1)
    case (Inr u)
    with Cons.prems(2) y have "try_each f ys cn1 = (r, cn')" by simp
    from Cons.IH [OF conjunct2 [OF 1] this] Cons.prems(3) have "out_typed cn1 cn' \<and> has_session cn'"
      by (meson list.set_intros(2))
    with 1 out_typed_trans show ?thesis by blast
  qed (use 1 Cons.prems(2) y in simp)
qed (simp add: out_typed_same)

lemma deliver_retained_one_typed:
  assumes "has_session cn" and "q \<noteq> ExactlyOnce" and "deliver_retained_one x now q entry cn = (r, cn')"
  shows "out_typed cn cn' \<and> has_session cn'"
proof -
  obtain t payload ts where e: "entry = (t, payload, ts)" by (cases entry)
  let ?p = "(Publish_new t q payload)\<lparr>p_retain := True\<rparr>"
  obtain n cn1 where n: "(if q \<noteq> AtMostOnce then client_next_pkid cn else (p_pkid ?p, cn)) = (n, cn1)" by fastforce
  then have 1: "cn_out cn1 = cn_out cn \<and> (n = 0 \<longleftrightarrow> q = AtMostOnce)"
    using client_pkid_typed [OF assms(1)] by (auto simp: Publish_new_def split: if_splits)
  obtain r2 cn2 where s: "send (PPublish (?p\<lparr>p_pkid := n\<rparr>)) cn1 = (r2, cn2)" by fastforce
  have "out_typed cn1 cn2" using 1 assms(2) by (intro send_typed [OF _ s]) (simp add: Publish_new_def)
  then have 2: "out_typed cn cn2" using 1 by (simp add: out_typed_def)
  have "cn' = cn2 \<or> cn' = on_broker (flag_if_stale x now t ts \<circ> count messages_out_total_update) cn2"
    using assms(3) n s by (auto simp: deliver_retained_one_def e Let_def split: sum.splits)
  with 2 have "out_typed cn cn'" by (auto simp: out_typed_def)
  moreover have "has_session cn'"
    using has_session_keep [OF assms(1) quiet.deliver_retained_one_inv [OF quiet_self [OF assms(1)] assms(3)]
        adds_session [OF deliver_retained_one_adds [OF assms(3)]]] .
  ultimately show ?thesis by blast
qed

lemma deliver_retained_typed:
  assumes "has_session cn" and "snd fq \<noteq> ExactlyOnce" and "deliver_retained x now fq cn = (r, cn')"
  shows "out_typed cn cn' \<and> has_session cn'"
proof -
  obtain f q where fq: "fq = (f, q)" by (cases fq)
  obtain ms rs where m: "matching_cached (x_cache x) f (b_retained (cn_broker cn)) = (ms, rs)" by fastforce
  let ?cn = "on_broker (\<lambda>b. b\<lparr>b_retained := rs\<rparr>) cn"
  have "has_session ?cn" using assms(1) by (simp add: has_session_def)
  moreover have "try_each (deliver_retained_one x now q) ms ?cn = (r, cn')"
    using assms(3) by (simp add: deliver_retained_def fq m)
  ultimately have "out_typed ?cn cn' \<and> has_session cn'"
    using try_each_typed deliver_retained_one_typed assms(2) fq by (metis snd_conv)
  then show ?thesis by (simp add: out_typed_def)
qed

lemma granted_filters_typed: "SubSuccess ExactlyOnce \<notin> set codes \<Longrightarrow> fq \<in> set (granted_filters fs codes) \<Longrightarrow> snd fq \<noteq> ExactlyOnce"
  by (auto simp: granted_filters_def List.map_filter_def dest!: set_zip_rightD split: SubscribeReasonCode.splits)

lemma handle_subscribe_typed:
  assumes "has_session cn" and "handle_subscribe x now n fs cn = (r, cn')"
  shows "out_typed cn cn'"
proof -
  obtain codes cn1 where 1: "subscribe_all x fs cn = (codes, cn1)" by fastforce
  obtain r2 cn2 where 2: "send (PSubAck n codes) cn1 = (r2, cn2)" by fastforce
  note t1 = subscribe_all_typed [OF 1]
  have o2: "out_typed cn cn2" using t1 send_typed [OF _ 2] by (simp add: out_typed_def)
  have "has_session cn1"
    using has_session_keep [OF assms(1) quiet.subscribe_all_inv [OF quiet_self [OF assms(1)] 1] adds_session [OF subscribe_all_adds [OF 1]]] .
  then have h2: "has_session cn2" using 2 by (auto simp: send_def has_session_def split: if_splits)
  show ?thesis
  proof (cases r2)
    case (Inr u)
    with assms(2) have "try_each (deliver_retained x now) (granted_filters fs codes) cn2 = (r, cn')"
      by (simp add: handle_subscribe_def 1 2)
    with try_each_typed [OF _ h2 this] deliver_retained_typed granted_filters_typed t1 have "out_typed cn2 cn'" by blast
    with o2 show ?thesis by (rule out_typed_trans)
  qed (use o2 assms(2) in \<open>simp add: handle_subscribe_def 1 2\<close>)
qed

lemma handle_unsubscribe_typed: "handle_unsubscribe x n ts cn = (r, cn') \<Longrightarrow> out_typed cn cn'"
proof -
  let ?f = "\<lambda>cn t. on_broker (\<lambda>b. publish_client_event x (cl_id (cn_client cn)) (''unsubscribe filter='' @ t)
               (b\<lparr>b_store := on_session (cl_session (cn_client cn)) (remove_sub t) (b_store b)\<rparr>)) cn"
  assume "handle_unsubscribe x n ts cn = (r, cn')"
  then have "out_typed (foldl ?f cn ts) cn'" by (intro send_typed [of "PUnsubAck n"]) (simp_all add: handle_unsubscribe_def)
  moreover have "cn_out (foldl ?f c ts) = cn_out c" for c by (induction ts arbitrary: c) simp_all
  ultimately show ?thesis by (simp add: out_typed_def)
qed

lemma or_break_typed: "(\<And>r cn'. y = (r, cn') \<Longrightarrow> out_typed cn cn') \<Longrightarrow> out_typed cn (snd (or_break y))"
  by (cases y) (auto simp: or_break_def split: sum.splits)

lemma run_event_typed:
  assumes "has_session cn" and "run_event x ne cn = (fl, cn')"
  shows "out_typed cn cn' \<and> has_session cn'"
proof -
  have send: "out_typed cn (snd (or_break (send q c)))" if "packet_typed q" "cn_out c = cn_out cn" for q c
    using that(2) send_typed [OF that(1), of c] by (intro or_break_typed) (simp add: out_typed_def)
  have packet: "out_typed cn (snd (handle_packet x now p cn))" for now p
    using send assms(1)
    by (cases p) (auto simp: handle_packet_def or_break_typed handle_publish_typed handle_subscribe_typed
        handle_unsubscribe_typed intro: out_typed_same)
  have reason: "take_reason cn = (why, c) \<Longrightarrow> out_typed cn c" for why c
    by (auto simp: take_reason_def Let_def intro: out_typed_same split: option.splits prod.splits)
  have "out_typed cn (snd (run_event x ne cn))"
    using packet reason by (auto simp: run_event_def out_typed_same split: prod.split event.split)
  moreover have "has_session cn'"
    using has_session_keep [OF assms(1) quiet.run_event_inv [OF quiet_self [OF assms(1)] assms(2)]]
      adds_session [OF run_event_adds [of cn x ne]] assms(2) by simp
  ultimately show ?thesis using assms(2) by simp
qed

lemma run_typed: "has_session cn \<Longrightarrow> run x nes cn = (r, cn') \<Longrightarrow> out_typed cn cn'"
proof (induction nes arbitrary: cn)
  case (Cons ne nes)
  obtain fl cn1 where 1: "run_event x ne cn = (fl, cn1)" by fastforce
  from run_event_typed [OF Cons.prems(1) 1] have t: "out_typed cn cn1" "has_session cn1" by auto
  from Cons.prems(2) 1 Cons.IH [OF t(2)] have "out_typed cn1 cn'" by (cases fl) (auto intro: out_typed_same)
  with t(1) show ?case by (rule out_typed_trans)
qed (simp add: out_typed_same)

lemma close_session_out: "cn_out (close_session x now clean ep r cn) = cn_out cn"
  by (simp add: close_session_def fire_will_def Let_def split: sum.split option.split)

lemma send_backlog_one_typed:
  assumes "has_session cn" and "send_backlog_one m cn = (r, cn')"
  shows "out_typed cn cn' \<and> has_session cn'"
proof -
  obtain t payload where m: "m = (t, payload)" by (cases m)
  obtain n cn1 where 1: "client_next_pkid cn = (n, cn1)" by fastforce
  obtain r2 cn2 where 2: "send (PPublish ((Publish_new t AtLeastOnce payload)\<lparr>p_pkid := n\<rparr>)) cn1 = (r2, cn2)" by fastforce
  note p = client_pkid_typed [OF assms(1) 1]
  have "out_typed cn1 cn2" using p by (intro send_typed [OF _ 2]) (simp add: Publish_new_def)
  moreover have "has_session cn2" using p 2 by (auto simp: send_def has_session_def split: if_splits)
  moreover have "cn' = cn2 \<or> cn' = on_broker (count messages_out_total_update) cn2"
    using assms(2) by (auto simp: send_backlog_one_def m 1 2 split: sum.splits)
  ultimately show ?thesis using p by (auto simp: out_typed_def has_session_def count_def Let_def)
qed

lemma attach_session:
  assumes "store_wf st" and "attach cid who clean tx k st = (out, st')"
  shows "\<exists>ao. out = Some ao \<and> hm_get (st_heap st') (ao_session ao) \<noteq> None"
proof -
  obtain r present st1 where l: "attach_lookup cid clean st = (r, present, st1)" by (metis prod_cases3)
  with attach_lookup_wf [OF assms(1) l] obtain s where
    "store_wf st1" and s: "hm_get (st_heap st1) r = Some s" by blast
  then have "hm_wf (st_heap st1)" using store_wf_maps by blast
  moreover obtain ep backlog s' e' where "attach_conn who tx k (s, st_env st1) = ((ep, backlog), s', e')"
    by (metis prod_cases3 surj_pair)
  ultimately show ?thesis using assms(2) by (auto simp: attach_def l s)
qed

lemma gate_store_wf: "connect_gate x now cert c b = (g, b') \<Longrightarrow> store_wf (b_store b) \<Longrightarrow> store_wf (b_store b')"
  by (auto simp: connect_gate_def count_def Let_def split: prod.splits bool.splits option.splits sum.splits)

text \<open>The result of opening a session.\<close>

lemma open_session_opened:
  assumes "store_wf (b_store b)" and "open_session x now peer tx k room who c b = (r, cn)"
    and n: "session_name (snd now) c = (cid, clean)"
    and a: "attach cid who clean tx k (b_store (count connections_total_update b)) = (out, st)"
  shows "\<exists>ao. out = Some ao \<and> cl_session (cn_client cn) = ao_session ao \<and> cl_id (cn_client cn) = cid
    \<and> (\<forall>ep. r = Inr ep \<longrightarrow> ep = ao_epoch ao) \<and> list_all packet_typed (cn_out cn) \<and> has_session cn"
proof -
  have wf: "store_wf (b_store (count connections_total_update b))"
    using assms(1) by (simp add: count_def Let_def)
  from attach_session [OF wf a] obtain ao where out: "out = Some ao" and h: "hm_get (st_heap st) (ao_session ao) \<noteq> None"
    by blast
  define cn0 where "cn0 = \<lparr>cn_client = \<lparr>cl_session = ao_session ao, cl_id = cid, cl_identity = who,
      cl_keep_alive = cp_keep_alive c, cl_will = cp_last_will c,
      cl_rate = RateLimiter_new (cfg_max_publish_rate (b_cfg b)) (fst now), cl_inflight = []\<rparr>,
      cn_broker = (count connections_total_update b)\<lparr>b_store := st\<rparr>, cn_out = [], cn_room = room\<rparr>"
  have h0: "has_session cn0"
    using h attach_wf [OF wf a] store_wf_maps by (simp add: has_session_def cn0_def)
  obtain r1 cn1 where 1: "send (PConnAck Success (ao_present ao)) cn0 = (r1, cn1)" by fastforce
  have h1: "has_session cn1 \<and> cn_client cn1 = cn_client cn0" and t1: "out_typed cn0 cn1"
    using h0 1 send_typed [OF _ 1] by (auto simp: send_def has_session_def split: if_splits)
  let ?cn2 = "on_broker (publish_client_event x cid (''connect addr='' @ peer @ '' clean='' @ show_bool clean)) cn1"
  obtain r3 cn3 where 3: "try_each send_backlog_one (ao_backlog ao) ?cn2 = (r3, cn3)" by fastforce
  have h2: "has_session ?cn2" using conjunct1 [OF h1] by (simp add: has_session_def publish_client_event_def)
  from try_each_typed [OF _ h2 3] send_backlog_one_typed have t3: "out_typed ?cn2 cn3 \<and> has_session cn3" by blast
  have c3: "adds ?cn2 cn3" by (rule try_each_adds [OF send_backlog_one_adds 3])
  have "(\<exists>e. r1 = Inl e) \<and> cn = cn1 \<and> (\<exists>e. r = Inl e)
      \<or> cn = cn3 \<and> (\<forall>ep. r = Inr ep \<longrightarrow> ep = ao_epoch ao)"
    using assms(2) n a out 1 3 by (cases r1; cases r3) (auto simp: open_session_def Let_def cn0_def)
  then show ?thesis
  proof
    assume "(\<exists>e. r1 = Inl e) \<and> cn = cn1 \<and> (\<exists>e. r = Inl e)"
    with h1 t1 out show ?thesis by (auto simp: out_typed_def cn0_def has_session_def)
  next
    assume "cn = cn3 \<and> (\<forall>ep. r = Inr ep \<longrightarrow> ep = ao_epoch ao)"
    with h1 t1 t3 c3 out show ?thesis by (auto simp: out_typed_def cn0_def adds_def)
  qed
qed

section \<open>Properties\<close>

text \<open>(C20) The packets a connection sends are well-typed MQTT: whatever the client sends and however the
  connection ends, on a broker whose sessions are in order, no packet goes out that the writer
  refuses, no PUBLISH has level 2, and a PUBLISH carries a packet identifier (never 0) exactly
  when its level is 1.\<close>

theorem outgoing_well_typed:
  assumes "store_wf (b_store b)" and "serve x now peer cert tx k room first events last_now b = sv"
  shows "list_all packet_typed (sv_out sv)"
proof (cases "\<exists>c. first = FirstPacket (PConnect c)")
  case True
  then obtain c where f: "first = FirstPacket (PConnect c)" by blast
  obtain g b1 where g: "connect_gate x now cert c b = (g, b1)" by fastforce
  show ?thesis
  proof (cases g)
    case (Refused code)
    with assms(2) f g show ?thesis by (auto simp: serve_def split: if_splits)
  next
    case (Granted who)
    have "store_wf (b_store b1)" using gate_store_wf [OF g assms(1)] .
    obtain r cn where o: "open_session x now peer tx k room who c b1 = (r, cn)" by fastforce
    obtain cid clean where n: "session_name (snd now) c = (cid, clean)" by fastforce
    obtain out st where a: "attach cid who clean tx k (b_store (count connections_total_update b1)) = (out, st)" by fastforce
    note op = open_session_opened [OF \<open>store_wf (b_store b1)\<close> o n a]
    obtain r2 cn2 where rn: "run x events cn = (r2, cn2)" by fastforce
    have t: "list_all packet_typed (cn_out cn)" "list_all packet_typed (cn_out cn2)"
      using op run_typed [OF _ rn] by (auto simp: out_typed_def)
    show ?thesis
    proof (cases r)
      case (Inl e)
      with assms(2) f g Granted o t show ?thesis by (auto simp: serve_def)
    next
      case (Inr ep)
      with assms(2) f g Granted o rn t show ?thesis
        by (cases r2) (auto simp: serve_def Let_def close_session_out)
    qed
  qed
next
  case False
  then have "sv_out sv = []" using assms(2) by (auto simp: serve_def split: first_read.splits Packet.splits)
  then show ?thesis by simp
qed

theorem outgoing_well_typed_witness:
  "list_all packet_typed (sv_out (serve demo_x (0, 0) ''p'' None 7 8 9 (FirstPacket (PConnect demo_connect))
     [((1, 1), Recv (PSubscribe 1 [(''a/#'', ExactlyOnce)]))] (3, 3) demo_broker))"
proof -
  have "store_wf (b_store demo_broker)" using store_init_wf by (simp add: demo_broker_def demo_store0_def)
  from outgoing_well_typed [OF this refl] show ?thesis .
qed

end
