(* ===== verification/Node.thy ===== *)
theory Node
  imports Broker_Invariant Http
begin

text \<open>
  \<open>crates/entmoot-node/src/lib.rs\<close>: how a node is put together and started. The configuration
  of the Zenoh session, the TLS acceptor and the identity in a client certificate, \<open>run\<close> with
  its listeners, stores and tasks (including \<open>retained::wire\<close>), and the connection count of
  \<open>spawn_client\<close> and \<open>ConnGuard\<close>.

  What the operating system and the libraries answer at startup is the record \<open>'z world\<close>: the
  Zenoh configuration object and whether the session opens, whether an address can be bound,
  what a file holds, and the parsers of \<open>rustls_pemfile\<close>, \<open>rustls\<close> and \<open>x509_parser\<close>.
\<close>

section \<open>Definitions\<close>

subsection \<open>Zenoh configuration\<close>

text \<open>\<open>format!("{s:?}")\<close>. Bytes from \<open>0x80\<close> on belong to characters outside ASCII, which are
  printed as they are when they are printable.\<close>

definition debug_char :: "char \<Rightarrow> string" where
  "debug_char c =
     (let n = of_char c :: nat in
      if c = CHR 0x22 then [CHR 0x5C, CHR 0x22]
      else if c = CHR 0x5C then [CHR 0x5C, CHR 0x5C]
      else if n = 9 then CHR 0x5C # ''t''
      else if n = 10 then CHR 0x5C # ''n''
      else if n = 13 then CHR 0x5C # ''r''
      else if n = 0 then CHR 0x5C # ''0''
      else if n < 16 then CHR 0x5C # ''u{'' @ [hex_digit n] @ ''}''
      else if n < 32 \<or> n = 127 then CHR 0x5C # ''u{'' @ [hex_digit (n div 16), hex_digit (n mod 16)] @ ''}''
      else [c])"

definition debug_str :: "string \<Rightarrow> string" where
  "debug_str s = CHR 0x22 # concat (map debug_char s) @ [CHR 0x22]"

definition to_json_array :: "string list \<Rightarrow> string" where
  "to_json_array items = ''['' @ join_with CHR '','' (map debug_str items) @ '']''"

definition zenoh_settings :: "NodeConfig \<Rightarrow> (string \<times> string) list" where
  "zenoh_settings cfg =
     [(''mode'', [CHR 0x22] @ ''peer'' @ [CHR 0x22]),
      (''scouting/multicast/enabled'', ''false''),
      (''listen/endpoints'', to_json_array (cfg_zenoh_listen cfg)),
      (''connect/endpoints'', to_json_array (cfg_peers cfg))]
     @ (case cfg_zenoh_link_mtu cfg of None \<Rightarrow> [] | Some mtu \<Rightarrow> [(''transport/link/tx/batch_size'', show_nat (unat mtu))])"

fun insert_all :: "(string \<Rightarrow> string \<Rightarrow> 'z \<Rightarrow> 'z option) \<Rightarrow> (string \<times> string) list \<Rightarrow> 'z \<Rightarrow> (string, 'z) result" where
  "insert_all ins [] zc = Inr zc"
| "insert_all ins ((key, val) # kvs) zc =
     (case ins key val zc of None \<Rightarrow> Inl key | Some zc \<Rightarrow> insert_all ins kvs zc)"

subsection \<open>TLS\<close>

record tls_api =
  tls_read :: "string \<Rightarrow> bytes option"
  tls_certs :: "bytes \<Rightarrow> bytes list option"
  tls_key :: "bytes \<Rightarrow> bytes option option"
  tls_versions :: bool
  tls_root :: "bytes \<Rightarrow> bool"
  tls_verifier :: "bytes list \<Rightarrow> bool"
  tls_single_cert :: "bytes list \<Rightarrow> bytes \<Rightarrow> bool"
  x509_names :: "bytes \<Rightarrow> string option list option"

datatype TlsError =
    OpeningFile string | ParsingCerts string | ParsingKey | NoKey string | NoVersions
  | BadRoot | BadVerifier | BadCertificate

text \<open>\<open>ta_client_roots\<close>: the roots a client certificate must come from; \<open>None\<close> accepts clients
  without one.\<close>

record TlsAcceptor =
  ta_certs :: "bytes list"
  ta_key :: bytes
  ta_client_roots :: "bytes list option"

definition load_pem_certs :: "tls_api \<Rightarrow> string \<Rightarrow> (TlsError, bytes list) result" where
  "load_pem_certs api path =
     (case tls_read api path of
        None \<Rightarrow> Inl (OpeningFile path)
      | Some data \<Rightarrow> (case tls_certs api data of None \<Rightarrow> Inl (ParsingCerts path) | Some cs \<Rightarrow> Inr cs))"

definition load_key :: "tls_api \<Rightarrow> string \<Rightarrow> (TlsError, bytes) result" where
  "load_key api path =
     (case tls_read api path of
        None \<Rightarrow> Inl (OpeningFile path)
      | Some data \<Rightarrow>
          (case tls_key api data of
             None \<Rightarrow> Inl ParsingKey
           | Some None \<Rightarrow> Inl (NoKey path)
           | Some (Some key) \<Rightarrow> Inr key))"

definition client_roots :: "tls_api \<Rightarrow> string option \<Rightarrow> (TlsError, bytes list option) result" where
  "client_roots api ca_file =
     (case ca_file of
        None \<Rightarrow> Inr None
      | Some path \<Rightarrow>
          (case load_pem_certs api path of
             Inl e \<Rightarrow> Inl e
           | Inr cs \<Rightarrow>
               if \<not> list_all (tls_root api) cs then Inl BadRoot
               else if \<not> tls_verifier api cs then Inl BadVerifier
               else Inr (Some cs)))"

definition tls_acceptor :: "tls_api \<Rightarrow> TlsConfig \<Rightarrow> (TlsError, TlsAcceptor) result" where
  "tls_acceptor api cfg =
     (case load_pem_certs api (tls_cert_file cfg) of
        Inl e \<Rightarrow> Inl e
      | Inr certs \<Rightarrow>
          (case load_key api (tls_key_file cfg) of
             Inl e \<Rightarrow> Inl e
           | Inr key \<Rightarrow>
               if \<not> tls_versions api then Inl NoVersions
               else
                 (case client_roots api (tls_client_ca_file cfg) of
                    Inl e \<Rightarrow> Inl e
                  | Inr roots \<Rightarrow>
                      if \<not> tls_single_cert api certs key then Inl BadCertificate
                      else Inr \<lparr>ta_certs = certs, ta_key = key, ta_client_roots = roots\<rparr>)))"

text \<open>The common name in the first certificate the peer presented, if there is one.\<close>

definition peer_cn :: "tls_api \<Rightarrow> bytes list option \<Rightarrow> string option" where
  "peer_cn api presented =
     (case presented of
        Some (der # _) \<Rightarrow> (case x509_names api der of Some (cn # _) \<Rightarrow> cn | _ \<Rightarrow> None)
      | _ \<Rightarrow> None)"

subsection \<open>Startup\<close>

record 'z world =
  w_config :: 'z
  w_insert :: "string \<Rightarrow> string \<Rightarrow> 'z \<Rightarrow> 'z option"
  w_open :: "'z \<Rightarrow> bool"
  w_bind :: "string \<Rightarrow> bool"
  w_tls :: tls_api
  w_mkdir :: "string \<Rightarrow> bool"
  w_subscriber :: "string \<Rightarrow> bool"
  w_queryable :: "string \<Rightarrow> bool"

datatype StartError =
    ZenohConfig string | ZenohOpen | Binding string | TlsSetup TlsError | CreatingDataDir string
  | RetainedSubscriber | RetainedQueryable

datatype Task =
    PersistRetained string | ReplicateRetained | ServeRetained | CatchUpRetained
  | ServeMetrics string | ServeHealth string | PublishSys u64 | SweepSessions u64
  | AcceptMqtt string | AcceptTls string

record ('c, 'l) node =
  nd_broker :: "('c, 'l) Broker"
  nd_tasks :: "Task list"
  nd_tls :: "TlsAcceptor option"

definition wire ::
    "'z world \<Rightarrow> fs \<Rightarrow> string \<Rightarrow> string option \<Rightarrow> 'c RetainedStore \<Rightarrow> (StartError, 'c RetainedStore \<times> Task list) result" where
  "wire w fs scope persist_path s =
     (let s = wire_restore fs persist_path s;
          tasks = (case persist_path of None \<Rightarrow> [] | Some path \<Rightarrow> [PersistRetained path])
      in if \<not> w_subscriber w (retained_filter scope) then Inl RetainedSubscriber
         else if \<not> w_queryable w (retained_filter scope) then Inl RetainedQueryable
         else Inr (s, tasks @ [ReplicateRetained, ServeRetained, CatchUpRetained]))"

definition start_tls :: "'z world \<Rightarrow> NodeConfig \<Rightarrow> (StartError, TlsAcceptor option) result" where
  "start_tls w cfg =
     (case cfg_tls cfg of
        None \<Rightarrow> Inr None
      | Some tls \<Rightarrow>
          (case tls_acceptor (w_tls w) tls of
             Inl e \<Rightarrow> Inl (TlsSetup e)
           | Inr acceptor \<Rightarrow> if w_bind w (tls_listen tls) then Inr (Some acceptor) else Inl (Binding (tls_listen tls))))"

definition bind_optional :: "'z world \<Rightarrow> string option \<Rightarrow> (StartError, unit) result" where
  "bind_optional w addr =
     (case addr of None \<Rightarrow> Inr () | Some a \<Rightarrow> if w_bind w a then Inr () else Inl (Binding a))"

definition make_data_dir :: "'z world \<Rightarrow> string option \<Rightarrow> (StartError, unit) result" where
  "make_data_dir w dir =
     (case dir of None \<Rightarrow> Inr () | Some d \<Rightarrow> if w_mkdir w d then Inr () else Inl (CreatingDataDir d))"

definition Broker_new ::
    "('c, 'l) extern \<Rightarrow> fs \<Rightarrow> NodeConfig \<Rightarrow> 'c RetainedStore \<Rightarrow> ('c, 'l) Broker" where
  "Broker_new x fs cfg rs =
     \<lparr>b_cfg = cfg, b_auth = Authenticator_new (cfg_auth cfg),
      b_acl = Acl_new (cfg_acl cfg) (auth_default_policy (cfg_auth cfg)),
      b_retained = rs,
      b_store =
        \<lparr>st_registry =
           SessionRegistry_new (cfg_max_queued_per_session cfg)
             (if cfg_slow_consumer_grace_ms cfg > 0 then Some (unat (cfg_slow_consumer_grace_ms cfg) * 10 ^ 6) else None)
             (map_option (\<lambda>d. path_join d ''session-queues'') (cfg_data_dir cfg)),
         st_heap = [], st_next = 0,
         st_env = \<lparr>env_fs = fs, env_notified = [], env_aborted = [], env_metrics = Metrics_default\<rparr>\<rparr>,
      b_admission = ConnectAdmission_new (x_governor x) (cfg_connect_admission_rate cfg) (cfg_connect_admission_burst cfg),
      b_staleness = StalenessPolicy_new (cfg_staleness cfg) (cfg_retained_staleness_secs cfg),
      b_conn_count = 0, b_bus = []\<rparr>"

definition node_tasks :: "NodeConfig \<Rightarrow> Task list" where
  "node_tasks cfg =
     (case cfg_metrics_listen cfg of None \<Rightarrow> [] | Some a \<Rightarrow> [ServeMetrics a])
     @ (case cfg_health_listen cfg of None \<Rightarrow> [] | Some a \<Rightarrow> [ServeHealth a])
     @ (if cfg_sys_interval_secs cfg > 0 then [PublishSys (cfg_sys_interval_secs cfg)] else [])
     @ (if cfg_session_expiry_secs cfg > 0 then [SweepSessions (cfg_session_expiry_secs cfg)] else [])
     @ [AcceptMqtt (cfg_mqtt_listen cfg)]
     @ (case cfg_tls cfg of None \<Rightarrow> [] | Some tls \<Rightarrow> [AcceptTls (tls_listen tls)])"

text \<open>\<open>run\<close>; a failed rehydration is logged and the node starts without the stored sessions.\<close>

definition run_node ::
    "('c, 'l) extern \<Rightarrow> 'z world \<Rightarrow> qos_parser \<Rightarrow> fs \<Rightarrow> NodeConfig \<Rightarrow> (StartError, ('c, 'l) node) result" where
  "run_node x w qos fs cfg =
     (case insert_all (w_insert w) (zenoh_settings cfg) (w_config w) of
        Inl key \<Rightarrow> Inl (ZenohConfig key)
      | Inr zc \<Rightarrow>
          if \<not> w_open w zc then Inl ZenohOpen
          else if \<not> w_bind w (cfg_mqtt_listen cfg) then Inl (Binding (cfg_mqtt_listen cfg))
          else
            (case start_tls w cfg of
               Inl e \<Rightarrow> Inl e
             | Inr tls \<Rightarrow>
                 (case bind_optional w (cfg_metrics_listen cfg) of
                    Inl e \<Rightarrow> Inl e
                  | Inr _ \<Rightarrow>
                      (case bind_optional w (cfg_health_listen cfg) of
                         Inl e \<Rightarrow> Inl e
                       | Inr _ \<Rightarrow>
                           (case make_data_dir w (cfg_data_dir cfg) of
                              Inl e \<Rightarrow> Inl e
                            | Inr _ \<Rightarrow>
                                (case wire w fs (cfg_scope cfg)
                                        (map_option (\<lambda>d. path_join d ''retained.dat'') (cfg_data_dir cfg))
                                        (RetainedStore_default (x_cache x)) of
                                   Inl e \<Rightarrow> Inl e
                                 | Inr (rs, tasks) \<Rightarrow>
                                     (let b = Broker_new x fs cfg rs;
                                          st = snd (rehydrate qos (b_acl b) (cfg_scope cfg) (x_declare x) (b_store b))
                                      in Inr \<lparr>nd_broker = b\<lparr>b_store := st\<rparr>, nd_tasks = tasks @ node_tasks cfg, nd_tls = tls\<rparr>)))))))"

subsection \<open>The connection count\<close>

text \<open>\<open>spawn_client\<close> adds one to the shared counter and compares what it was; the guard takes one
  off when it is dropped, at once for a rejected connection and at the end of the task for a
  served one. The two accept loops run \<open>spawn_client\<close> concurrently, so that any of these
  atomic steps may come between the addition and the drop.\<close>

record conns =
  cc_count :: u64
  cc_serving :: "nat list"
  cc_rejected :: "nat list"

definition spawn_client :: "nat \<Rightarrow> nat \<Rightarrow> conns \<Rightarrow> conns" where
  "spawn_client max_connections c s =
     (let n = cc_count s + 1;
          s = s\<lparr>cc_count := n\<rparr>
      in if unat n > max_connections then s\<lparr>cc_rejected := c # cc_rejected s\<rparr>
         else s\<lparr>cc_serving := c # cc_serving s\<rparr>)"

definition drop_rejected :: "nat \<Rightarrow> conns \<Rightarrow> conns" where
  "drop_rejected c s =
     (if c \<in> set (cc_rejected s) then s\<lparr>cc_count := cc_count s - 1, cc_rejected := remove1 c (cc_rejected s)\<rparr> else s)"

definition end_client :: "nat \<Rightarrow> conns \<Rightarrow> conns" where
  "end_client c s =
     (if c \<in> set (cc_serving s) then s\<lparr>cc_count := cc_count s - 1, cc_serving := remove1 c (cc_serving s)\<rparr> else s)"

text \<open>\<open>BrokerHandle::shutdown\<close>: the tasks of the handle are aborted and the session is closed. The tasks
  of the connections are not among them.\<close>

datatype shutdown_action = AbortTask Task | CloseSession

definition shutdown :: "('c, 'l) node \<Rightarrow> shutdown_action list" where
  "shutdown nd = map AbortTask (nd_tasks nd) @ [CloseSession]"

end
