(* ===== verification/Node_Safety.thy ===== *)
theory Node_Safety
  imports Node
begin

text \<open>
  Properties of a whole node: what starting it guarantees, the connection limit under
  concurrent accepts, the endpoints it hands to Zenoh, and the invariant of its broker over
  every sequence of connections, deliveries, sweeps, replication and statistics.
\<close>

section \<open>The connection limit\<close>

text \<open>Each connection counted holds a task or a stream, so there are fewer than \<open>2^64 - 1\<close>.\<close>

inductive conn_step :: "nat \<Rightarrow> conns \<Rightarrow> conns \<Rightarrow> bool" for max_connections where
  arrival: "length (cc_serving s) + length (cc_rejected s) < 2 ^ 64 - 1 \<Longrightarrow>
    conn_step max_connections s (spawn_client max_connections c s)"
| rejection: "conn_step max_connections s (drop_rejected c s)"
| departure: "conn_step max_connections s (end_client c s)"

definition no_conns :: conns where
  "no_conns = \<lparr>cc_count = 0, cc_serving = [], cc_rejected = []\<rparr>"

definition conns_inv :: "nat \<Rightarrow> conns \<Rightarrow> bool" where
  "conns_inv max_connections s \<longleftrightarrow>
     unat (cc_count s) = length (cc_serving s) + length (cc_rejected s) \<and> length (cc_serving s) \<le> max_connections"

lemma unat_count_down: "unat (n :: u64) = Suc k \<Longrightarrow> unat (n - 1) = k"
  by (metis diff_Suc_1 unat_gt_0 unat_minus_one zero_less_Suc unat_0 less_irrefl)

lemma length_remove1_Suc: "c \<in> set xs \<Longrightarrow> length xs = Suc (length (remove1 c xs))"
  by (metis One_nat_def Suc_pred length_pos_if_in_set length_remove1)

interpretation limit: transition_system "\<lambda>s. s = no_conns" "conn_step m" "conns_inv m" for m
proof unfold_locales
  fix s assume "s = no_conns"
  then show "conns_inv m s" by (simp add: conns_inv_def no_conns_def)
next
  fix s t assume i: "conns_inv m s" and "conn_step m s t"
  from this(2) show "conns_inv m t"
  proof cases
    case (arrival c)
    then have "unat (cc_count s + 1) = Suc (unat (cc_count s))"
      using i by (simp add: conns_inv_def unat_word_ariths)
    with i arrival(1) show ?thesis by (auto simp: spawn_client_def conns_inv_def Let_def)
  next
    case (rejection c)
    with i unat_count_down [of "cc_count s"] length_remove1_Suc [of c "cc_rejected s"]
    show ?thesis by (auto simp: drop_rejected_def conns_inv_def)
  next
    case (departure c)
    with i unat_count_down [of "cc_count s"] length_remove1_Suc [of c "cc_serving s"]
    show ?thesis by (auto simp: end_client_def conns_inv_def)
  qed
qed

section \<open>Endpoints\<close>

text \<open>A reader of JSON arrays of strings.\<close>

definition unescape :: "char \<Rightarrow> char option" where
  "unescape c =
     (if c = CHR 0x22 \<or> c = CHR 0x5C \<or> c = CHR ''/'' then Some c
      else if c = CHR ''n'' then Some NL
      else if c = CHR ''r'' then Some CR
      else if c = CHR ''t'' then Some CHR 0x09
      else if c = CHR ''0'' then Some CHR 0x00
      else None)"

fun json_string :: "string \<Rightarrow> (string \<times> string) option" where
  "json_string [] = None"
| "json_string (c # s) =
     (if c = CHR 0x22 then Some ([], s)
      else if c = CHR 0x5C then
        (case s of
           [] \<Rightarrow> None
         | e # s' \<Rightarrow>
             (case unescape e of
                None \<Rightarrow> None
              | Some d \<Rightarrow> map_option (\<lambda>(r, t). (d # r, t)) (json_string s')))
      else map_option (\<lambda>(r, t). (c # r, t)) (json_string s))"

lemma json_string_shorter: "json_string s = Some (r, t) \<Longrightarrow> length t < length s"
proof (induction s arbitrary: r t rule: json_string.induct)
  case (2 c s)
  then show ?case by (fastforce split: if_splits list.splits option.splits)
qed simp

function json_items :: "string \<Rightarrow> string list option" where
  "json_items s =
     (case s of
        q # s' \<Rightarrow>
          if q \<noteq> CHR 0x22 then None
          else
            (case json_string s' of
               Some (x, d # t) \<Rightarrow>
                 if d = CHR '','' then map_option ((#) x) (json_items t)
                 else if d = CHR '']'' \<and> t = [] then Some [x] else None
             | _ \<Rightarrow> None)
      | [] \<Rightarrow> None)"
  by pat_completeness auto
termination
  by (relation "measure length") (auto dest: json_string_shorter)

declare json_items.simps [simp del]

definition json_array :: "string \<Rightarrow> string list option" where
  "json_array s = (case s of q # t \<Rightarrow> if q \<noteq> CHR ''['' then None else if t = '']'' then Some [] else json_items t | [] \<Rightarrow> None)"

text \<open>No control character that \<open>{:?}\<close> prints as \<open>u{..}\<close>, which is no JSON escape.\<close>

definition plain_text :: "string \<Rightarrow> bool" where
  "plain_text s \<longleftrightarrow> (\<forall>c\<in>set s. c \<in> {CHR 0x00, CHR 0x09, NL, CR} \<or> 32 \<le> (of_char c :: nat) \<and> (of_char c :: nat) \<noteq> 127)"

lemma json_string_debug_char:
  assumes "c \<in> {CHR 0x00, CHR 0x09, NL, CR} \<or> 32 \<le> (of_char c :: nat) \<and> (of_char c :: nat) \<noteq> 127"
  shows "json_string (debug_char c @ s) = map_option (\<lambda>(r, t). (c # r, t)) (json_string s)"
  using assms by (auto simp: debug_char_def unescape_def Let_def)

lemma json_string_debug: "plain_text s \<Longrightarrow> json_string (concat (map debug_char s) @ CHR 0x22 # t) = Some (s, t)"
  by (induction s) (auto simp: plain_text_def json_string_debug_char)

lemma json_items_debug:
  "\<forall>s\<in>set (x # xs). plain_text s \<Longrightarrow> json_items (join_with CHR '','' (map debug_str (x # xs)) @ '']'') = Some (x # xs)"
proof (induction xs arbitrary: x)
  case Nil
  then show ?case by (simp add: json_items.simps debug_str_def json_string_debug)
next
  case (Cons y ys)
  then show ?case
    by (simp add: json_items.simps [of "CHR 0x22 # s" for s] debug_str_def [of x] json_string_debug)
qed

section \<open>Startup\<close>

lemma run_node_Inr:
  assumes "run_node x w qos fs cfg = Inr nd"
  obtains zc tls rs tasks where
    "insert_all (w_insert w) (zenoh_settings cfg) (w_config w) = Inr zc" "start_tls w cfg = Inr tls"
    "wire w fs (cfg_scope cfg) (map_option (\<lambda>d. path_join d ''retained.dat'') (cfg_data_dir cfg))
       (RetainedStore_default (x_cache x)) = Inr (rs, tasks)"
    "nd = \<lparr>nd_broker = (Broker_new x fs cfg rs)\<lparr>b_store := snd (rehydrate qos (b_acl (Broker_new x fs cfg rs)) (cfg_scope cfg)
        (x_declare x) (b_store (Broker_new x fs cfg rs)))\<rparr>, nd_tasks = tasks @ node_tasks cfg, nd_tls = tls\<rparr>"
  using assms by (auto simp: run_node_def Let_def split: sum.splits if_splits prod.splits)

lemma restore_fresh:
  fixes x :: "('c, 'l) extern"
  assumes "wire w fs scope path (RetainedStore_default (x_cache x)) = Inr (rs, tasks)"
  shows "rs_wf rs" and "match_cache (x_cache x) \<Longrightarrow> coherent (x_cache x) rs"
proof -
  have rs: "rs = wire_restore fs path (RetainedStore_default (x_cache x))"
    using assms by (auto simp: wire_def Let_def split: if_splits)
  have loop: "rs_wf (fst (snapshot_loop (s, n) bs)) \<and> rs_cache (fst (snapshot_loop (s, n) bs)) = rs_cache s"
    if "rs_wf s" for s :: "'c RetainedStore" and n bs
    using that
  proof (induction "(s, n)" bs arbitrary: s n rule: snapshot_loop.induct)
    case (1 s n rest)
    then show ?case
      by (subst (1 2) snapshot_loop.simps) (auto simp: rs_wf_def split: sum.split prod.split)
  qed
  have load: "rs_wf (fst (load_snapshot fs p s)) \<and> rs_cache (fst (load_snapshot fs p s)) = rs_cache s"
    if "rs_wf s" for p and s :: "'c RetainedStore"
    using loop [OF that] that by (simp add: load_snapshot_def split: sum.split option.split)
  have "rs_wf rs \<and> rs_cache rs = rs_cache (RetainedStore_default (x_cache x))"
    using load [of "RetainedStore_default (x_cache x)"] rs_default_simps(1) [of "x_cache x"]
    by (simp add: rs wire_restore_def take_dirty_def rs_wf_def Let_def split: option.split)
  then show "rs_wf rs" and "match_cache (x_cache x) \<Longrightarrow> coherent (x_cache x) rs"
    by (auto simp: coherent_def RetainedStore_default_def match_cache.get_new)
qed

lemma rehydrate_filter_grants:
  assumes "store_wf st"
  shows "sub_filters (foldl (rehydrate_filter acl scope decl who r) st fs) \<subseteq> sub_filters st \<union> granted_somebody acl"
  using assms
proof (induction fs arbitrary: st)
  case (Cons fq fs)
  obtain f q where fq: "fq = (f, q)" by (cases fq)
  let ?st = "rehydrate_filter acl scope decl who r st (f, q)"
  have wf: "store_wf ?st" using Cons.prems by (simp add: rehydrate_filter_def activate_wf)
  obtain res st1 where a: "activate_subscription scope decl r f q st = (res, st1)" by fastforce
  have "sub_filters ?st \<subseteq> sub_filters st \<union> granted_somebody acl"
    using sub_filters_activate [OF Cons.prems a] by (auto simp: rehydrate_filter_def a granted_somebody_def)
  with Cons.IH [OF wf] show ?case by (auto simp: fq)
qed simp

lemma rehydrate_one_grants:
  assumes "store_wf st" and "rehydrate_one qos acl scope decl path st = (out, st')"
  shows "store_wf st' \<and> sub_filters st' \<subseteq> sub_filters st \<union> granted_somebody acl"
proof -
  have wf': "store_wf st'" using registry_step_wf [OF registry_step.restore [OF assms(2)] assms(1)] .
  show ?thesis
  proof (cases "load_subs qos (env_fs (st_env st)) path")
    case (Inl e)
    with assms wf' show ?thesis by (auto simp: rehydrate_one_def)
  next
    case (Inr t)
    obtain cid who filters where t: "t = (cid, who, filters)" by (cases t)
    let ?s0 = "SessionState_new (env_fs (st_env st)) cid (reg_max_queue (st_registry st)) (reg_slow_grace (st_registry st))
        (queue_path (reg_queue_dir (st_registry st)) cid) (Some path)"
    let ?s = "?s0\<lparr>inner := (inner ?s0)\<lparr>identity := who\<rparr>\<rparr>"
    obtain r st1 where al: "alloc ?s st = (r, st1)" by fastforce
    let ?st2 = "foldl (rehydrate_filter acl scope decl who r) st1 filters"
    have i: "session_inv ?s" and f: "filters_of ?s = {}"
      using session_new_inv filters_of_changes(5) by (simp_all add: session_inv_def filters_of_def)
    have wf1: "store_wf st1" by (rule store_wf_alloc(1) [OF assms(1) i al])
    have wf2: "store_wf ?st2" by (rule rehydrate_filters_wf [OF wf1])
    have "sub_filters (on_session r (\<lambda>(s, e). (s, persist_subs s e)) ?st2) \<subseteq> sub_filters ?st2"
      using sub_filters_on_session [OF wf2, of "\<lambda>(s, e). (s, persist_subs s e)" "{}"] by simp
    moreover have "st' = register cid r (on_session r (\<lambda>(s, e). (s, persist_subs s e)) ?st2)"
      using assms(2) by (simp add: rehydrate_one_def Inr t al Let_def)
    ultimately show ?thesis
      using wf' rehydrate_filter_grants [OF wf1, of acl scope decl who r filters] sub_filters_alloc [OF assms(1) al f] by auto
  qed
qed

lemma rehydrate_grants:
  assumes "store_wf st"
  shows "store_wf (snd (rehydrate qos acl scope decl st))
    \<and> sub_filters (snd (rehydrate qos acl scope decl st)) \<subseteq> sub_filters st \<union> granted_somebody acl"
proof -
  have "store_wf (snd (foldl (rehydrate_path qos acl scope decl) (n, st) ps))
      \<and> sub_filters (snd (foldl (rehydrate_path qos acl scope decl) (n, st) ps)) \<subseteq> sub_filters st \<union> granted_somebody acl"
    if "store_wf st" for n st ps
    using that
  proof (induction ps arbitrary: n st)
    case (Cons p ps)
    obtain m st1 where 1: "rehydrate_path qos acl scope decl (n, st) p = (m, st1)" by fastforce
    obtain out st2 where 2: "rehydrate_one qos acl scope decl p st = (out, st2)" by fastforce
    have "st1 = st \<or> st1 = st2" using 1 2 by (auto simp: rehydrate_path_def split: if_splits sum.splits)
    with rehydrate_one_grants [OF Cons.prems 2] Cons.prems
    have "store_wf st1 \<and> sub_filters st1 \<subseteq> sub_filters st \<union> granted_somebody acl" by blast
    with Cons.IH [of st1 m] 1 show ?case by auto
  qed simp
  note fold = this [OF assms, of 0]
  show ?thesis
  proof (cases "reg_queue_dir (st_registry st)")
    case (Some dir)
    with fold [of "fs_read_dir dir (env_fs (st_env st))"] assms show ?thesis
      by (simp add: rehydrate_def case_prod_unfold)
  qed (simp add: rehydrate_def assms)
qed

lemma start_ok:
  assumes "run_node x w qos fs cfg = Inr nd"
  shows "broker_ok x (nd_broker nd) \<and> b_cfg (nd_broker nd) = cfg
    \<and> b_acl (nd_broker nd) = Acl_new (cfg_acl cfg) (auth_default_policy (cfg_auth cfg)) \<and> b_bus (nd_broker nd) = []"
proof -
  from assms obtain rs tasks tls where
    r: "wire w fs (cfg_scope cfg) (map_option (\<lambda>d. path_join d ''retained.dat'') (cfg_data_dir cfg))
       (RetainedStore_default (x_cache x)) = Inr (rs, tasks)" and
    nd: "nd_broker nd = (Broker_new x fs cfg rs)\<lparr>b_store := snd (rehydrate qos (b_acl (Broker_new x fs cfg rs)) (cfg_scope cfg)
        (x_declare x) (b_store (Broker_new x fs cfg rs)))\<rparr>"
    by (elim run_node_Inr) auto
  have wf: "store_wf (b_store (Broker_new x fs cfg rs))"
    using store_init_wf by (simp add: Broker_new_def store_init_def)
  have "sub_filters (b_store (Broker_new x fs cfg rs)) = {}" by (simp add: sub_filters_def Broker_new_def)
  with rehydrate_grants [OF wf, of qos "b_acl (Broker_new x fs cfg rs)" "cfg_scope cfg" "x_declare x"] restore_fresh [OF r]
  show ?thesis by (auto simp: nd broker_ok_def) (simp_all add: Broker_new_def)
qed

section \<open>The node over time\<close>

text \<open>What can happen to the broker of a running node: a connection from its first packet on, one
  locked section of a delivery, the sweep of expired sessions, a retained sample or catch-up
  reply, the saving of the retained store, a statistics tick, and a change of the counters.\<close>

inductive node_step :: "('c, 'l) extern \<Rightarrow> ('c, 'l) Broker \<Rightarrow> ('c, 'l) Broker \<Rightarrow> bool" for x where
  connection: "node_step x b (sv_broker (serve x now peer cert tx k room first events last_now b))"
| delivery: "hm_get (st_heap (b_store b)) r = Some s \<Longrightarrow> pc \<noteq> AtQueue \<or> 0 < max_queue s \<Longrightarrow>
    deliver_step t p q now outcome (pc, s, st_env (b_store b)) = (pc', s', e') \<Longrightarrow>
    node_step x b (b\<lparr>b_store := (with_session r s' (b_store b))\<lparr>st_env := e'\<rparr>\<rparr>)"
| sweeping: "node_step x b (b\<lparr>b_store := sweep now (unat (cfg_session_expiry_secs (b_cfg b)) * 10 ^ 9) (b_store b)\<rparr>)"
| replication: "node_step x b
    (b\<lparr>b_retained := on_retained_sample (x_cache x) (cfg_scope (b_cfg b)) ke kind raw (b_retained b)\<rparr>)"
| catching_up: "node_step x b (b\<lparr>b_retained := on_catch_up_reply (x_cache x) (cfg_scope (b_cfg b)) (b_retained b) reply\<rparr>)"
| saving: "persist_tick path (b_retained b, env_fs (st_env (b_store b))) = (rs, fs) \<Longrightarrow>
    node_step x b (b\<lparr>b_retained := rs, b_store := (b_store b)\<lparr>st_env := (st_env (b_store b))\<lparr>env_fs := fs\<rparr>\<rparr>\<rparr>)"
| statistics: "node_step x b (sys_tick x version uptime b)"
| counting: "node_step x b (count c b)"
| conn_counting: "node_step x b (b\<lparr>b_conn_count := n\<rparr>)"

definition node_write_ok :: "NodeConfig \<Rightarrow> Acl \<Rightarrow> bus_op \<Rightarrow> bool" where
  "node_write_ok cfg acl op \<longleftrightarrow> (\<exists>who. confined cfg acl who op) \<or> (\<exists>path. bus_key op = sys_key cfg path)"

definition node_inv :: "('c, 'l) extern \<Rightarrow> NodeConfig \<Rightarrow> ('c, 'l) Broker \<Rightarrow> bool" where
  "node_inv x cfg b \<longleftrightarrow>
     broker_ok x b \<and> b_cfg b = cfg \<and> b_acl b = Acl_new (cfg_acl cfg) (auth_default_policy (cfg_auth cfg))
   \<and> list_all (node_write_ok cfg (b_acl b)) (b_bus b)"

lemma serve_keeps:
  "\<exists>ops. b_bus (sv_broker (serve x now peer cert tx k room first events last_now b)) = b_bus b @ ops
     \<and> list_all (node_write_ok (b_cfg b) (b_acl b)) ops
     \<and> b_cfg (sv_broker (serve x now peer cert tx k room first events last_now b)) = b_cfg b
     \<and> b_acl (sv_broker (serve x now peer cert tx k room first events last_now b)) = b_acl b"
proof (cases "\<exists>c. first = FirstPacket (PConnect c)")
  case True
  then obtain c where f: "first = FirstPacket (PConnect c)" by blast
  from serve_confined [OF refl, of x now peer cert tx k room c events last_now b] f show ?thesis
    by (fastforce simp: list_all_iff node_write_ok_def)
next
  case False
  then have "sv_broker (serve x now peer cert tx k room first events last_now b) = b"
    by (auto simp: serve_def split: first_read.split Packet.split)
  then show ?thesis by simp
qed

lemma retained_changes:
  assumes "rs_wf s"
  shows "rs_wf (on_retained_sample api scope ke kind raw s)" "rs_wf (on_catch_up_reply api scope s reply)"
    "match_cache api \<Longrightarrow> coherent api s \<Longrightarrow> coherent api (on_retained_sample api scope ke kind raw s)"
    "match_cache api \<Longrightarrow> coherent api s \<Longrightarrow> coherent api (on_catch_up_reply api scope s reply)"
  using assms
  by (auto simp: on_retained_sample_def on_catch_up_reply_def match_cache.coherent_mutation
      split: option.split SampleKind.split)

lemma persist_tick_store:
  "persist_tick path (s, fs) = (rs, fs') \<Longrightarrow> rs_map rs = rs_map s \<and> rs_cache rs = rs_cache s"
  by (auto simp: persist_tick_def take_dirty_def Let_def split: if_splits)

lemma sys_tick_keeps:
  "b_store (sys_tick x v u b) = b_store b \<and> b_retained (sys_tick x v u b) = b_retained b
   \<and> b_cfg (sys_tick x v u b) = b_cfg b \<and> b_acl (sys_tick x v u b) = b_acl b"
proof -
  have "b_store (foldl (\<lambda>b (path, v). snd (bus_write x (BusPut (sys_key (b_cfg b) path) (as_bytes v)) b)) b kvs) = b_store b
    \<and> b_retained (foldl (\<lambda>b (path, v). snd (bus_write x (BusPut (sys_key (b_cfg b) path) (as_bytes v)) b)) b kvs) = b_retained b
    \<and> b_cfg (foldl (\<lambda>b (path, v). snd (bus_write x (BusPut (sys_key (b_cfg b) path) (as_bytes v)) b)) b kvs) = b_cfg b
    \<and> b_acl (foldl (\<lambda>b (path, v). snd (bus_write x (BusPut (sys_key (b_cfg b) path) (as_bytes v)) b)) b kvs) = b_acl b" for kvs
    by (induction kvs arbitrary: b) auto
  then show ?thesis by (simp add: sys_tick_def)
qed

lemma node_step_inv:
  assumes "node_inv x cfg b" and "node_step x b b'"
  shows "node_inv x cfg b'"
  using assms(2,1)
proof cases
  case (connection now peer cert tx k room first events last_now)
  with assms(1) serve_keeps [of x now peer cert tx k room first events last_now b]
    sound.serve_inv [of x b now peer cert tx k room first events last_now]
  show ?thesis by (auto simp: node_inv_def)
next
  case (delivery r s pc t p q now outcome pc' s' e')
  have ok: "broker_ok x b" and wf: "store_wf (b_store b)" using assms(1) by (auto simp: node_inv_def broker_ok_def)
  have "session_inv s'"
    using deliver_step_inv [OF _ delivery(4)] delivery(3) store_wf_session [OF wf delivery(2)] by blast
  moreover have "client_id s' = client_id s" using deliver_step_books [OF delivery(4)] by (simp add: same_config_def)
  ultimately have "broker_ok x (b\<lparr>b_store := with_session r s' (b_store b)\<rparr>)"
    using broker_ok_session [OF ok delivery(2)] deliver_step_filters [OF delivery(4)] by blast
  with assms(1) delivery(1) show ?thesis by (auto simp: node_inv_def broker_ok_def)
next
  case (sweeping now)
  have ok: "broker_ok x b" and wf: "store_wf (b_store b)" using assms(1) by (auto simp: node_inv_def broker_ok_def)
  have "broker_ok x (b\<lparr>b_store := sweep now expiry (b_store b)\<rparr>)" for expiry
    using sub_filters_sweep [OF wf, of now expiry] by (intro broker_ok_store [OF ok sweep_wf [OF wf]]) blast
  with assms(1) sweeping show ?thesis by (auto simp: node_inv_def)
next
  case (saving path rs fs)
  with assms(1) persist_tick_store [OF saving(2)] show ?thesis
    by (auto simp: node_inv_def broker_ok_def rs_wf_def coherent_def)
next
  case (statistics version uptime)
  have "list_all (node_write_ok (b_cfg b) acl)
      (filter (x_bus x) (map (\<lambda>(path, v). BusPut (sys_key (b_cfg b) path) (as_bytes v)) kvs))" for acl kvs
    by (auto simp: list_all_iff node_write_ok_def)
  with assms(1) statistics sys_tick_keeps [of x version uptime b] sys_tick_bus [of x b "sys_stats version uptime b"]
  show ?thesis by (auto simp: node_inv_def broker_ok_def sys_tick_def)
next
  case (counting c)
  with assms(1) sound.inv_count [of x b c] show ?thesis by (auto simp: node_inv_def)
qed (use assms(1) retained_changes in \<open>auto simp: node_inv_def broker_ok_def\<close>)

interpretation node_runs: transition_system
  "\<lambda>b. \<exists>w qos fs nd. run_node x (w :: 'z world) qos fs cfg = Inr nd \<and> b = nd_broker nd" "node_step x" "node_inv x cfg" for x cfg
proof unfold_locales
  fix b assume "\<exists>w qos fs nd. run_node x (w :: 'z world) qos fs cfg = Inr nd \<and> b = nd_broker nd"
  with start_ok [of x] show "node_inv x cfg b" by (fastforce simp: node_inv_def)
qed (rule node_step_inv)

section \<open>Properties\<close>

text \<open>A node stays in order for its whole life: after it started on any configuration and any
  files, over every sequence of connections (with any packets, accepted or refused),
  deliveries, sweeps, retained samples, saves and statistics, the registry and every session
  satisfy their invariants, retained look-ups through the cache return what a scan returns,
  every subscription in force was permitted to somebody by the configured access list, and
  everything the node ever wrote to the bus was on a topic somebody may publish on, that
  topic's retained slot, or one of the node's own \<open>@meta\<close> and \<open>@sys\<close> keys.\<close>

theorem node_safe:
  assumes "run_node x w qos fs cfg = Inr nd" and "(node_step x)\<^sup>*\<^sup>* (nd_broker nd) b" and "match_cache (x_cache x)"
  shows "store_wf (b_store b)
    \<and> fst (matching_cached (x_cache x) f (b_retained b)) = scan_map (rs_map (b_retained b)) f
    \<and> sub_filters (b_store b) \<subseteq> granted_somebody (Acl_new (cfg_acl cfg) (auth_default_policy (cfg_auth cfg)))
    \<and> list_all (node_write_ok cfg (Acl_new (cfg_acl cfg) (auth_default_policy (cfg_auth cfg)))) (b_bus b)"
proof -
  have "node_inv x cfg b" using node_runs.inv_reachable [OF _ assms(2)] assms(1) by blast
  then show ?thesis using match_cache.matching_cached_scan [OF assms(3)] assms(3) by (auto simp: node_inv_def broker_ok_def)
qed

definition demo_world :: "unit world" where
  "demo_world = \<lparr>w_config = (), w_insert = (\<lambda>_ _ z. Some z), w_open = (\<lambda>_. True), w_bind = (\<lambda>_. True),
     w_tls = \<lparr>tls_read = (\<lambda>p. if p = ''ca'' then Some [1] else Some [2]), tls_certs = (\<lambda>d. Some [d]), tls_key = (\<lambda>d. Some (Some d)),
       tls_versions = True, tls_root = (\<lambda>_. True), tls_verifier = (\<lambda>_. True), tls_single_cert = (\<lambda>_ _. True),
       x509_names = (\<lambda>_. Some [Some ''plc1''])\<rparr>,
     w_mkdir = (\<lambda>_. True), w_subscriber = (\<lambda>_. True), w_queryable = (\<lambda>_. True)\<rparr>"

definition demo_tls :: TlsConfig where
  "demo_tls = \<lparr>tls_listen = ''0.0.0.0:8883'', tls_cert_file = ''cert'', tls_key_file = ''key'', tls_client_ca_file = Some ''ca''\<rparr>"

lemma demo_start:
  "\<exists>nd. run_node demo_x demo_world qos_std fs (NodeConfig_default\<lparr>cfg_tls := tls\<rparr>) = Inr nd"
proof -
  have ins: "insert_all (\<lambda>_ _ z. Some z) kvs z = Inr z" for kvs and z :: unit by (induction kvs) auto
  have tls: "\<exists>t. start_tls demo_world (NodeConfig_default\<lparr>cfg_tls := tls\<rparr>) = Inr t"
    by (auto simp: start_tls_def tls_acceptor_def load_pem_certs_def load_key_def client_roots_def demo_world_def
        split: option.split)
  have wire: "\<exists>r. wire demo_world fs sc p s = Inr r" for sc p and s :: "(string, RetainedEntry list) hashmap RetainedStore"
    by (simp add: wire_def Let_def demo_world_def)
  from tls obtain t where t: "start_tls demo_world (NodeConfig_default\<lparr>cfg_tls := tls\<rparr>) = Inr t" by blast
  from wire [of "cfg_scope NodeConfig_default" None "RetainedStore_default list_cache"] obtain rs tasks where
    w: "wire demo_world fs (cfg_scope NodeConfig_default) None (RetainedStore_default list_cache) = Inr (rs, tasks)"
    by (metis surj_pair)
  have "w_insert demo_world = (\<lambda>_ _ z. Some z)" "w_config demo_world = ()" "w_open demo_world ()" "w_bind demo_world a"
    "x_cache demo_x = list_cache" "cfg_data_dir NodeConfig_default = None" "cfg_metrics_listen NodeConfig_default = None"
    "cfg_health_listen NodeConfig_default = None" for a
    by (simp_all add: demo_world_def demo_x_def NodeConfig_default_def)
  then show ?thesis
    using t w by (simp add: run_node_def ins bind_optional_def make_data_dir_def Let_def)
qed

theorem node_safe_witness:
  "\<exists>nd. run_node demo_x demo_world qos_std (env_fs demo_env) (NodeConfig_default\<lparr>cfg_tls := None\<rparr>) = Inr nd
     \<and> store_wf (b_store (sv_broker (serve demo_x (0, 0) ''p'' None 7 8 9 (FirstPacket (PConnect demo_connect))
         [((1, 1), Recv (PPublish (Publish_new ''a/b'' AtLeastOnce [5])))] (3, 3) (nd_broker nd))))"
proof -
  obtain nd where nd: "run_node demo_x demo_world qos_std (env_fs demo_env) (NodeConfig_default\<lparr>cfg_tls := None\<rparr>) = Inr nd"
    using demo_start by blast
  have "match_cache (x_cache demo_x)" using lc.match_cache_axioms by (simp add: demo_x_def)
  from node_safe [OF nd r_into_rtranclp [of "node_step demo_x", OF node_step.connection] this] nd show ?thesis by blast
qed


text \<open>(C25) TLS is never weaker than configured: a node that starts has a TLS listener exactly when one is
  configured, with the configured certificate chain and key, and it demands client certificates
  from the configured authority exactly when one is configured; an unreadable or empty
  file stops the node instead.\<close>

theorem tls_never_weaker:
  assumes "run_node x w qos fs cfg = Inr nd"
  shows "case cfg_tls cfg of
      None \<Rightarrow> nd_tls nd = None \<and> \<not> list_ex (\<lambda>t. case t of AcceptTls _ \<Rightarrow> True | _ \<Rightarrow> False) (nd_tasks nd)
    | Some tls \<Rightarrow> (\<exists>acceptor. nd_tls nd = Some acceptor
        \<and> load_pem_certs (w_tls w) (tls_cert_file tls) = Inr (ta_certs acceptor)
        \<and> load_key (w_tls w) (tls_key_file tls) = Inr (ta_key acceptor)
        \<and> (case tls_client_ca_file tls of
             None \<Rightarrow> ta_client_roots acceptor = None
           | Some ca \<Rightarrow> \<exists>roots. ta_client_roots acceptor = Some roots \<and> load_pem_certs (w_tls w) ca = Inr roots))
        \<and> AcceptTls (tls_listen tls) \<in> set (nd_tasks nd)"
proof -
  from assms obtain tls rs tasks where t: "start_tls w cfg = Inr tls" "nd_tls nd = tls" "nd_tasks nd = tasks @ node_tasks cfg"
    and "wire w fs (cfg_scope cfg) (map_option (\<lambda>d. path_join d ''retained.dat'') (cfg_data_dir cfg))
       (RetainedStore_default (x_cache x)) = Inr (rs, tasks)"
    by (elim run_node_Inr) auto
  then have tasks: "\<not> list_ex (\<lambda>t. case t of AcceptTls _ \<Rightarrow> True | _ \<Rightarrow> False) tasks"
    by (auto simp: wire_def Let_def list_ex_iff split: option.splits if_splits)
  show ?thesis
  proof (cases "cfg_tls cfg")
    case None
    with t tasks show ?thesis
      by (auto simp: start_tls_def node_tasks_def split: option.split)
  next
    case (Some tc)
    with t(1) obtain acceptor where "tls = Some acceptor" and ac: "tls_acceptor (w_tls w) tc = Inr acceptor"
      by (auto simp: start_tls_def split: sum.splits if_splits)
    with t(2) have a: "nd_tls nd = Some acceptor" "tls_acceptor (w_tls w) tc = Inr acceptor" by simp_all
    from ac have c: "load_pem_certs (w_tls w) (tls_cert_file tc) = Inr (ta_certs acceptor)"
      "load_key (w_tls w) (tls_key_file tc) = Inr (ta_key acceptor)"
      "client_roots (w_tls w) (tls_client_ca_file tc) = Inr (ta_client_roots acceptor)"
      by (auto simp: tls_acceptor_def split: sum.splits if_splits)
    from c(3) have "case tls_client_ca_file tc of None \<Rightarrow> ta_client_roots acceptor = None
        | Some ca \<Rightarrow> \<exists>roots. ta_client_roots acceptor = Some roots \<and> load_pem_certs (w_tls w) ca = Inr roots"
      by (auto simp: client_roots_def split: option.splits sum.splits if_splits)
    with a(1) c(1,2) t(3) Some show ?thesis by (simp add: node_tasks_def)
  qed
qed

theorem tls_never_weaker_witness:
  "\<exists>nd acceptor. run_node demo_x demo_world qos_std (env_fs demo_env) (NodeConfig_default\<lparr>cfg_tls := Some demo_tls\<rparr>) = Inr nd
     \<and> nd_tls nd = Some acceptor \<and> ta_client_roots acceptor = Some [[1]]"
proof -
  obtain nd where nd: "run_node demo_x demo_world qos_std (env_fs demo_env) (NodeConfig_default\<lparr>cfg_tls := Some demo_tls\<rparr>) = Inr nd"
    using demo_start by blast
  with tls_never_weaker [OF nd] show ?thesis by (auto simp: demo_tls_def load_pem_certs_def demo_world_def)
qed

text \<open>The connection limit holds under concurrent accepts: however the additions, rejections and
  departures interleave, no more than \<open>max_connections\<close> connections are served at any time,
  the counter is exactly the number of connections served or being rejected (so the
  reported gauge never drifts and never wraps below zero), and an arrival while fewer than
  the limit are counted is served.\<close>

theorem connection_limit:
  assumes "(conn_step max_connections)\<^sup>*\<^sup>* no_conns s"
  shows "length (cc_serving s) \<le> max_connections
    \<and> unat (cc_count s) = length (cc_serving s) + length (cc_rejected s)
    \<and> (unat (cc_count s) < max_connections \<and> unat (cc_count s) < 2 ^ 64 - 1 \<longrightarrow> c \<in> set (cc_serving (spawn_client max_connections c s)))"
proof -
  have i: "conns_inv max_connections s" using limit.inv_reachable [OF refl assms] .
  have "unat (cc_count s + 1) = Suc (unat (cc_count s))" if "unat (cc_count s) < 2 ^ 64 - 1"
    using that by (simp add: unat_word_ariths)
  with i show ?thesis by (auto simp: conns_inv_def spawn_client_def Let_def)
qed

theorem connection_limit_witness:
  "length (cc_serving (spawn_client 1 9 (spawn_client 1 8 no_conns))) \<le> 1"
proof -
  have "conn_step 1 no_conns (spawn_client 1 8 no_conns)" by (rule conn_step.arrival) (simp add: no_conns_def)
  moreover have "conn_step 1 (spawn_client 1 8 no_conns) (spawn_client 1 9 (spawn_client 1 8 no_conns))"
    by (rule conn_step.arrival) (simp add: no_conns_def spawn_client_def Let_def)
  ultimately have "(conn_step 1)\<^sup>*\<^sup>* no_conns (spawn_client 1 9 (spawn_client 1 8 no_conns))"
    by (rule converse_rtranclp_into_rtranclp [OF _ r_into_rtranclp])
  from connection_limit [OF this] show ?thesis by blast
qed

text \<open>Zenoh is given exactly the configured endpoints: the listen and connect settings are arrays
  that read back as the configured lists, whatever quotes, backslashes or commas the strings
  hold, so no endpoint can add or change another setting.\<close>

theorem endpoints_exact:
  assumes "list_all plain_text (cfg_zenoh_listen cfg @ cfg_peers cfg)"
  shows "map_option json_array (map_of (zenoh_settings cfg) ''listen/endpoints'') = Some (Some (cfg_zenoh_listen cfg))
    \<and> map_option json_array (map_of (zenoh_settings cfg) ''connect/endpoints'') = Some (Some (cfg_peers cfg))
    \<and> map_of (zenoh_settings cfg) ''scouting/multicast/enabled'' = Some ''false''"
proof -
  have "json_array (to_json_array xs) = Some xs" if "\<forall>s\<in>set xs. plain_text s" for xs
  proof (cases xs)
    case (Cons y ys)
    have "join_with CHR '','' (map debug_str xs) \<noteq> []" by (cases ys) (simp_all add: Cons debug_str_def)
    with json_items_debug [of y ys] that show ?thesis by (auto simp: Cons json_array_def to_json_array_def Cons_eq_append_conv)
  qed (simp add: json_array_def to_json_array_def)
  with assms show ?thesis by (simp add: zenoh_settings_def list_all_iff)
qed

theorem endpoints_exact_witness:
  "map_option json_array (map_of (zenoh_settings NodeConfig_default) ''listen/endpoints'') = Some (Some [''tcp/0.0.0.0:7447''])"
proof -
  have e: "cfg_zenoh_listen NodeConfig_default = [''tcp/0.0.0.0:7447'']" "cfg_peers NodeConfig_default = []"
    by (simp_all add: NodeConfig_default_def)
  have "list_all plain_text (cfg_zenoh_listen NodeConfig_default @ cfg_peers NodeConfig_default)"
    by (simp add: e plain_text_def)
  from endpoints_exact [OF this] e show ?thesis by simp
qed

text \<open>Resuming a session does not look at who resumes it: a client that names the client id of a
  stored session takes over its subscriptions and its backlog under any identity, also one to
  which the access list grants none of these filters.\<close>

theorem resume_ignores_identity:
  assumes "store_wf st" and "hm_get (sessions (st_registry st)) cid = Some r" and "hm_get (st_heap st) r = Some s"
  shows "\<exists>ao st' s'. attach cid who False tx k st = (Some ao, st') \<and> hm_get (st_heap st') r = Some s'
    \<and> subs (inner s') = subs (inner s) \<and> identity (inner s') = who \<and> sink (inner s') = Some tx
    \<and> ao_backlog ao = queue (inner s)"
proof -
  obtain ep backlog s' e' where a: "attach_conn who tx k (s, st_env st) = ((ep, backlog), s', e')"
    by (metis prod_cases3 surj_pair)
  then have "subs (inner s') = subs (inner s) \<and> identity (inner s') = who \<and> sink (inner s') = Some tx \<and> backlog = queue (inner s)"
    by (auto simp: attach_conn_def attach_locked_def Let_def split: option.splits if_splits)
  moreover have "hm_wf (st_heap st)" using store_wf_maps [OF assms(1)] by blast
  ultimately show ?thesis
    using assms(2,3) a by (auto simp: attach_def attach_lookup_def)
qed

end
