(* ===== verification/Takeover.thy ===== *)
theory Takeover
  imports Connection_Quiet Node_Safety
begin

text \<open>
  Which connection a session belongs to, on a store shared by many open connections
  (\<open>SessionRegistry\<close> and \<open>SessionState\<close> of \<open>crates/entmoot-node/src/session.rs\<close>). \<open>takeover_inv\<close>
  relates the store to the connections that are open: every one of them that has not been
  told to leave is the current connection of the session registered under its client id.
  One lemma per operation that changes attachments; everything else is \<open>store_quiet\<close>.
\<close>

section \<open>Definitions\<close>

text \<open>How far a connection is between its attach and its detach: what it still does before the read
  loop (the CONNACK, the client event, the backlog), the read loop, or the end, with the result
  of the loop.\<close>

datatype greeting = SendConnAck bool | Announce string | SendBacklog message

datatype phase = Greeting "greeting list" | Serving | Closing "(ConnError, unit) result"

text \<open>A connection after its CONNECT: its \<open>Client\<close>, whether its session is clean, its epoch, whether its
  writer task still runs, what it handed to the writer and how many more packets the writer
  will take.\<close>

record oconn =
  oc_client :: Client
  oc_clean :: bool
  oc_epoch :: u64
  oc_writer :: bool
  oc_out :: "Packet list"
  oc_room :: nat
  oc_phase :: phase

abbreviation notified :: "store \<Rightarrow> nat set" where
  "notified st \<equiv> set (env_notified (st_env st))"

abbreviation registered :: "store \<Rightarrow> string \<Rightarrow> nat option" where
  "registered st \<equiv> hm_get (sessions (st_registry st))"

definition told :: "store \<Rightarrow> nat \<Rightarrow> oconn \<Rightarrow> bool" where
  "told st c o' \<longleftrightarrow> c \<in> notified st \<or> \<not> oc_writer o'"

definition current :: "store \<Rightarrow> nat \<Rightarrow> oconn \<Rightarrow> bool" where
  "current st c o' \<longleftrightarrow>
     (\<exists>m. cores st (cl_session (oc_client o')) = Some (oc_epoch o', Some c, Some c, cl_id (oc_client o'), m))
   \<and> registered st (cl_id (oc_client o')) = Some (cl_session (oc_client o'))"

definition conn_ok :: "store \<Rightarrow> nat \<Rightarrow> oconn \<Rightarrow> bool" where
  "conn_ok st c o' \<longleftrightarrow>
     (\<exists>e sk k m. cores st (cl_session (oc_client o')) = Some (e, sk, k, cl_id (oc_client o'), m) \<and> unat (oc_epoch o') \<le> unat e)
   \<and> (told st c o' \<or> current st c o')"

definition takeover_inv :: "store \<Rightarrow> (nat \<Rightarrow> oconn option) \<Rightarrow> bool" where
  "takeover_inv st T \<longleftrightarrow>
     (\<forall>c o'. T c = Some o' \<longrightarrow> conn_ok st c o')
   \<and> (\<forall>c d o' p. T c = Some o' \<and> T d = Some p \<and> c \<noteq> d \<and> cl_session (oc_client o') = cl_session (oc_client p)
        \<longrightarrow> oc_epoch o' \<noteq> oc_epoch p)
   \<and> (\<forall>r e c k i m o'. cores st r = Some (e, Some c, k, i, m) \<and> T c = Some o'
        \<longrightarrow> cl_session (oc_client o') = r \<and> oc_epoch o' = e)"

lemma takeover_invI:
  assumes "\<And>c o'. T c = Some o' \<Longrightarrow> conn_ok st c o'"
    and "\<And>c d o' p. T c = Some o' \<Longrightarrow> T d = Some p \<Longrightarrow> c \<noteq> d \<Longrightarrow> cl_session (oc_client o') = cl_session (oc_client p)
        \<Longrightarrow> oc_epoch o' \<noteq> oc_epoch p"
    and "\<And>r e c k i m o'. cores st r = Some (e, Some c, k, i, m) \<Longrightarrow> T c = Some o'
        \<Longrightarrow> cl_session (oc_client o') = r \<and> oc_epoch o' = e"
  shows "takeover_inv st T"
  using assms unfolding takeover_inv_def by blast

lemma takeover_invD:
  assumes "takeover_inv st T"
  shows "T c = Some o' \<Longrightarrow> conn_ok st c o'"
    and "T c = Some o' \<Longrightarrow> T d = Some p \<Longrightarrow> c \<noteq> d \<Longrightarrow> cl_session (oc_client o') = cl_session (oc_client p)
        \<Longrightarrow> oc_epoch o' \<noteq> oc_epoch p"
    and "cores st r = Some (e, Some c, k, i, m) \<Longrightarrow> T c = Some o' \<Longrightarrow> cl_session (oc_client o') = r \<and> oc_epoch o' = e"
  using assms unfolding takeover_inv_def by blast+

section \<open>Quiet changes\<close>

lemma takeover_quiet: "takeover_inv st T \<Longrightarrow> store_quiet st st' \<Longrightarrow> takeover_inv st' T"
  by (auto simp: takeover_inv_def conn_ok_def told_def current_def store_quiet_def)

lemma takeover_drop: "takeover_inv st T \<Longrightarrow> takeover_inv st (T(c := None))"
  by (rule takeover_invI) (auto dest: takeover_invD split: if_splits)

text \<open>A connection may change everything but its session, its client id and its epoch; its writer may
  die.\<close>

definition same_owner :: "oconn \<Rightarrow> oconn \<Rightarrow> bool" where
  "same_owner o' p \<longleftrightarrow>
     cl_session (oc_client p) = cl_session (oc_client o') \<and> cl_id (oc_client p) = cl_id (oc_client o')
   \<and> oc_epoch p = oc_epoch o' \<and> (oc_writer p \<longrightarrow> oc_writer o')"

lemma takeover_same:
  assumes "takeover_inv st T" and "T c = Some o'" and "same_owner o' p"
  shows "takeover_inv st (T(c \<mapsto> p))"
proof (rule takeover_invI)
  fix d q assume "(T(c \<mapsto> p)) d = Some q"
  then show "conn_ok st d q"
    using takeover_invD(1) [OF assms(1), of d] assms(2,3)
    by (auto simp: conn_ok_def told_def current_def same_owner_def split: if_splits)
next
  fix d1 d2 q1 q2 assume "(T(c \<mapsto> p)) d1 = Some q1" "(T(c \<mapsto> p)) d2 = Some q2" "d1 \<noteq> d2"
    "cl_session (oc_client q1) = cl_session (oc_client q2)"
  then show "oc_epoch q1 \<noteq> oc_epoch q2"
    using takeover_invD(2) [OF assms(1), of d1 _ d2] assms(2,3) by (auto simp: same_owner_def split: if_splits)
next
  fix r e d k i m q assume "cores st r = Some (e, Some d, k, i, m)" "(T(c \<mapsto> p)) d = Some q"
  then show "cl_session (oc_client q) = r \<and> oc_epoch q = e"
    using takeover_invD(3) [OF assms(1)] assms(2,3) by (auto simp: same_owner_def split: if_splits)
qed

section \<open>Attaching\<close>

lemma cores_alloc:
  assumes "store_wf st" and "alloc s st = (r, st')"
  shows "cores st r = None" and "cores st' r = Some (core s)" and "r' \<noteq> r \<Longrightarrow> cores st' r' = cores st r'"
    and "st_env st' = st_env st" and "st_registry st' = st_registry st"
proof -
  have "hm_get (st_heap st) (st_next st) = None"
    using store_wf_session [OF assms(1)] by (cases "hm_get (st_heap st) (st_next st)") fastforce+
  then show "cores st r = None" "cores st' r = Some (core s)" "r' \<noteq> r \<Longrightarrow> cores st' r' = cores st r'"
    "st_env st' = st_env st" "st_registry st' = st_registry st"
    using assms store_wf_maps [OF assms(1)] by (auto simp: alloc_def cores_def)
qed

lemma cores_kick:
  assumes "store_wf st"
  shows "cores (on_session r kick_current st) = cores st" and "notified st \<subseteq> notified (on_session r kick_current st)"
    and "cores st r = Some (e, sk, Some k, i, m) \<Longrightarrow> k \<in> notified (on_session r kick_current st)"
proof -
  have wf: "hm_wf (st_heap st)" using store_wf_maps [OF assms] by blast
  show "cores (on_session r kick_current st) = cores st"
  proof
    fix r' show "cores (on_session r kick_current st) r' = cores st r'"
      using wf core_methods(6) [of _ "st_env st"]
      by (auto simp: on_session_def cores_def split: option.split prod.split) (metis fst_conv)
  qed
  show "notified st \<subseteq> notified (on_session r kick_current st)"
    by (auto simp: on_session_def kick_current_def notify_def split: option.split prod.split)
  show "cores st r = Some (e, sk, Some k, i, m) \<Longrightarrow> k \<in> notified (on_session r kick_current st)"
    by (auto simp: on_session_def kick_current_def notify_def cores_def core_def split: option.split prod.split)
qed

lemma cores_register [simp]: "cores (register cid r st) = cores st" "cores (discard_paths qp sp st) = cores st"
  by (simp_all add: cores_def discard_paths_def fun_eq_iff)

lemma registered_register: "store_wf st \<Longrightarrow> registered (register cid r st) = (registered st)(cid \<mapsto> r)"
  using store_wf_maps by (auto simp: register_def fun_eq_iff)

lemma core_new: "core (SessionState_new fs cid n g qp sp) = (0, None, None, cid, n)"
  by (simp add: core_def SessionState_new_def Let_def)

text \<open>The registry's part: the session found or made, and who was kicked.\<close>

lemma lookup_effect:
  assumes "store_wf st" and "attach_lookup cid clean st = (r, present, st1)"
  shows "registered st1 = (registered st)(cid \<mapsto> r) \<and> (\<forall>r'. r' \<noteq> r \<longrightarrow> cores st1 r' = cores st r') \<and> notified st \<subseteq> notified st1
    \<and> (registered st cid = Some r \<and> cores st1 r = cores st r
       \<or> cores st r = None \<and> (\<exists>m. cores st1 r = Some (0, None, None, cid, m))
         \<and> (\<forall>r0 e sk k i m. registered st cid = Some r0 \<and> cores st r0 = Some (e, sk, Some k, i, m) \<longrightarrow> k \<in> notified st1))"
proof (cases "registered st cid")
  case (Some r0)
  show ?thesis
  proof (cases clean)
    case False
    with assms(2) Some have "r = r0" "st1 = register cid r0 st" by (auto simp: attach_lookup_def Let_def)
    with assms(1) Some show ?thesis by (auto simp: registered_register)
  next
    case True
    let ?dir = "reg_queue_dir (st_registry st)" and ?reg = "st_registry st"
    let ?a = "on_session r0 kick_current st"
    let ?b = "on_session r0 abort_subs ?a"
    let ?d = "discard_paths (queue_path ?dir cid) (subs_path ?dir cid) ?b"
    let ?s = "SessionState_new (env_fs (st_env ?d)) cid (reg_max_queue ?reg) (reg_slow_grace ?reg) None None"
    obtain r' st2 where al: "alloc ?s ?d = (r', st2)" by fastforce
    have wa: "store_wf ?a" by (rule store_wf_on_session [OF assms(1) safe_methods(1)])
    have wb: "store_wf ?d" using store_wf_on_session [OF wa safe_methods(2)] by simp
    have ab: "store_quiet ?a ?b"
      using store_quiet_on_session [OF store_quiet_refl, of ?a abort_subs r0] store_wf_maps [OF wa]
      by (simp add: core_methods notified_methods)
    note k = cores_kick [OF assms(1), of r0]
    have st1: "r = r'" "st1 = register cid r' st2"
      using assms(2) True Some al by (auto simp: attach_lookup_def Let_def)
    have cd: "cores ?d = cores st" using ab k(1) by (simp add: store_quiet_def)
    have nd: "notified ?d = notified ?a" using ab by (simp add: store_quiet_def discard_paths_def)
    note alloc = cores_alloc [OF wb al]
    have w2: "store_wf st2" by (rule store_wf_alloc(1) [OF wb session_new_inv al])
    have reg: "registered st2 = registered st" using alloc(5) by (simp add: discard_paths_def)
    have "cores st r = None" "cores st1 r = Some (0, None, None, cid, reg_max_queue ?reg)"
      "\<forall>r''. r'' \<noteq> r \<longrightarrow> cores st1 r'' = cores st r''"
      using alloc(1-3) cd st1 by (simp_all add: core_new)
    moreover have "registered st1 = (registered st)(cid \<mapsto> r)" using st1 registered_register [OF w2] reg by simp
    moreover have "notified st1 = notified ?a" using st1 alloc(4) nd by simp
    ultimately show ?thesis using k(2,3) Some by auto
  qed
next
  case None
  let ?dir = "reg_queue_dir (st_registry st)" and ?reg = "st_registry st"
  let ?d = "if clean then discard_paths (queue_path ?dir cid) (subs_path ?dir cid) st else st"
  have wb: "store_wf ?d" using assms(1) by simp
  obtain s r' st2 where al: "alloc s ?d = (r', st2)" and s: "core s = (0, None, None, cid, reg_max_queue ?reg)" "session_inv s"
    and st1: "r = r'" "st1 = register cid r' st2"
    using assms(2) None core_new session_new_inv by (fastforce simp: attach_lookup_def Let_def split: prod.splits)
  note alloc = cores_alloc [OF wb al]
  have w2: "store_wf st2" by (rule store_wf_alloc(1) [OF wb s(2) al])
  have "registered st2 = registered st" "notified st2 = notified st"
    using alloc(4,5) by (simp_all add: discard_paths_def)
  moreover have "cores ?d = cores st" by simp
  ultimately have "registered st2 = registered st" "notified st2 = notified st" "cores ?d = cores st" by blast+
  with alloc(1-3) s st1 registered_register [OF w2] None show ?thesis by auto
qed

text \<open>The session's part.\<close>

lemma attach_conn_core:
  assumes "attach_conn who tx k (s, e) = ((ep, backlog), s', e')" and "core s = (ep0, sk, k0, i, m)"
  shows "core s' = (ep0 + 1, Some tx, Some k, i, m) \<and> ep = ep0 + 1
    \<and> set (env_notified e) \<subseteq> set (env_notified e') \<and> (\<forall>old. k0 = Some old \<longrightarrow> old \<in> set (env_notified e'))"
  using assms
  by (auto simp: attach_conn_def attach_locked_def core_def Let_def notify_def split: option.splits if_splits)

lemma attach_effect:
  assumes "store_wf st" and "attach cid who clean tx k st = (out, st')"
  shows "\<exists>ao. out = Some ao \<and> registered st' = (registered st)(cid \<mapsto> ao_session ao)
    \<and> (\<forall>r'. r' \<noteq> ao_session ao \<longrightarrow> cores st' r' = cores st r') \<and> notified st \<subseteq> notified st'
    \<and> ((\<exists>e sk old m. registered st cid = Some (ao_session ao) \<and> cores st (ao_session ao) = Some (e, sk, old, cid, m)
          \<and> cores st' (ao_session ao) = Some (e + 1, Some tx, Some k, cid, m) \<and> ao_epoch ao = e + 1
          \<and> (\<forall>k0. old = Some k0 \<longrightarrow> k0 \<in> notified st'))
       \<or> (\<exists>m. cores st (ao_session ao) = None \<and> cores st' (ao_session ao) = Some (1, Some tx, Some k, cid, m) \<and> ao_epoch ao = 1
          \<and> (\<forall>r0 e sk i m k0. registered st cid = Some r0 \<and> cores st r0 = Some (e, sk, Some k0, i, m) \<longrightarrow> k0 \<in> notified st')))"
proof -
  obtain r present st1 where l: "attach_lookup cid clean st = (r, present, st1)" by (metis prod_cases3)
  note le = lookup_effect [OF assms(1) l]
  from attach_lookup_wf [OF assms(1) l] obtain s where
    wf: "store_wf st1" and s: "hm_get (st_heap st1) r = Some s" "client_id s = cid" by blast
  obtain ep backlog s' e' where a: "attach_conn who tx k (s, st_env st1) = ((ep, backlog), s', e')"
    by (metis prod_cases3 surj_pair)
  obtain e0 sk0 k0 m where c: "core s = (e0, sk0, k0, cid, m)" using s(2) by (auto simp: core_def)
  note ac = attach_conn_core [OF a c]
  have out: "out = Some \<lparr>ao_session = r, ao_present = present, ao_epoch = ep, ao_backlog = backlog\<rparr>"
    and st': "st' = (with_session r s' st1)\<lparr>st_env := e'\<rparr>"
    using assms(2) by (simp_all add: attach_def l s a)
  have "hm_wf (st_heap st1)" using store_wf_maps [OF wf] by blast
  then have cr: "cores st' r = Some (e0 + 1, Some tx, Some k, cid, m)" "\<forall>r'. r' \<noteq> r \<longrightarrow> cores st' r' = cores st1 r'"
    using ac by (auto simp: st' cores_def)
  have c1: "cores st1 r = Some (e0, sk0, k0, cid, m)" using s c by (simp add: cores_def)
  have n: "notified st1 \<subseteq> notified st'" "\<forall>old. k0 = Some old \<longrightarrow> old \<in> notified st'" using ac by (simp_all add: st')
  have reg: "registered st' = registered st1" by (simp add: st')
  from le show ?thesis
  proof (elim conjE disjE)
    assume "registered st1 = (registered st)(cid \<mapsto> r)" "\<forall>r'. r' \<noteq> r \<longrightarrow> cores st1 r' = cores st r'"
      "notified st \<subseteq> notified st1" "registered st cid = Some r" "cores st1 r = cores st r"
    with out cr c1 n reg ac show ?thesis by auto
  next
    assume "registered st1 = (registered st)(cid \<mapsto> r)" "\<forall>r'. r' \<noteq> r \<longrightarrow> cores st1 r' = cores st r'"
      "notified st \<subseteq> notified st1" "cores st r = None" "\<exists>m. cores st1 r = Some (0, None, None, cid, m)"
      "\<forall>r0 e sk k i m. registered st cid = Some r0 \<and> cores st r0 = Some (e, sk, Some k, i, m) \<longrightarrow> k \<in> notified st1"
    with out cr c1 n reg ac show ?thesis by (fastforce simp: subset_iff)
  qed
qed

text \<open>A connection attaches: it becomes the current one, and whoever was is told to leave.\<close>

lemma takeover_attach:
  assumes inv: "takeover_inv st T" and wf: "store_wf st" and a: "attach cid who clean c c st = (out, st')"
    and fresh: "T c = None" "\<And>r e k i m. cores st r \<noteq> Some (e, Some c, k, i, m)"
    and room: "\<And>r e sk k i m. cores st r = Some (e, sk, k, i, m) \<Longrightarrow> unat e < 2 ^ 64 - 1"
    and o': "out = Some ao" "cl_session (oc_client o') = ao_session ao" "cl_id (oc_client o') = cid" "oc_epoch o' = ao_epoch ao"
  shows "takeover_inv st' (T(c \<mapsto> o'))"
proof -
  let ?r = "ao_session ao"
  from attach_effect [OF wf a] o'(1) have
    reg: "registered st' = (registered st)(cid \<mapsto> ?r)" and
    others: "\<And>r'. r' \<noteq> ?r \<Longrightarrow> cores st' r' = cores st r'" and
    more_told: "notified st \<subseteq> notified st'" and
    two: "(\<exists>e sk old m. registered st cid = Some ?r \<and> cores st ?r = Some (e, sk, old, cid, m)
          \<and> cores st' ?r = Some (e + 1, Some c, Some c, cid, m) \<and> ao_epoch ao = e + 1
          \<and> (\<forall>k0. old = Some k0 \<longrightarrow> k0 \<in> notified st'))
       \<or> (\<exists>m. cores st ?r = None \<and> cores st' ?r = Some (1, Some c, Some c, cid, m) \<and> ao_epoch ao = 1
          \<and> (\<forall>r0 e sk i m k0. registered st cid = Some r0 \<and> cores st r0 = Some (e, sk, Some k0, i, m) \<longrightarrow> k0 \<in> notified st'))"
    by auto
  obtain m where new: "cores st' ?r = Some (ao_epoch ao, Some c, Some c, cid, m)" using two by auto
  have keep: "told st' d p" if "told st d p" for d p using that more_told by (auto simp: told_def)
  have suc: "unat (e + 1) = Suc (unat e)" if "cores st ?r = Some (e, sk, k, i, m)" for e sk k i m
    using room [OF that] by (simp add: unat_word_ariths)
  have old: "oc_epoch p \<noteq> ao_epoch ao \<and> (\<exists>e sk k m. cores st' (cl_session (oc_client p)) = Some (e, sk, k, cl_id (oc_client p), m)
      \<and> unat (oc_epoch p) \<le> unat e)"
    if p: "conn_ok st d p" "cl_session (oc_client p) = ?r" for d p
  proof -
    from p obtain e0 sk0 k0 m0 where c: "cores st ?r = Some (e0, sk0, k0, cl_id (oc_client p), m0)" "unat (oc_epoch p) \<le> unat e0"
      by (auto simp: conn_ok_def)
    with two have "cl_id (oc_client p) = cid" "ao_epoch ao = e0 + 1" by auto
    with c suc [OF c(1)] new p(2) show ?thesis by auto
  qed
  show ?thesis
  proof (rule takeover_invI)
    fix d p assume dp: "(T(c \<mapsto> o')) d = Some p"
    show "conn_ok st' d p"
    proof (cases "d = c")
      case True
      with dp have "p = o'" by simp
      with True new reg o' show ?thesis by (auto simp: conn_ok_def current_def)
    next
      case False
      with dp have Td: "T d = Some p" by simp
      note ok = takeover_invD(1) [OF inv Td]
      have first: "\<exists>e sk k m. cores st' (cl_session (oc_client p)) = Some (e, sk, k, cl_id (oc_client p), m) \<and> unat (oc_epoch p) \<le> unat e"
        using ok old [OF ok] others by (cases "cl_session (oc_client p) = ?r") (auto simp: conn_ok_def)
      have "told st' d p \<or> current st' d p"
      proof (cases "told st d p")
        case False
        with ok have cur: "current st d p" by (simp add: conn_ok_def)
        then obtain m where cc: "cores st (cl_session (oc_client p)) = Some (oc_epoch p, Some d, Some d, cl_id (oc_client p), m)"
          and rr: "registered st (cl_id (oc_client p)) = Some (cl_session (oc_client p))"
          by (auto simp: current_def)
        show ?thesis
        proof (cases "cl_id (oc_client p) = cid")
          case True
          with two cc rr have "d \<in> notified st'" by auto
          then show ?thesis by (simp add: told_def)
        next
          case False
          have "cl_session (oc_client p) \<noteq> ?r"
            using two cc False by auto
          with others cc rr reg False show ?thesis by (auto simp: current_def)
        qed
      qed (simp add: keep)
      with first show ?thesis by (simp add: conn_ok_def)
    qed
  next
    fix d1 d2 p1 p2
    assume d: "(T(c \<mapsto> o')) d1 = Some p1" "(T(c \<mapsto> o')) d2 = Some p2" "d1 \<noteq> d2"
      "cl_session (oc_client p1) = cl_session (oc_client p2)"
    consider "d1 = c" | "d2 = c" | "d1 \<noteq> c" "d2 \<noteq> c" by blast
    then show "oc_epoch p1 \<noteq> oc_epoch p2"
    proof cases
      case 1
      with d have "conn_ok st d2 p2" "p1 = o'" using takeover_invD(1) [OF inv] by auto
      with old [of d2 p2] d o' show ?thesis by auto
    next
      case 2
      with d have "conn_ok st d1 p1" "p2 = o'" using takeover_invD(1) [OF inv] by auto
      with old [of d1 p1] d o' show ?thesis by auto
    next
      case 3
      with d takeover_invD(2) [OF inv] show ?thesis by auto
    qed
  next
    fix r e d k i m' p
    assume s: "cores st' r = Some (e, Some d, k, i, m')" and dp: "(T(c \<mapsto> o')) d = Some p"
    show "cl_session (oc_client p) = r \<and> oc_epoch p = e"
    proof (cases "r = ?r")
      case True
      with s new have "d = c" "e = ao_epoch ao" by auto
      with dp o' True show ?thesis by auto
    next
      case False
      with s others have "cores st r = Some (e, Some d, k, i, m')" by simp
      with fresh(2) dp takeover_invD(3) [OF inv] show ?thesis by (auto split: if_splits)
    qed
  qed
qed

section \<open>Detaching, evicting, sweeping\<close>

text \<open>A change that only clears sinks and tells whom it concerns.\<close>

lemma takeover_shrink:
  assumes inv: "takeover_inv st T"
    and less: "\<And>r. case cores st r of None \<Rightarrow> cores st' r = None
      | Some (e, sk, k, i, m) \<Rightarrow> \<exists>sk' k'. cores st' r = Some (e, sk', k', i, m) \<and> (sk' = None \<or> sk' = sk)"
    and more_told: "notified st \<subseteq> notified st'"
    and owners: "\<And>c o'. T c = Some o' \<Longrightarrow> current st c o' \<Longrightarrow> told st' c o' \<or> current st' c o'"
  shows "takeover_inv st' T"
proof (rule takeover_invI)
  fix c o' assume c: "T c = Some o'"
  note ok = takeover_invD(1) [OF inv c]
  then obtain e sk k m where "cores st (cl_session (oc_client o')) = Some (e, sk, k, cl_id (oc_client o'), m)"
      "unat (oc_epoch o') \<le> unat e"
    by (auto simp: conn_ok_def)
  with less [of "cl_session (oc_client o')"] have
    "\<exists>e sk k m. cores st' (cl_session (oc_client o')) = Some (e, sk, k, cl_id (oc_client o'), m) \<and> unat (oc_epoch o') \<le> unat e"
    by auto
  moreover have "told st' c o' \<or> current st' c o'"
    using ok owners [OF c] more_told by (auto simp: conn_ok_def told_def)
  ultimately show "conn_ok st' c o'" by (simp add: conn_ok_def)
next
  fix r e c k i m o' assume s: "cores st' r = Some (e, Some c, k, i, m)" and c: "T c = Some o'"
  from less [of r] s obtain k0 where "cores st r = Some (e, Some c, k0, i, m)"
    by (auto split: option.splits prod.splits)
  with takeover_invD(3) [OF inv] c show "cl_session (oc_client o') = r \<and> oc_epoch o' = e" by blast
qed (use takeover_invD(2) [OF inv] in blast)

lemma detach_effect:
  assumes "store_wf st"
  shows "detach now r ep clean st = st
    \<or> (\<exists>sk k i m. cores st r = Some (ep, sk, k, i, m) \<and> cores (detach now r ep clean st) r = Some (ep, None, None, i, m)
       \<and> (\<forall>r'. r' \<noteq> r \<longrightarrow> cores (detach now r ep clean st) r' = cores st r')
       \<and> notified (detach now r ep clean st) = notified st
       \<and> (registered (detach now r ep clean st) = registered st
          \<or> registered st i = Some r \<and> registered (detach now r ep clean st) = (registered st)(i := None)))"
proof (cases "hm_get (st_heap st) r")
  case None
  then show ?thesis by (simp add: detach_def)
next
  case (Some s)
  obtain b s' where d: "detach_conn now ep s = (b, s')" by fastforce
  show ?thesis
  proof (cases b)
    case False
    then show ?thesis by (simp add: detach_def Some d)
  next
    case True
    let ?st1 = "with_session r s' st"
    let ?st2 = "on_session r abort_subs ?st1"
    let ?st3 = "?st2\<lparr>st_env := discard_state_files s' (st_env ?st2)\<rparr>"
    have wf: "hm_wf (st_heap st)" "hm_wf (sessions (st_registry st))" using store_wf_maps [OF assms] by auto
    obtain sk k i m where c: "core s = (ep, sk, k, i, m)" and c': "core s' = (ep, None, None, i, m)"
      using d True by (auto simp: detach_conn_def core_def Let_def split: if_splits)
    have i: "client_id s' = i" using c' by (simp add: core_def)
    have 1: "cores ?st1 r = Some (ep, None, None, i, m)" "\<forall>r'. r' \<noteq> r \<longrightarrow> cores ?st1 r' = cores st r'"
      using wf c' by (auto simp: cores_def)
    have "hm_wf (st_heap ?st1)" using wf by simp
    from store_quiet_on_session [OF store_quiet_refl [OF this], of abort_subs r]
    have q: "store_quiet ?st1 ?st2" by (simp add: core_methods notified_methods)
    then have 3: "store_quiet ?st1 ?st3" by (rule store_quiet_env) simp
    have r0: "cores st r = Some (ep, sk, k, i, m)" using Some c by (simp add: cores_def)
    have reg: "registered ?st3 = registered st" by simp
    show ?thesis
    proof (cases "clean \<and> registered st i = Some r")
      case True
      then have "detach now r ep clean st = ?st3\<lparr>st_registry := (st_registry ?st3)\<lparr>sessions := hm_remove i (sessions (st_registry ?st3))\<rparr>\<rparr>"
        using d \<open>b\<close> i by (simp add: detach_def Some Let_def)
      then show ?thesis
        using 1 3 r0 True wf by (auto simp: store_quiet_def cores_def fun_eq_iff)
    next
      case False
      then have "detach now r ep clean st = (if clean then ?st3 else ?st1)"
        using d \<open>b\<close> i by (simp add: detach_def Some Let_def)
      then show ?thesis using 1 3 r0 by (cases clean) (auto simp: store_quiet_def)
    qed
  qed
qed

text \<open>A connection closes: whatever its epoch, the others are not touched.\<close>

lemma takeover_detach:
  assumes inv: "takeover_inv st T" and wf: "store_wf st" and c: "T c = Some o'"
  shows "takeover_inv (detach now (cl_session (oc_client o')) (oc_epoch o') clean st) (T(c := None))"
proof -
  let ?r = "cl_session (oc_client o')"
  let ?st = "detach now ?r (oc_epoch o') clean st"
  note drop = takeover_drop [OF inv, of c]
  consider (same) "?st = st"
    | (gone) sk k i m where "cores st ?r = Some (oc_epoch o', sk, k, i, m)" "cores ?st ?r = Some (oc_epoch o', None, None, i, m)"
      "\<forall>r'. r' \<noteq> ?r \<longrightarrow> cores ?st r' = cores st r'" "notified ?st = notified st"
      "registered ?st = registered st \<or> registered st i = Some ?r \<and> registered ?st = (registered st)(i := None)"
    using detach_effect [OF wf, of now ?r "oc_epoch o'" clean] by auto
  then show ?thesis
  proof cases
    case same
    with drop show ?thesis by simp
  next
    case gone
    show ?thesis
    proof (rule takeover_shrink [OF drop])
      show "notified st \<subseteq> notified ?st" using gone(4) by simp
    next
      fix r show "case cores st r of None \<Rightarrow> cores ?st r = None
          | Some (e, sk, k, i, m) \<Rightarrow> \<exists>sk' k'. cores ?st r = Some (e, sk', k', i, m) \<and> (sk' = None \<or> sk' = sk)"
        using gone(1-3) by (cases "r = ?r") (auto split: option.split)
    next
      fix d p assume dp: "(T(c := None)) d = Some p" and cur: "current st d p"
      then have d: "d \<noteq> c" "T d = Some p" by (auto split: if_splits)
      from cur obtain m' where cc: "cores st (cl_session (oc_client p)) = Some (oc_epoch p, Some d, Some d, cl_id (oc_client p), m')"
        and rr: "registered st (cl_id (oc_client p)) = Some (cl_session (oc_client p))"
        by (auto simp: current_def)
      have ne: "cl_session (oc_client p) \<noteq> ?r"
      proof
        assume same: "cl_session (oc_client p) = ?r"
        with cc gone(1) have "oc_epoch p = oc_epoch o'" by simp
        with takeover_invD(2) [OF inv d(2) c d(1) same] show False by simp
      qed
      with cc gone(3) have "cores ?st (cl_session (oc_client p)) = Some (oc_epoch p, Some d, Some d, cl_id (oc_client p), m')" by simp
      moreover have "registered ?st (cl_id (oc_client p)) = Some (cl_session (oc_client p))"
        using gone(5) rr ne by auto
      ultimately show "told ?st d p \<or> current ?st d p" by (simp add: current_def)
    qed
  qed
qed

text \<open>A failed send, or an eviction that has told the connection.\<close>

lemma takeover_clear:
  assumes inv: "takeover_inv st T" and c: "cores st r = Some (e, sk, k, i, m)"
    and new: "cores st' r = Some (e, None, k, i, m)" "\<And>r'. r' \<noteq> r \<Longrightarrow> cores st' r' = cores st r'"
    and reg: "registered st' = registered st" and more_told: "notified st \<subseteq> notified st'"
    and whom: "\<And>c o'. sk = Some c \<Longrightarrow> T c = Some o' \<Longrightarrow> told st' c o'"
  shows "takeover_inv st' T"
proof (rule takeover_shrink [OF inv _ more_told])
  fix r' show "case cores st r' of None \<Rightarrow> cores st' r' = None
      | Some (e, sk, k, i, m) \<Rightarrow> \<exists>sk' k'. cores st' r' = Some (e, sk', k', i, m) \<and> (sk' = None \<or> sk' = sk)"
    using c new by (cases "r' = r") (auto split: option.split)
next
  fix d p assume d: "T d = Some p" and cur: "current st d p"
  show "told st' d p \<or> current st' d p"
  proof (cases "cl_session (oc_client p) = r")
    case True
    with cur c have "sk = Some d" by (auto simp: current_def)
    with whom d show ?thesis by blast
  next
    case False
    with cur new(2) reg show ?thesis by (auto simp: current_def)
  qed
qed

text \<open>A sweep forgets entries of the registry; the sessions stay with those who hold them.\<close>

lemma sweep_quiet:
  assumes wf: "store_wf st"
  shows "store_quiet (st\<lparr>st_registry := (st_registry st)\<lparr>sessions :=
      hm_retain (\<lambda>_ r. \<not> ref_expired now expiry st r) (sessions (st_registry st))\<rparr>\<rparr>) (sweep now expiry st)"
    and "cores (sweep now expiry st) = cores st" and "notified (sweep now expiry st) = notified st"
proof -
  let ?f = "\<lambda>(s, e). case abort_subs (s, e) of (s, e) \<Rightarrow> (s, discard_state_files s e)"
  let ?st1 = "st\<lparr>st_registry := (st_registry st)\<lparr>sessions :=
      hm_retain (\<lambda>_ r. \<not> ref_expired now expiry st r) (sessions (st_registry st))\<rparr>\<rparr>"
  have f: "core (fst (?f (s, e))) = core s" "env_notified (snd (?f (s, e))) = env_notified e" for s e
    using core_methods(5) [of s e] notified_methods(3) [of s e] by (auto simp: case_prod_unfold)
  have fold: "store_quiet st0 st' \<Longrightarrow> store_quiet st0 (foldl sweep_one st' rs)" for st0 st' rs
  proof (induction rs arbitrary: st')
    case (Cons r rs)
    from store_quiet_on_session [OF Cons.prems, of ?f r] f have "store_quiet st0 (sweep_one st' r)" by (simp add: sweep_one_def)
    with Cons.IH show ?case by simp
  qed simp
  show q: "store_quiet ?st1 (sweep now expiry st)"
    using store_wf_maps [OF wf] unfolding sweep_def Let_def by (intro fold store_quiet_refl) simp
  then show "cores (sweep now expiry st) = cores st" "notified (sweep now expiry st) = notified st"
    by (simp_all add: store_quiet_def cores_def fun_eq_iff)
qed

lemma takeover_sweep:
  assumes inv: "takeover_inv st T" and wf: "store_wf st"
  shows "takeover_inv (sweep now expiry st) T"
proof -
  let ?st1 = "st\<lparr>st_registry := (st_registry st)\<lparr>sessions :=
      hm_retain (\<lambda>_ r. \<not> ref_expired now expiry st r) (sessions (st_registry st))\<rparr>\<rparr>"
  note q = sweep_quiet(1) [OF wf, of now expiry]
  have maps: "hm_wf (sessions (st_registry st))" using store_wf_maps [OF wf] by auto
  have "takeover_inv ?st1 T"
  proof (rule takeover_shrink [OF inv])
    fix r show "case cores st r of None \<Rightarrow> cores ?st1 r = None
        | Some (e, sk, k, i, m) \<Rightarrow> \<exists>sk' k'. cores ?st1 r = Some (e, sk', k', i, m) \<and> (sk' = None \<or> sk' = sk)"
      by (auto simp: cores_def split: option.split)
  next
    fix c o' assume "current st c o'"
    then obtain m where cc: "cores st (cl_session (oc_client o')) = Some (oc_epoch o', Some c, Some c, cl_id (oc_client o'), m)"
      and rr: "registered st (cl_id (oc_client o')) = Some (cl_session (oc_client o'))"
      by (auto simp: current_def)
    from cc obtain s where s: "hm_get (st_heap st) (cl_session (oc_client o')) = Some s" "sink (inner s) = Some c"
      by (auto simp: cores_def core_def)
    with store_wf_session [OF wf] have "offline_since (inner s) = None" by (force simp: session_inv_def)
    with s(1) have "\<not> ref_expired now expiry st (cl_session (oc_client o'))" by (simp add: ref_expired_def expired_def)
    with rr maps have "registered ?st1 (cl_id (oc_client o')) = Some (cl_session (oc_client o'))"
      by (simp add: hm_get_retain)
    moreover have "cores ?st1 = cores st" by (simp add: cores_def fun_eq_iff)
    ultimately show "told ?st1 c o' \<or> current ?st1 c o'" using cc by (simp add: current_def)
  qed simp
  with q show ?thesis by (rule takeover_quiet [rotated])
qed

end
