(* ===== verification/Concurrent.thy ===== *)
theory Concurrent
  imports Takeover
begin

text \<open>
  A running node with everything at once: the accept loops of \<open>run\<close> (\<open>lib.rs\<close>), any number of
  connections between their accept and the drop of their \<open>ConnGuard\<close>, the deliveries of the
  subscriptions to them, and the background tasks, all on one broker. A step is one accept, one
  packet of a connection's greeting, one event of its read loop handled to its end, its end, one
  locked section or one answered send of a delivery, or one round of a background task; \<open>conc_step\<close> lets any of them come next. A
  connection's number also names its outbound channel and its kick handle.
\<close>

section \<open>Definitions\<close>

text \<open>A spawned connection: before its CONNECT, with the identity of its client certificate; open;
  or ended, its guard not yet dropped.\<close>

datatype task = Waiting "string option" | Open oconn | Leaving

record ('c, 'l) cnode =
  cw_broker :: "('c, 'l) Broker"
  cw_tasks :: "(nat, task) hashmap"
  cw_next :: nat
  cw_threads :: "(nat \<times> thread) list"

definition open_at :: "('c, 'l) cnode \<Rightarrow> nat \<Rightarrow> oconn option" where
  "open_at w c = (case hm_get (cw_tasks w) c of Some (Open oc) \<Rightarrow> Some oc | _ \<Rightarrow> None)"

definition set_task :: "nat \<Rightarrow> task \<Rightarrow> ('c, 'l) cnode \<Rightarrow> ('c, 'l) cnode" where
  "set_task c t w = w\<lparr>cw_tasks := hm_insert c t (cw_tasks w)\<rparr>"

definition set_broker :: "('c, 'l) Broker \<Rightarrow> ('c, 'l) cnode \<Rightarrow> ('c, 'l) cnode" where
  "set_broker b w = w\<lparr>cw_broker := b\<rparr>"

subsection \<open>Accepting\<close>

text \<open>\<open>spawn_client\<close>: count, and reject above the limit.\<close>

definition spawn_task :: "string option \<Rightarrow> ('c, 'l) cnode \<Rightarrow> ('c, 'l) cnode" where
  "spawn_task cert w =
     (let b = cw_broker w; n = b_conn_count b + 1
      in (set_task (cw_next w)
           (if unat n > cfg_max_connections (b_cfg b) then Leaving else Waiting cert)
           (set_broker (b\<lparr>b_conn_count := n\<rparr>) w))\<lparr>cw_next := Suc (cw_next w)\<rparr>)"

text \<open>What the two accept loops see: a plain connection, a TLS one with the certificates it
  presented, a failed handshake, or a failed accept, after which the loop goes on.\<close>

datatype accepted = PlainStream | TlsStream "bytes list option" | HandshakeFailed | AcceptFailed

definition on_accept :: "tls_api \<Rightarrow> accepted \<Rightarrow> ('c, 'l) cnode \<Rightarrow> ('c, 'l) cnode" where
  "on_accept api a w =
     (case a of
        PlainStream \<Rightarrow> spawn_task None w
      | TlsStream presented \<Rightarrow> spawn_task (peer_cn api presented) w
      | HandshakeFailed \<Rightarrow> w
      | AcceptFailed \<Rightarrow> w)"

text \<open>The drop of the guard.\<close>

definition drop_guard :: "nat \<Rightarrow> ('c, 'l) cnode \<Rightarrow> ('c, 'l) cnode" where
  "drop_guard c w =
     (case hm_get (cw_tasks w) c of
        Some Leaving \<Rightarrow>
          (let b = cw_broker w
           in w\<lparr>cw_broker := b\<lparr>b_conn_count := b_conn_count b - 1\<rparr>, cw_tasks := hm_remove c (cw_tasks w)\<rparr>)
      | _ \<Rightarrow> w)"

subsection \<open>A connection\<close>

definition enter :: "oconn \<Rightarrow> ('c, 'l) Broker \<Rightarrow> ('c, 'l) conn" where
  "enter oc b = \<lparr>cn_client = oc_client oc, cn_broker = b, cn_out = oc_out oc, cn_room = oc_room oc\<rparr>"

text \<open>The first packet of \<open>serve\<close>, up to the attach; deliveries find the connection from here on.\<close>

definition attach_session ::
    "clocks \<Rightarrow> string \<Rightarrow> nat \<Rightarrow> nat \<Rightarrow> nat \<Rightarrow> string \<Rightarrow> Connect \<Rightarrow> ('c, 'l) Broker \<Rightarrow> oconn option \<times> ('c, 'l) Broker" where
  "attach_session now peer tx k room who c b =
     (let (cid, clean) = session_name (snd now) c;
          b = count connections_total_update b;
          (out, st) = attach cid who clean tx k (b_store b)
      in (map_option (\<lambda>ao.
            \<lparr>oc_client =
               \<lparr>cl_session = ao_session ao, cl_id = cid, cl_identity = who,
                cl_keep_alive = cp_keep_alive c, cl_will = cp_last_will c,
                cl_rate = RateLimiter_new (cfg_max_publish_rate (b_cfg b)) (fst now), cl_inflight = []\<rparr>,
             oc_clean = clean, oc_epoch = ao_epoch ao, oc_writer = True, oc_out = [], oc_room = room,
             oc_phase = Greeting (SendConnAck (ao_present ao) # Announce peer # map SendBacklog (ao_backlog ao))\<rparr>) out,
          b\<lparr>b_store := st\<rparr>))"

definition serve_first ::
    "('c, 'l) extern \<Rightarrow> clocks \<Rightarrow> string \<Rightarrow> nat \<Rightarrow> first_read \<Rightarrow> nat \<Rightarrow> ('c, 'l) cnode \<Rightarrow> ('c, 'l) cnode" where
  "serve_first x now peer room first c w =
     (case hm_get (cw_tasks w) c of
        Some (Waiting cert) \<Rightarrow>
          (case first of
             FirstPacket (PConnect cp) \<Rightarrow>
               (case connect_gate x now cert cp (cw_broker w) of
                  (Refused code, b) \<Rightarrow> set_task c Leaving (set_broker b w)
                | (Granted who, b) \<Rightarrow>
                    (case attach_session now peer c c room who cp b of
                       (None, b) \<Rightarrow> set_task c Leaving (set_broker b w)
                     | (Some oc, b) \<Rightarrow> set_task c (Open oc) (set_broker b w)))
           | _ \<Rightarrow> set_task c Leaving w)
      | _ \<Rightarrow> w)"

text \<open>One step from there to the read loop. A failed send leaves \<open>serve\<close> at once.\<close>

definition greet :: "('c, 'l) extern \<Rightarrow> bool \<Rightarrow> greeting \<Rightarrow> ('c, 'l) conn \<Rightarrow> (ConnError, unit) result \<times> ('c, 'l) conn" where
  "greet x clean g cn =
     (case g of
        SendConnAck present \<Rightarrow> send (PConnAck Success present) cn
      | Announce peer \<Rightarrow>
          (Inr (), on_broker (publish_client_event x (cl_id (cn_client cn))
             (''connect addr='' @ peer @ '' clean='' @ show_bool clean)) cn)
      | SendBacklog m \<Rightarrow> send_backlog_one m cn)"

text \<open>The connection's part after a handler.\<close>

definition leave :: "('c, 'l) conn \<Rightarrow> phase \<Rightarrow> oconn \<Rightarrow> oconn" where
  "leave cn ph oc = oc\<lparr>oc_client := cn_client cn, oc_out := cn_out cn, oc_room := cn_room cn, oc_phase := ph\<rparr>"

definition serve_greet :: "('c, 'l) extern \<Rightarrow> nat \<Rightarrow> ('c, 'l) cnode \<Rightarrow> ('c, 'l) cnode" where
  "serve_greet x c w =
     (case open_at w c of
        None \<Rightarrow> w
      | Some oc \<Rightarrow>
          (case oc_phase oc of
             Greeting [] \<Rightarrow> set_task c (Open (oc\<lparr>oc_phase := Serving\<rparr>)) w
           | Greeting (g # gs) \<Rightarrow>
               (case greet x (oc_clean oc) g (enter oc (cw_broker w)) of
                  (Inl _, cn) \<Rightarrow> set_task c Leaving (set_broker (cn_broker cn) w)
                | (Inr _, cn) \<Rightarrow> set_task c (Open (leave cn (Greeting gs) oc)) (set_broker (cn_broker cn) w))
           | _ \<Rightarrow> w))"

text \<open>One event of \<open>run\<close>, and the end of \<open>serve\<close> after it left the loop.\<close>

definition serve_event :: "('c, 'l) extern \<Rightarrow> clocks \<times> event \<Rightarrow> nat \<Rightarrow> ('c, 'l) cnode \<Rightarrow> ('c, 'l) cnode" where
  "serve_event x ne c w =
     (case open_at w c of
        None \<Rightarrow> w
      | Some oc \<Rightarrow>
          if oc_phase oc \<noteq> Serving then w
          else
            (case run_event x ne (enter oc (cw_broker w)) of
               (fl, cn) \<Rightarrow>
                 set_task c (Open (leave cn (case fl of Continue \<Rightarrow> Serving | Break r \<Rightarrow> Closing r) oc))
                   (set_broker (cn_broker cn) w)))"

definition serve_close :: "('c, 'l) extern \<Rightarrow> clocks \<Rightarrow> nat \<Rightarrow> ('c, 'l) cnode \<Rightarrow> ('c, 'l) cnode" where
  "serve_close x now c w =
     (case open_at w c of
        None \<Rightarrow> w
      | Some oc \<Rightarrow>
          (case oc_phase oc of
             Closing r \<Rightarrow>
               set_task c Leaving
                 (set_broker (cn_broker (close_session x now (oc_clean oc) (oc_epoch oc) r (enter oc (cw_broker w)))) w)
           | _ \<Rightarrow> w))"

text \<open>The writer task ends, because the socket failed.\<close>

definition writer_dies :: "nat \<Rightarrow> ('c, 'l) cnode \<Rightarrow> ('c, 'l) cnode" where
  "writer_dies c w =
     (case hm_get (cw_tasks w) c of
        Some (Open oc) \<Rightarrow> set_task c (Open (oc\<lparr>oc_writer := False, oc_room := 0\<rparr>)) w
      | _ \<Rightarrow> w)"

subsection \<open>Deliveries\<close>

text \<open>What the channel of connection \<open>c\<close> can answer a delivery of session \<open>r\<close>: it takes the packet while the writer has room for
  it, it is closed when the connection or its writer is gone, and it may stay full for longer
  than the grace period.\<close>

definition channel_answers :: "('c, 'l) cnode \<Rightarrow> nat \<Rightarrow> nat \<Rightarrow> SendOutcome \<Rightarrow> bool" where
  "channel_answers w r c outcome \<longleftrightarrow>
     (case open_at w c of
        None \<Rightarrow> outcome = SendClosed
      | Some oc \<Rightarrow>
          (case outcome of
             SendOk \<Rightarrow> 0 < oc_room oc
           | SendTimeout \<Rightarrow>
               (case hm_get (st_heap (b_store (cw_broker w))) r of None \<Rightarrow> False | Some s \<Rightarrow> slow_grace s \<noteq> None)
           | SendClosed \<Rightarrow> \<not> oc_writer oc))"

text \<open>A sample reaches the task of a subscription of session \<open>r\<close>.\<close>

definition new_sample :: "nat \<Rightarrow> string \<Rightarrow> QoS \<Rightarrow> bytes \<Rightarrow> ('c, 'l) cnode \<Rightarrow> ('c, 'l) cnode" where
  "new_sample r ke q payload w =
     (case keyexpr_to_topic ke (cfg_scope (b_cfg (cw_broker w))) of
        None \<Rightarrow> w
      | Some t \<Rightarrow>
          w\<lparr>cw_threads := cw_threads w @ [(r, \<lparr>th_topic = t, th_payload = payload, th_qos = q, th_pc = AtLoop\<rparr>)]\<rparr>)"

definition push_packet :: "nat \<Rightarrow> Packet \<Rightarrow> ('c, 'l) cnode \<Rightarrow> ('c, 'l) cnode" where
  "push_packet c p w =
     (case hm_get (cw_tasks w) c of
        Some (Open oc) \<Rightarrow> set_task c (Open (oc\<lparr>oc_out := oc_out oc @ [p], oc_room := oc_room oc - 1\<rparr>)) w
      | _ \<Rightarrow> w)"

text \<open>The counter of \<open>forward\<close> when a delivery is done.\<close>

definition count_delivery :: "Delivery \<Rightarrow> ('c, 'l) Broker \<Rightarrow> ('c, 'l) Broker" where
  "count_delivery d b =
     (case d of
        Sent \<Rightarrow> count messages_out_total_update b
      | Queued \<Rightarrow> count messages_queued_total_update b
      | Dropped \<Rightarrow> b)"

definition delivery_step :: "nat \<Rightarrow> instant \<Rightarrow> SendOutcome \<Rightarrow> ('c, 'l) cnode \<Rightarrow> ('c, 'l) cnode" where
  "delivery_step i now outcome w =
     (case get_at (cw_threads w) i of
        None \<Rightarrow> w
      | Some (r, th) \<Rightarrow>
          (let b = cw_broker w; st = b_store b
           in case hm_get (st_heap st) r of
                None \<Rightarrow> w
              | Some s \<Rightarrow>
                  (case deliver_step (th_topic th) (th_payload th) (th_qos th) now outcome (th_pc th, s, st_env st) of
                     (pc, s', e') \<Rightarrow>
                       (let b = b\<lparr>b_store := (with_session r s' st)\<lparr>st_env := e'\<rparr>\<rparr>;
                            b = (case (th_pc th, pc) of (Done _, _) \<Rightarrow> b | (_, Done d) \<Rightarrow> count_delivery d b | _ \<Rightarrow> b);
                            w = (set_broker b w)\<lparr>cw_threads := (cw_threads w)[i := (r, th\<lparr>th_pc := pc\<rparr>)]\<rparr>
                        in case th_pc th of
                             AtSend tx p \<Rightarrow> if outcome = SendOk then push_packet tx (PPublish p) w else w
                           | _ \<Rightarrow> w))))"

subsection \<open>Background tasks\<close>

inductive upkeep_step :: "('c, 'l) extern \<Rightarrow> ('c, 'l) Broker \<Rightarrow> ('c, 'l) Broker \<Rightarrow> bool" for x where
  sweeping: "upkeep_step x b (b\<lparr>b_store := sweep now (unat (cfg_session_expiry_secs (b_cfg b)) * 10 ^ 9) (b_store b)\<rparr>)"
| replication: "upkeep_step x b
    (b\<lparr>b_retained := on_retained_sample (x_cache x) (cfg_scope (b_cfg b)) ke kind raw (b_retained b)\<rparr>)"
| catching_up: "upkeep_step x b (b\<lparr>b_retained := on_catch_up_reply (x_cache x) (cfg_scope (b_cfg b)) (b_retained b) reply\<rparr>)"
| saving: "persist_tick path (b_retained b, env_fs (st_env (b_store b))) = (rs, fs) \<Longrightarrow>
    upkeep_step x b (b\<lparr>b_retained := rs, b_store := (b_store b)\<lparr>st_env := (st_env (b_store b))\<lparr>env_fs := fs\<rparr>\<rparr>\<rparr>)"
| statistics: "upkeep_step x b (sys_tick x version uptime b)"

subsection \<open>Everything at once\<close>

text \<open>Two bounds keep the counters from wrapping: fewer than \<open>2^64 - 1\<close> connections at a time, and
  fewer than \<open>2^64 - 1\<close> attachments of one session.\<close>

definition epochs_left :: "store \<Rightarrow> bool" where
  "epochs_left st \<longleftrightarrow> (\<forall>(r, s) \<in> set (st_heap st). unat (epoch (inner s)) < 2 ^ 64 - 1)"

inductive conc_step :: "('c, 'l) extern \<Rightarrow> tls_api \<Rightarrow> ('c, 'l) cnode \<Rightarrow> ('c, 'l) cnode \<Rightarrow> bool" for x api where
  accept: "unat (b_conn_count (cw_broker w)) < 2 ^ 64 - 1 \<Longrightarrow> conc_step x api w (on_accept api a w)"
| first: "epochs_left (b_store (cw_broker w)) \<Longrightarrow> conc_step x api w (serve_first x now peer room fr c w)"
| event: "(ev = KickSignal \<longrightarrow> c \<in> notified (b_store (cw_broker w))) \<Longrightarrow>
    conc_step x api w (serve_event x (now, ev) c w)"
| greeting: "conc_step x api w (serve_greet x c w)"
| closing: "conc_step x api w (serve_close x now c w)"
| guard: "conc_step x api w (drop_guard c w)"
| writer: "conc_step x api w (writer_dies c w)"
| sample: "hm_get (st_heap (b_store (cw_broker w))) r = Some s \<Longrightarrow> hm_get (subs (inner s)) f = Some entry \<Longrightarrow>
    conc_step x api w (new_sample r ke (sub_qos entry) payload w)"
| delivery: "(\<forall>r th tx p. get_at (cw_threads w) i = Some (r, th) \<and> th_pc th = AtSend tx p \<longrightarrow> channel_answers w r tx outcome) \<Longrightarrow>
    conc_step x api w (delivery_step i now outcome w)"
| upkeep: "upkeep_step x (cw_broker w) b \<Longrightarrow> conc_step x api w (set_broker b w)"

definition cnode_start :: "('c, 'l) Broker \<Rightarrow> ('c, 'l) cnode" where
  "cnode_start b = \<lparr>cw_broker = b, cw_tasks = [], cw_next = 0, cw_threads = []\<rparr>"

end
