(* ===== verification/Concurrent_Safety.thy ===== *)
theory Concurrent_Safety
  imports Concurrent
begin

text \<open>
  What holds in every reachable state of a node with all its connections, deliveries and
  background tasks interleaved: the invariant \<open>conc_inv\<close>, one preservation lemma per kind of
  step, and the properties that follow from it.
\<close>

section \<open>The invariant\<close>

definition waiting :: "('c, 'l) cnode \<Rightarrow> nat \<Rightarrow> bool" where
  "waiting w c \<longleftrightarrow> (\<exists>cert. hm_get (cw_tasks w) c = Some (Waiting cert))"

abbreviation store_of :: "('c, 'l) cnode \<Rightarrow> store" where
  "store_of w \<equiv> b_store (cw_broker w)"

text \<open>A PUBLISH carries a packet identifier exactly when its level needs one; the writer can encode
  every packet.\<close>

definition packet_wf :: "Packet \<Rightarrow> bool" where
  "packet_wf p \<longleftrightarrow> encodable p \<and> (case p of PPublish pb \<Rightarrow> p_pkid pb = 0 \<longleftrightarrow> p_qos pb = AtMostOnce | _ \<Rightarrow> True)"

text \<open>A delivery waits on a channel of its own session, and after a failed send the connection has
  been told, or its writer is gone.\<close>

definition thread_ok :: "('c, 'l) cnode \<Rightarrow> nat \<Rightarrow> deliver_pc \<Rightarrow> bool" where
  "thread_ok w r pc \<longleftrightarrow>
     (\<exists>e sk k i m. cores (store_of w) r = Some (e, sk, k, i, m) \<and> (pc = AtQueue \<longrightarrow> 0 < m))
   \<and> (case pc of
        AtSend tx p \<Rightarrow>
          tx < cw_next w \<and> \<not> waiting w tx \<and> (\<forall>oc. open_at w tx = Some oc \<longrightarrow> cl_session (oc_client oc) = r)
          \<and> packet_wf (PPublish p)
      | AtClear tx \<Rightarrow> tx < cw_next w \<and> \<not> waiting w tx \<and> (\<forall>oc. open_at w tx = Some oc \<longrightarrow> told (store_of w) tx oc)
      | _ \<Rightarrow> True)"

definition counts_ok :: "('c, 'l) cnode \<Rightarrow> bool" where
  "counts_ok w \<longleftrightarrow>
     hm_wf (cw_tasks w) \<and> (\<forall>c t. hm_get (cw_tasks w) c = Some t \<longrightarrow> c < cw_next w)
   \<and> unat (b_conn_count (cw_broker w)) = card (dom (hm_get (cw_tasks w)))
   \<and> card {c. \<exists>t. hm_get (cw_tasks w) c = Some t \<and> t \<noteq> Leaving} \<le> cfg_max_connections (b_cfg (cw_broker w))"

definition sinks_ok :: "('c, 'l) cnode \<Rightarrow> bool" where
  "sinks_ok w \<longleftrightarrow> (\<forall>r e c k i m. cores (store_of w) r = Some (e, Some c, k, i, m) \<longrightarrow> c < cw_next w \<and> \<not> waiting w c)"

definition outs_ok :: "('c, 'l) cnode \<Rightarrow> bool" where
  "outs_ok w \<longleftrightarrow> (\<forall>c oc. open_at w c = Some oc \<longrightarrow> list_all packet_wf (oc_out oc))"

definition conc_inv :: "('c, 'l) extern \<Rightarrow> NodeConfig \<Rightarrow> ('c, 'l) cnode \<Rightarrow> bool" where
  "conc_inv x cfg w \<longleftrightarrow>
     node_inv x cfg (cw_broker w) \<and> counts_ok w \<and> takeover_inv (store_of w) (open_at w) \<and> sinks_ok w \<and> outs_ok w
   \<and> (\<forall>(r, th) \<in> set (cw_threads w). thread_ok w r (th_pc th))"

lemma conc_invI:
  assumes "node_inv x cfg (cw_broker w)" and "counts_ok w" and "takeover_inv (store_of w) (open_at w)"
    and "sinks_ok w" and "outs_ok w" and "\<And>r th. (r, th) \<in> set (cw_threads w) \<Longrightarrow> thread_ok w r (th_pc th)"
  shows "conc_inv x cfg w"
  using assms unfolding conc_inv_def by auto

lemma conc_invD:
  assumes "conc_inv x cfg w"
  shows "node_inv x cfg (cw_broker w)" and "counts_ok w" and "takeover_inv (store_of w) (open_at w)"
    and "sinks_ok w" and "outs_ok w" and "(r, th) \<in> set (cw_threads w) \<Longrightarrow> thread_ok w r (th_pc th)"
  using assms unfolding conc_inv_def by auto

lemma inv_store: "conc_inv x cfg w \<Longrightarrow> store_wf (store_of w)"
  by (simp add: conc_inv_def node_inv_def broker_ok_def)

section \<open>The tasks\<close>

lemma set_simps [simp]:
  "cw_broker (set_task c t w) = cw_broker w" "cw_next (set_task c t w) = cw_next w" "cw_threads (set_task c t w) = cw_threads w"
  "cw_tasks (set_task c t w) = hm_insert c t (cw_tasks w)"
  "cw_broker (set_broker b w) = b" "cw_next (set_broker b w) = cw_next w" "cw_threads (set_broker b w) = cw_threads w"
  "cw_tasks (set_broker b w) = cw_tasks w"
  by (simp_all add: set_task_def set_broker_def)

lemma open_at_Some: "open_at w c = Some oc \<longleftrightarrow> hm_get (cw_tasks w) c = Some (Open oc)"
  by (simp add: open_at_def split: option.split task.split)

lemma open_at_set:
  "hm_wf (cw_tasks w) \<Longrightarrow> open_at (set_task c t w) = (case t of Open oc \<Rightarrow> (open_at w)(c \<mapsto> oc) | _ \<Rightarrow> (open_at w)(c := None))"
  by (auto simp: open_at_def fun_eq_iff split: task.split)

lemma open_at_broker [simp]: "open_at (set_broker b w) = open_at w" "waiting (set_broker b w) = waiting w"
  by (simp_all add: open_at_def waiting_def fun_eq_iff)

lemma waiting_set: "hm_wf (cw_tasks w) \<Longrightarrow> waiting (set_task c t w) d \<longleftrightarrow> (if d = c then \<exists>cert. t = Waiting cert else waiting w d)"
  by (simp add: waiting_def)

text \<open>Replacing a task by another one.\<close>

lemma counts_set:
  assumes "counts_ok w" and "hm_get (cw_tasks w) c = Some t0" and "t0 = Leaving \<longrightarrow> t = Leaving"
  shows "counts_ok (set_task c t w)"
proof -
  have wf: "hm_wf (cw_tasks w)" using assms(1) by (simp add: counts_ok_def)
  have "dom (hm_get (cw_tasks (set_task c t w))) = dom (hm_get (cw_tasks w))" using wf assms(2) by (auto simp: dom_def)
  moreover have "{d. \<exists>t'. hm_get (cw_tasks (set_task c t w)) d = Some t' \<and> t' \<noteq> Leaving}
      \<subseteq> {d. \<exists>t'. hm_get (cw_tasks w) d = Some t' \<and> t' \<noteq> Leaving}"
    using wf assms(2,3) by auto
  moreover have "finite {d. \<exists>t'. hm_get (cw_tasks w) d = Some t' \<and> t' \<noteq> Leaving}"
    by (rule finite_subset [OF _ hm.keys_finite [OF wf]]) auto
  ultimately show ?thesis using assms wf by (auto simp: counts_ok_def intro: order_trans [OF card_mono])
qed

lemma counts_broker:
  assumes "counts_ok w" and "b_conn_count b = b_conn_count (cw_broker w)" and "b_cfg b = b_cfg (cw_broker w)"
  shows "counts_ok (set_broker b w)"
  using assms by (simp add: counts_ok_def)

section \<open>Growth\<close>

text \<open>What a step may do to the others: sessions stay, their bounds stay, kicks stay, nobody starts to
  wait under an old number, and an open connection was waiting or open with the same owner.\<close>

definition grows :: "('c, 'l) cnode \<Rightarrow> ('c, 'l) cnode \<Rightarrow> bool" where
  "grows w w' \<longleftrightarrow>
     cw_next w \<le> cw_next w' \<and> notified (store_of w) \<subseteq> notified (store_of w')
   \<and> (\<forall>c < cw_next w. waiting w' c \<longrightarrow> waiting w c)
   \<and> (\<forall>c oc. open_at w' c = Some oc \<longrightarrow> waiting w c \<or> (\<exists>o0. open_at w c = Some o0 \<and> same_owner o0 oc))
   \<and> (\<forall>r e sk k i m. cores (store_of w) r = Some (e, sk, k, i, m) \<longrightarrow>
        (\<exists>e' sk' k' i'. cores (store_of w') r = Some (e', sk', k', i', m)))"

lemma thread_ok_grows:
  assumes "thread_ok w r pc" and "grows w w'"
  shows "thread_ok w' r pc"
proof -
  have 1: "\<exists>e sk k i m. cores (store_of w') r = Some (e, sk, k, i, m) \<and> (pc = AtQueue \<longrightarrow> 0 < m)"
  proof -
    from assms(1) obtain e sk k i m where "cores (store_of w) r = Some (e, sk, k, i, m)" "pc = AtQueue \<longrightarrow> 0 < m"
      unfolding thread_ok_def by blast
    with assms(2) show ?thesis unfolding grows_def by blast
  qed
  have 2: "tx < cw_next w' \<and> \<not> waiting w' tx
      \<and> (\<forall>oc. open_at w' tx = Some oc \<longrightarrow> (\<exists>o0. open_at w tx = Some o0 \<and> same_owner o0 oc))"
    if "tx < cw_next w" "\<not> waiting w tx" for tx
    using that assms(2) unfolding grows_def by auto
  have 3: "told (store_of w') tx oc" if "told (store_of w) tx o0" "same_owner o0 oc" for tx o0 oc
    using that assms(2) by (auto simp: grows_def told_def same_owner_def)
  show ?thesis
  proof (cases pc)
    case (AtSend tx p)
    with assms(1) 1 2 [of tx] show ?thesis by (auto simp: thread_ok_def same_owner_def)
  next
    case (AtClear tx)
    with assms(1) 1 2 [of tx] 3 show ?thesis by (fastforce simp: thread_ok_def)
  qed (use 1 in \<open>auto simp: thread_ok_def\<close>)
qed

lemma same_owner_refl [simp]: "same_owner oc oc"
  by (simp add: same_owner_def)

lemma grows_store:
  assumes "hm_wf (cw_tasks w)" and "store_quiet (store_of w) (b_store b)"
  shows "grows w (set_broker b w)"
  using assms by (auto simp: grows_def store_quiet_def)

text \<open>A step that leaves the deliveries alone.\<close>

lemma conc_inv_grow:
  assumes inv: "conc_inv x cfg w" and "node_inv x cfg (cw_broker w')" and "counts_ok w'"
    and "takeover_inv (store_of w') (open_at w')" and "sinks_ok w'" and "outs_ok w'"
    and "grows w w'" and "cw_threads w' = cw_threads w"
  shows "conc_inv x cfg w'"
  using assms(2-6) conc_invD(6) [OF inv] thread_ok_grows [OF _ assms(7)] assms(8)
  by (intro conc_invI) auto

section \<open>Accepting and leaving\<close>

lemma node_inv_count: "node_inv x cfg b \<Longrightarrow> node_inv x cfg (b\<lparr>b_conn_count := n\<rparr>)"
  using node_step_inv [OF _ node_step.conn_counting] .

lemma spawn_inv:
  assumes inv: "conc_inv x cfg w" and room: "unat (b_conn_count (cw_broker w)) < 2 ^ 64 - 1"
  shows "conc_inv x cfg (spawn_task cert w)"
proof -
  let ?n = "b_conn_count (cw_broker w) + 1" and ?c = "cw_next w"
  let ?t = "if unat ?n > cfg_max_connections (b_cfg (cw_broker w)) then Leaving else Waiting cert"
  let ?w = "spawn_task cert w"
  have c: "counts_ok w" using conc_invD(2) [OF inv] .
  then have wf: "hm_wf (cw_tasks w)" by (simp add: counts_ok_def)
  have new: "hm_get (cw_tasks w) ?c = None"
    using c by (cases "hm_get (cw_tasks w) ?c") (fastforce simp: counts_ok_def)+
  have n: "unat ?n = Suc (unat (b_conn_count (cw_broker w)))" using room by (simp add: unat_word_ariths)
  have fields: "cw_broker ?w = (cw_broker w)\<lparr>b_conn_count := ?n\<rparr>" "cw_tasks ?w = hm_insert ?c ?t (cw_tasks w)"
    "cw_next ?w = Suc ?c" "cw_threads ?w = cw_threads w"
    by (simp_all add: spawn_task_def Let_def)
  have get: "hm_get (cw_tasks ?w) d = (if d = ?c then Some ?t else hm_get (cw_tasks w) d)" for d
    using wf by (simp add: fields)
  have op: "open_at ?w = open_at w" using new by (auto simp: open_at_def get fun_eq_iff)
  have wait: "d < ?c \<Longrightarrow> waiting ?w d = waiting w d" for d by (simp add: waiting_def get)
  let ?act = "\<lambda>w. {d. \<exists>t. hm_get (cw_tasks w) d = Some t \<and> t \<noteq> Leaving}"
  have fin: "finite (dom (hm_get (cw_tasks w)))" by (rule hm.keys_finite [OF wf])
  have dom: "dom (hm_get (cw_tasks ?w)) = insert ?c (dom (hm_get (cw_tasks w)))" by (auto simp: get dom_def)
  have "card (dom (hm_get (cw_tasks ?w))) = unat ?n" using c n new fin by (simp add: dom counts_ok_def domIff)
  moreover have "card (?act ?w) \<le> cfg_max_connections (b_cfg (cw_broker w))"
  proof (cases "unat ?n > cfg_max_connections (b_cfg (cw_broker w))")
    case True
    then have "?act ?w = ?act w" using new by (auto simp: get)
    with c show ?thesis by (simp add: counts_ok_def)
  next
    case False
    have "?act ?w \<subseteq> dom (hm_get (cw_tasks ?w))" by auto
    then have "card (?act ?w) \<le> card (dom (hm_get (cw_tasks ?w)))" using fin by (intro card_mono) (simp_all add: dom)
    with False \<open>card (dom (hm_get (cw_tasks ?w))) = unat ?n\<close> show ?thesis by simp
  qed
  moreover have "\<forall>d t. hm_get (cw_tasks ?w) d = Some t \<longrightarrow> d < cw_next ?w" using c by (auto simp: get fields counts_ok_def less_Suc_eq)
  ultimately have counts: "counts_ok ?w" using wf by (simp add: counts_ok_def fields)
  have sinks: "sinks_ok ?w" using conc_invD(4) [OF inv] wait by (auto simp: sinks_ok_def fields less_Suc_eq)
  have outs: "outs_ok ?w" using conc_invD(5) [OF inv] by (simp add: outs_ok_def op)
  have grow: "grows w ?w" using wait by (auto simp: grows_def fields op)
  show ?thesis
    by (rule conc_inv_grow [OF inv _ counts _ sinks outs grow])
      (simp_all add: fields op node_inv_count conc_invD(1) [OF inv] conc_invD(3) [OF inv])
qed

lemma accept_inv:
  "conc_inv x cfg w \<Longrightarrow> unat (b_conn_count (cw_broker w)) < 2 ^ 64 - 1 \<Longrightarrow> conc_inv x cfg (on_accept api a w)"
  by (cases a) (simp_all add: on_accept_def spawn_inv)

lemma guard_inv:
  assumes inv: "conc_inv x cfg w"
  shows "conc_inv x cfg (drop_guard c w)"
proof (cases "hm_get (cw_tasks w) c = Some Leaving")
  case True
  let ?w = "drop_guard c w"
  have co: "counts_ok w" using conc_invD(2) [OF inv] .
  then have wf: "hm_wf (cw_tasks w)" by (simp add: counts_ok_def)
  have fields: "cw_broker ?w = (cw_broker w)\<lparr>b_conn_count := b_conn_count (cw_broker w) - 1\<rparr>"
    "cw_tasks ?w = hm_remove c (cw_tasks w)" "cw_next ?w = cw_next w" "cw_threads ?w = cw_threads w"
    by (simp_all add: drop_guard_def True Let_def)
  have get: "hm_get (cw_tasks ?w) d = (if d = c then None else hm_get (cw_tasks w) d)" for d using wf by (simp add: fields)
  have op: "open_at ?w = open_at w" using True by (auto simp: open_at_def get fun_eq_iff)
  have wait: "waiting ?w d = waiting w d" for d using True by (auto simp: waiting_def get)
  have fin: "finite (dom (hm_get (cw_tasks w)))" by (rule hm.keys_finite [OF wf])
  have dom: "dom (hm_get (cw_tasks ?w)) = dom (hm_get (cw_tasks w)) - {c}" by (auto simp: get dom_def)
  have "c \<in> dom (hm_get (cw_tasks w))" using True by blast
  from card.remove [OF fin this] co have "unat (b_conn_count (cw_broker w)) = Suc (card (dom (hm_get (cw_tasks ?w))))"
    by (simp only: counts_ok_def dom)
  then have "unat (b_conn_count (cw_broker ?w)) = card (dom (hm_get (cw_tasks ?w)))"
    using unat_count_down by (simp add: fields)
  moreover have "{d. \<exists>t. hm_get (cw_tasks ?w) d = Some t \<and> t \<noteq> Leaving} = {d. \<exists>t. hm_get (cw_tasks w) d = Some t \<and> t \<noteq> Leaving}"
    using True by (auto simp: get)
  moreover have "\<forall>d t. hm_get (cw_tasks ?w) d = Some t \<longrightarrow> d < cw_next ?w" using co by (simp add: get fields counts_ok_def)
  ultimately have counts: "counts_ok ?w" using wf co by (simp add: counts_ok_def fields)
  have sinks: "sinks_ok ?w" using conc_invD(4) [OF inv] by (simp add: sinks_ok_def fields wait)
  have outs: "outs_ok ?w" using conc_invD(5) [OF inv] by (simp add: outs_ok_def op)
  have grow: "grows w ?w" by (auto simp: grows_def fields op wait)
  show ?thesis
    by (rule conc_inv_grow [OF inv _ counts _ sinks outs grow])
      (simp_all add: fields op node_inv_count conc_invD(1) [OF inv] conc_invD(3) [OF inv])
qed (use inv in \<open>auto simp: drop_guard_def split: option.splits task.splits\<close>)

section \<open>One connection\<close>

lemma node_inv_adds:
  assumes "node_inv x cfg b" and "broker_ok x b'" and "b_adds who b b'"
  shows "node_inv x cfg b'"
proof -
  obtain ops where ops: "b_bus b' = b_bus b @ ops" "\<forall>w\<in>set ops. confined (b_cfg b) (b_acl b) who w"
    "b_cfg b' = b_cfg b" "b_acl b' = b_acl b"
    using assms(3) by (auto simp: b_adds_def)
  then have "list_all (node_write_ok (b_cfg b) (b_acl b)) ops" unfolding list_all_iff node_write_ok_def by blast
  with assms(1,2) ops show ?thesis by (auto simp: node_inv_def)
qed

lemma packet_typed_wf: "packet_typed p \<Longrightarrow> packet_wf p"
  by (cases p) (auto simp: packet_typed_def packet_wf_def)

lemma out_typed_wf: "out_typed cn cn' \<Longrightarrow> list_all packet_wf (cn_out cn) \<Longrightarrow> list_all packet_wf (cn_out cn')"
  by (auto simp: out_typed_def list_all_iff packet_typed_wf)

lemma close_session_store:
  "b_store (cn_broker (close_session x now clean ep r cn))
     = detach (fst now) (cl_session (cn_client cn)) ep clean (b_store (cn_broker cn))
   \<and> b_conn_count (cn_broker (close_session x now clean ep r cn)) = b_conn_count (cn_broker cn)"
  by (auto simp: close_session_def fire_will_def publish_client_event_def bus_write_def Let_def on_broker_def
      split: sum.split option.split)

definition shrinks :: "store \<Rightarrow> store \<Rightarrow> bool" where
  "shrinks st st' \<longleftrightarrow> notified st \<subseteq> notified st' \<and>
     (\<forall>r. case cores st r of None \<Rightarrow> cores st' r = None
      | Some (e, sk, k, i, m) \<Rightarrow> \<exists>sk' k'. cores st' r = Some (e, sk', k', i, m) \<and> (sk' = None \<or> sk' = sk))"

lemma shrinks_quiet: "store_quiet st st' \<Longrightarrow> shrinks st st'"
  by (auto simp: shrinks_def store_quiet_def split: option.split)

lemma shrinks_detach:
  assumes "store_wf st"
  shows "shrinks st (detach now r ep clean st)"
proof -
  have "shrinks st st" by (auto simp: shrinks_def split: option.split)
  moreover have "shrinks st st'" if "cores st r = Some (ep, sk, k, i, m)" "cores st' r = Some (ep, None, None, i, m)"
    "\<forall>r'. r' \<noteq> r \<longrightarrow> cores st' r' = cores st r'" "notified st' = notified st" for st' sk k i m
    unfolding shrinks_def
  proof (intro conjI allI)
    fix r' show "case cores st r' of None \<Rightarrow> cores st' r' = None
        | Some (e, sk, k, i, m) \<Rightarrow> \<exists>sk' k'. cores st' r' = Some (e, sk', k', i, m) \<and> (sk' = None \<or> sk' = sk)"
      using that by (cases "r' = r") (auto split: option.split)
  qed (use that in simp)
  ultimately show ?thesis using detach_effect [OF assms, of now r ep clean] by metis
qed

lemma shrinks_old: "shrinks st st' \<Longrightarrow> cores st' r = Some (e, Some c, k, i, m) \<Longrightarrow> \<exists>k0. cores st r = Some (e, Some c, k0, i, m)"
  unfolding shrinks_def by (erule conjE, drule spec [of _ r]) (auto split: option.splits prod.splits)

lemma shrinks_new: "shrinks st st' \<Longrightarrow> cores st r = Some (e, sk, k, i, m) \<Longrightarrow> \<exists>sk' k'. cores st' r = Some (e, sk', k', i, m)"
  unfolding shrinks_def by (erule conjE, drule spec [of _ r]) auto

text \<open>What a step at connection \<open>c\<close>, already open, does to the rest: its task stays open with the
  same owner or ends.\<close>

lemma conn_step_inv:
  assumes inv: "conc_inv x cfg w" and c: "open_at w c = Some oc"
    and node: "node_inv x cfg b" and cnt: "b_conn_count b = b_conn_count (cw_broker w)"
    and sh: "shrinks (store_of w) (b_store b)"
    and t: "t = Leaving \<or> (\<exists>p. t = Open p \<and> same_owner oc p \<and> list_all packet_wf (oc_out p))"
    and tk: "takeover_inv (b_store b) (case t of Open p \<Rightarrow> (open_at w)(c \<mapsto> p) | _ \<Rightarrow> (open_at w)(c := None))"
  shows "conc_inv x cfg (set_task c t (set_broker b w))"
proof -
  let ?w = "set_task c t (set_broker b w)"
  have wf: "hm_wf (cw_tasks w)" using conc_invD(2) [OF inv] by (simp add: counts_ok_def)
  have op: "open_at ?w = (case t of Open p \<Rightarrow> (open_at w)(c \<mapsto> p) | _ \<Rightarrow> (open_at w)(c := None))"
    using wf open_at_set [of "set_broker b w" c t] by (simp split: task.split)
  have wait: "waiting ?w d \<longrightarrow> waiting w d" for d
    using wf t waiting_set [of "set_broker b w" c t d] by auto
  have cfg: "b_cfg b = b_cfg (cw_broker w)" using node conc_invD(1) [OF inv] by (simp add: node_inv_def)
  have "counts_ok (set_broker b w)" using counts_broker [OF conc_invD(2) [OF inv] cnt cfg] .
  then have counts: "counts_ok ?w" using c by (intro counts_set [of _ _ "Open oc"]) (simp_all add: open_at_Some)
  have sinks: "sinks_ok ?w"
    unfolding sinks_ok_def
  proof (intro allI impI)
    fix r e d k i m assume "cores (store_of ?w) r = Some (e, Some d, k, i, m)"
    then have "cores (b_store b) r = Some (e, Some d, k, i, m)" by simp
    from shrinks_old [OF sh this] obtain k0 where "cores (store_of w) r = Some (e, Some d, k0, i, m)" ..
    with conc_invD(4) [OF inv] have "d < cw_next w \<and> \<not> waiting w d" unfolding sinks_ok_def by blast
    with wait show "d < cw_next ?w \<and> \<not> waiting ?w d" by auto
  qed
  have outs: "outs_ok ?w" using conc_invD(5) [OF inv] t by (auto simp: outs_ok_def op split: if_splits)
  have grow: "grows w ?w"
    unfolding grows_def
  proof (intro conjI allI impI)
    show "cw_next w \<le> cw_next ?w" by simp
    show "notified (store_of w) \<subseteq> notified (store_of ?w)" using sh by (simp add: shrinks_def)
    show "waiting w d" if "waiting ?w d" for d using that wait by blast
    show "waiting w d \<or> (\<exists>o0. open_at w d = Some o0 \<and> same_owner o0 p)" if "open_at ?w d = Some p" for d p
    proof (cases "d = c")
      case True
      with that t c show ?thesis by (auto simp: op)
    next
      case False
      with that t have "open_at w d = Some p" by (auto simp: op)
      then show ?thesis by auto
    qed
    show "\<exists>e' sk' k' i'. cores (store_of ?w) r = Some (e', sk', k', i', m)"
      if "cores (store_of w) r = Some (e, sk, k, i, m)" for r e sk k i m
      using shrinks_new [OF sh that] by auto
  qed
  show ?thesis
    by (rule conc_inv_grow [OF inv _ counts _ sinks outs grow]) (use node tk op in simp_all)
qed

lemma enter_simps [simp]:
  "cn_client (enter oc b) = oc_client oc" "cn_broker (enter oc b) = b" "cn_out (enter oc b) = oc_out oc" "cn_room (enter oc b) = oc_room oc"
  by (simp_all add: enter_def)

text \<open>What handling one packet or one part of the greeting does to the connection and the broker.\<close>

definition handled :: "NodeConfig \<Rightarrow> ('c, 'l) extern \<Rightarrow> ('c, 'l) conn \<Rightarrow> ('c, 'l) conn \<Rightarrow> bool" where
  "handled cfg x cn cn' \<longleftrightarrow>
     node_inv x cfg (cn_broker cn') \<and> quiet_from (cn_broker cn) (cn_broker cn') \<and> adds cn cn' \<and> out_typed cn cn'"

lemma handled_inv:
  assumes inv: "conc_inv x cfg w" and c: "open_at w c = Some oc" and h: "handled cfg x (enter oc (cw_broker w)) cn"
  shows "takeover_inv (b_store (cn_broker cn)) (open_at w)"
    and "conc_inv x cfg (set_task c (Open (leave cn ph oc)) (set_broker (cn_broker cn) w))"
    and "conc_inv x cfg (set_task c Leaving (set_broker (cn_broker cn) w))"
proof -
  have sq: "store_quiet (store_of w) (b_store (cn_broker cn))" and cnt: "b_conn_count (cn_broker cn) = b_conn_count (cw_broker w)"
    using h by (simp_all add: handled_def quiet_from_def)
  have node: "node_inv x cfg (cn_broker cn)" using h by (simp add: handled_def)
  show tk: "takeover_inv (b_store (cn_broker cn)) (open_at w)" by (rule takeover_quiet [OF conc_invD(3) [OF inv] sq])
  have o': "same_owner oc (leave cn ph oc)" using h by (simp add: handled_def adds_def same_owner_def leave_def)
  have "out_typed (enter oc (cw_broker w)) cn" using h by (simp add: handled_def)
  from out_typed_wf [OF this] have "list_all packet_wf (cn_out cn)" using conc_invD(5) [OF inv] c by (simp add: outs_ok_def)
  then show "conc_inv x cfg (set_task c (Open (leave cn ph oc)) (set_broker (cn_broker cn) w))"
    using takeover_same [OF tk c o'] o'
    by (intro conn_step_inv [OF inv c node cnt shrinks_quiet [OF sq]]) (auto simp: leave_def)
  show "conc_inv x cfg (set_task c Leaving (set_broker (cn_broker cn) w))"
    using takeover_drop [OF tk] by (intro conn_step_inv [OF inv c node cnt shrinks_quiet [OF sq]]) auto
qed

lemma handledI:
  assumes inv: "conc_inv x cfg w" and c: "open_at w c = Some oc"
    and q: "quiet_from (cw_broker w) (cw_broker w) \<Longrightarrow> quiet_from (cw_broker w) (cn_broker cn)"
    and ok: "broker_ok x (cw_broker w) \<Longrightarrow> broker_ok x (cn_broker cn)"
    and a: "adds (enter oc (cw_broker w)) cn"
    and ty: "has_session (enter oc (cw_broker w)) \<Longrightarrow> out_typed (enter oc (cw_broker w)) cn"
  shows "handled cfg x (enter oc (cw_broker w)) cn"
proof -
  have wf: "hm_wf (st_heap (store_of w))" using store_wf_maps [OF inv_store [OF inv]] by blast
  then have "quiet_from (cw_broker w) (cw_broker w)" by (simp add: quiet_from_def store_quiet_refl)
  moreover have "broker_ok x (cw_broker w)" using conc_invD(1) [OF inv] by (simp add: node_inv_def)
  moreover have "conn_ok (store_of w) c oc" by (rule takeover_invD(1) [OF conc_invD(3) [OF inv] c])
  then have "has_session (enter oc (cw_broker w))" using wf by (auto simp: conn_ok_def has_session_def cores_def)
  moreover have "node_inv x cfg (cn_broker cn)" if "broker_ok x (cn_broker cn)"
    using node_inv_adds [OF conc_invD(1) [OF inv] that] a by (auto simp: adds_def)
  ultimately show ?thesis using q ok a ty by (simp add: handled_def)
qed

lemma serve_event_inv:
  assumes inv: "conc_inv x cfg w"
  shows "conc_inv x cfg (serve_event x ne c w)"
proof (cases "open_at w c")
  case (Some oc)
  let ?b = "cw_broker w"
  obtain fl cn where r: "run_event x ne (enter oc ?b) = (fl, cn)" by fastforce
  have "handled cfg x (enter oc ?b) cn"
    using quiet.run_event_inv [of ?b "enter oc ?b" x ne fl cn] sound.run_event_inv [of x "enter oc ?b" ne fl cn]
      run_event_adds [of "enter oc ?b" x ne] run_event_typed [OF _ r] r
    by (intro handledI [OF inv Some]) auto
  then show ?thesis using inv Some r handled_inv(2) [OF inv Some] by (simp add: serve_event_def)
qed (simp add: serve_event_def inv)

lemma greet_handled:
  assumes inv: "conc_inv x cfg w" and c: "open_at w c = Some oc" and g: "greet x clean g (enter oc (cw_broker w)) = (r, cn)"
  shows "handled cfg x (enter oc (cw_broker w)) cn"
proof (cases g)
  case (SendConnAck present)
  with g have s: "send (PConnAck Success present) (enter oc (cw_broker w)) = (r, cn)" by (simp add: greet_def)
  show ?thesis
    using send_broker [OF s] send_adds [OF _ s] send_typed [OF _ s] by (intro handledI [OF inv c]) (simp_all add: encodable_def)
next
  case (Announce peer)
  with g show ?thesis
    by (intro handledI [OF inv c])
      (auto simp: greet_def quiet.event_inv sound.event_inv intro!: adds_on_broker client_event_adds out_typed_same)
next
  case (SendBacklog m)
  with g have s: "send_backlog_one m (enter oc (cw_broker w)) = (r, cn)" by (simp add: greet_def)
  show ?thesis
    using quiet.send_backlog_one_inv [OF _ s] sound.send_backlog_one_inv [OF _ s] send_backlog_one_adds [OF s] send_backlog_one_typed [OF _ s]
    by (intro handledI [OF inv c]) simp_all
qed

lemma serve_greet_inv:
  assumes inv: "conc_inv x cfg w"
  shows "conc_inv x cfg (serve_greet x c w)"
proof (cases "open_at w c")
  case (Some oc)
  show ?thesis
  proof (cases "oc_phase oc")
    case (Greeting gs)
    show ?thesis
    proof (cases gs)
      case Nil
      have "handled cfg x (enter oc (cw_broker w)) (enter oc (cw_broker w))"
        by (rule handledI [OF inv Some]) (simp_all add: adds_refl out_typed_same)
      from handled_inv(2) [OF inv Some this, of Serving] show ?thesis
        using Some Greeting Nil by (simp add: serve_greet_def leave_def set_broker_def)
    next
      case (Cons g gs')
      obtain r cn where r: "greet x (oc_clean oc) g (enter oc (cw_broker w)) = (r, cn)" by fastforce
      note h = handled_inv [OF inv Some greet_handled [OF inv Some r]]
      show ?thesis using h(2,3) Some Greeting Cons r by (cases r) (simp_all add: serve_greet_def)
    qed
  qed (use inv Some in \<open>simp_all add: serve_greet_def\<close>)
qed (simp add: serve_greet_def inv)

lemma serve_close_inv:
  assumes inv: "conc_inv x cfg w"
  shows "conc_inv x cfg (serve_close x now c w)"
proof (cases "open_at w c")
  case (Some oc)
  show ?thesis
  proof (cases "oc_phase oc")
    case (Closing res)
    let ?b = "cw_broker w" and ?start = "enter oc (cw_broker w)"
    let ?cn = "close_session x now (oc_clean oc) (oc_epoch oc) res ?start"
    note cs = close_session_store [of x now "oc_clean oc" "oc_epoch oc" res ?start]
    have wf: "store_wf (b_store ?b)" by (rule inv_store [OF inv])
    have ok: "broker_ok x (cn_broker ?start)" using conc_invD(1) [OF inv] by (simp add: node_inv_def)
    have "b_adds (cl_identity (oc_client oc)) ?b (cn_broker ?cn)"
      using close_session_adds [of ?start x now "oc_clean oc" "oc_epoch oc" res] by (simp add: adds_def)
    then have node: "node_inv x cfg (cn_broker ?cn)"
      by (rule node_inv_adds [OF conc_invD(1) [OF inv] sound.close_session_inv [OF ok]])
    have sh: "shrinks (b_store ?b) (b_store (cn_broker ?cn))" using shrinks_detach [OF wf] cs by simp
    have "takeover_inv (b_store (cn_broker ?cn)) ((open_at w)(c := None))"
      using takeover_detach [OF conc_invD(3) [OF inv] wf Some, of "fst now" "oc_clean oc"] cs by simp
    then have "conc_inv x cfg (set_task c Leaving (set_broker (cn_broker ?cn) w))"
      using cs by (intro conn_step_inv [OF inv Some node _ sh]) simp_all
    then show ?thesis using Some Closing by (simp add: serve_close_def)
  qed (use inv Some in \<open>simp_all add: serve_close_def\<close>)
qed (simp add: serve_close_def inv)

lemma writer_inv:
  assumes inv: "conc_inv x cfg w"
  shows "conc_inv x cfg (writer_dies c w)"
proof (cases "\<exists>oc. hm_get (cw_tasks w) c = Some (Open oc)")
  case True
  then obtain oc where t: "hm_get (cw_tasks w) c = Some (Open oc)" by blast
  then have c: "open_at w c = Some oc" by (simp add: open_at_Some)
  let ?p = "oc\<lparr>oc_writer := False, oc_room := 0\<rparr>"
  have o': "same_owner oc ?p" by (simp add: same_owner_def)
  have "shrinks (store_of w) (store_of w)" using store_wf_maps [OF inv_store [OF inv]] by (simp add: shrinks_quiet store_quiet_refl)
  then have "conc_inv x cfg (set_task c (Open ?p) (set_broker (cw_broker w) w))"
    using takeover_same [OF conc_invD(3) [OF inv] c o'] o' conc_invD(5) [OF inv] c
    by (intro conn_step_inv [OF inv c conc_invD(1) [OF inv]]) (auto simp: outs_ok_def)
  moreover have "set_broker (cw_broker w) w = w" by (simp add: set_broker_def)
  ultimately show ?thesis using t by (simp add: writer_dies_def)
qed (use inv in \<open>auto simp: writer_dies_def split: option.splits task.splits\<close>)

section \<open>The first packet\<close>

lemma epochs_left_cores: "epochs_left st \<Longrightarrow> cores st r = Some (e, sk, k, i, m) \<Longrightarrow> unat e < 2 ^ 64 - 1"
  by (auto simp: epochs_left_def cores_def core_def hm_get_def dest!: map_of_SomeD)

lemma gate_quiet:
  assumes "connect_gate x now cert c b = (g, b1)" and "store_wf (b_store b)"
  shows "store_quiet (b_store b) (b_store b1) \<and> store_quiet (b_store b) (b_store (count connections_total_update b1))
    \<and> b_conn_count b1 = b_conn_count b"
proof -
  have "quiet_from b b" using store_wf_maps [OF assms(2)] by (simp add: quiet_from_def store_quiet_refl)
  from quiet.connect_gate_inv [OF this assms(1)] quiet.inv_count show ?thesis by (auto simp: quiet_from_def)
qed

text \<open>The store after an attachment, seen from connection \<open>c\<close>.\<close>

lemma attach_others:
  assumes "store_wf st" and "attach cid who clean c c st = (Some ao, st')"
  shows "notified st \<subseteq> notified st'"
    and "cores st' r = Some (e, Some d, k, i, m) \<Longrightarrow> d \<noteq> c \<Longrightarrow> cores st r = Some (e, Some d, k, i, m)"
    and "cores st r = Some (e, sk, k, i, m) \<Longrightarrow> \<exists>e' sk' k' i'. cores st' r = Some (e', sk', k', i', m)"
proof -
  note ae = attach_effect [OF assms]
  show "notified st \<subseteq> notified st'" using ae by blast
  show "cores st' r = Some (e, Some d, k, i, m) \<Longrightarrow> d \<noteq> c \<Longrightarrow> cores st r = Some (e, Some d, k, i, m)"
    using ae by (cases "r = ao_session ao") auto
  show "cores st r = Some (e, sk, k, i, m) \<Longrightarrow> \<exists>e' sk' k' i'. cores st' r = Some (e', sk', k', i', m)"
    using ae by (cases "r = ao_session ao") auto
qed

text \<open>A waiting connection ends or opens.\<close>

lemma first_step_inv:
  assumes inv: "conc_inv x cfg w" and c: "hm_get (cw_tasks w) c = Some (Waiting cert)"
    and node: "node_inv x cfg b" and cnt: "b_conn_count b = b_conn_count (cw_broker w)"
    and t: "t = Leaving \<or> (\<exists>p. t = Open p \<and> list_all packet_wf (oc_out p))"
    and told: "notified (store_of w) \<subseteq> notified (b_store b)"
    and old: "\<And>r e d k i m. cores (b_store b) r = Some (e, Some d, k, i, m) \<Longrightarrow> d \<noteq> c
      \<Longrightarrow> \<exists>k0. cores (store_of w) r = Some (e, Some d, k0, i, m)"
    and kept: "\<And>r e sk k i m. cores (store_of w) r = Some (e, sk, k, i, m)
      \<Longrightarrow> \<exists>e' sk' k' i'. cores (b_store b) r = Some (e', sk', k', i', m)"
    and tk: "takeover_inv (b_store b) (case t of Open p \<Rightarrow> (open_at w)(c \<mapsto> p) | _ \<Rightarrow> open_at w)"
  shows "conc_inv x cfg (set_task c t (set_broker b w))"
proof -
  let ?w = "set_task c t (set_broker b w)"
  have wf: "hm_wf (cw_tasks w)" using conc_invD(2) [OF inv] by (simp add: counts_ok_def)
  have cn: "open_at w c = None" using c by (simp add: open_at_def)
  have op: "open_at ?w = (case t of Open p \<Rightarrow> (open_at w)(c \<mapsto> p) | _ \<Rightarrow> open_at w)"
    using wf cn open_at_set [of "set_broker b w" c t] by (auto simp: fun_upd_idem split: task.split)
  have wait: "waiting ?w d \<longleftrightarrow> d \<noteq> c \<and> waiting w d" for d
    using wf t waiting_set [of "set_broker b w" c t d] by auto
  have lt: "c < cw_next w" using conc_invD(2) [OF inv] c unfolding counts_ok_def by blast
  have cfg: "b_cfg b = b_cfg (cw_broker w)" using node conc_invD(1) [OF inv] by (simp add: node_inv_def)
  have "counts_ok (set_broker b w)" using counts_broker [OF conc_invD(2) [OF inv] cnt cfg] .
  then have counts: "counts_ok ?w" using c by (intro counts_set [of _ _ "Waiting cert"]) simp_all
  have sinks: "sinks_ok ?w"
    unfolding sinks_ok_def
  proof (intro allI impI)
    fix r e d k i m assume "cores (store_of ?w) r = Some (e, Some d, k, i, m)"
    then have "cores (b_store b) r = Some (e, Some d, k, i, m)" by simp
    with old have "d = c \<or> (\<exists>k0. cores (store_of w) r = Some (e, Some d, k0, i, m))" by blast
    with conc_invD(4) [OF inv] lt have "d = c \<or> d < cw_next w \<and> \<not> waiting w d" unfolding sinks_ok_def by blast
    with wait lt show "d < cw_next ?w \<and> \<not> waiting ?w d" by auto
  qed
  have outs: "outs_ok ?w" using conc_invD(5) [OF inv] t by (auto simp: outs_ok_def op split: if_splits)
  have grow: "grows w ?w"
    unfolding grows_def
  proof (intro conjI allI impI)
    show "notified (store_of w) \<subseteq> notified (store_of ?w)" using told by simp
    show "waiting w d" if "waiting ?w d" for d using that wait by blast
    show "waiting w d \<or> (\<exists>o0. open_at w d = Some o0 \<and> same_owner o0 p)" if "open_at ?w d = Some p" for d p
    proof (cases "d = c")
      case True
      with c show ?thesis by (simp add: waiting_def)
    next
      case False
      with that t have "open_at w d = Some p" by (auto simp: op)
      then show ?thesis by auto
    qed
    show "\<exists>e' sk' k' i'. cores (store_of ?w) r = Some (e', sk', k', i', m)"
      if "cores (store_of w) r = Some (e, sk, k, i, m)" for r e sk k i m
      using kept [OF that] by simp
  qed simp
  show ?thesis
    by (rule conc_inv_grow [OF inv _ counts _ sinks outs grow]) (use node tk op in simp_all)
qed

lemma first_inv:
  assumes inv: "conc_inv x cfg w" and left: "epochs_left (store_of w)"
  shows "conc_inv x cfg (serve_first x now peer room fr c w)"
proof (cases "\<exists>cert. hm_get (cw_tasks w) c = Some (Waiting cert)")
  case True
  then obtain cert where c: "hm_get (cw_tasks w) c = Some (Waiting cert)" by blast
  let ?b = "cw_broker w"
  have wf: "store_wf (b_store ?b)" using inv_store [OF inv] .
  have ok: "broker_ok x ?b" using conc_invD(1) [OF inv] by (simp add: node_inv_def)
  have leaving: "conc_inv x cfg (set_task c Leaving (set_broker b w))"
    if "node_inv x cfg b" "b_conn_count b = b_conn_count ?b" "store_quiet (b_store ?b) (b_store b)" for b
    using that takeover_quiet [OF conc_invD(3) [OF inv] that(3)]
    by (intro first_step_inv [OF inv c]) (auto simp: store_quiet_def)
  have early: "conc_inv x cfg (set_task c Leaving w)"
    using leaving [OF conc_invD(1) [OF inv] refl] store_wf_maps [OF wf] by (simp add: store_quiet_refl set_broker_def)
  show ?thesis
  proof (cases "\<exists>cp. fr = FirstPacket (PConnect cp)")
    case False
    then have "serve_first x now peer room fr c w = set_task c Leaving w"
      using c by (auto simp: serve_first_def split: first_read.split Packet.split)
    with early show ?thesis by simp
  next
    case True
    then obtain cp where fr: "fr = FirstPacket (PConnect cp)" by blast
    obtain g b1 where g: "connect_gate x now cert cp ?b = (g, b1)" by fastforce
    note gq = gate_quiet [OF g wf]
    have ok1: "broker_ok x b1" using sound.connect_gate_inv [OF ok g] .
    have node1: "node_inv x cfg b1" using node_inv_adds [OF conc_invD(1) [OF inv] ok1] connect_gate_quiet [OF g] b_adds_quiet by blast
    have sq1: "store_quiet (b_store ?b) (b_store b1)" using gq by blast
    show ?thesis
    proof (cases g)
      case (Refused code)
      with leaving [OF node1 _ sq1] gq c fr g show ?thesis by (simp add: serve_first_def)
    next
      case (Granted who)
      let ?b2 = "count connections_total_update b1"
      obtain cid clean where n: "session_name (snd now) cp = (cid, clean)" by fastforce
      obtain out st where a: "attach cid who clean c c (b_store ?b2) = (out, st)" by fastforce
      let ?b3 = "?b2\<lparr>b_store := st\<rparr>"
      have wf2: "store_wf (b_store ?b2)" using ok1 by (simp add: broker_ok_def count_def Let_def)
      from attach_wf [OF wf2 a] obtain ao where out: "out = Some ao" by blast
      from n a obtain p where p: "attach_session now peer c c room who cp b1 = (Some p, ?b3)" "cl_session (oc_client p) = ao_session ao"
        "cl_id (oc_client p) = cid" "oc_epoch p = ao_epoch ao" "oc_out p = []"
        by (simp add: attach_session_def Let_def out)
      have ok3: "broker_ok x ?b3" using sound.inv_attach [OF sound.inv_count [OF ok1] a] .
      have "b_adds who b1 ?b3" by (rule b_adds_quiet) (simp_all add: count_def Let_def)
      then have node3: "node_inv x cfg ?b3" by (rule node_inv_adds [OF node1 ok3])
      have sq2: "store_quiet (b_store ?b) (b_store ?b2)" using gq by blast
      have cores2: "cores (b_store ?b2) = cores (b_store ?b)" "notified (b_store ?b2) = notified (b_store ?b)"
        using sq2 by (simp_all add: store_quiet_def)
      note others = attach_others [OF wf2 a [unfolded out], unfolded cores2]
      have "waiting w c" using c by (simp add: waiting_def)
      then have "cores (store_of w) r \<noteq> Some (e, Some c, k, i, m)" for r e k i m
        using conc_invD(4) [OF inv] unfolding sinks_ok_def by blast
      then have fresh: "open_at w c = None" "\<And>r e k i m. cores (b_store ?b2) r \<noteq> Some (e, Some c, k, i, m)"
        using c cores2(1) by (simp_all add: open_at_def)
      have tk: "takeover_inv st ((open_at w)(c \<mapsto> p))"
        using takeover_attach [OF takeover_quiet [OF conc_invD(3) [OF inv] sq2] wf2 a fresh _ out, of p] epochs_left_cores [OF left]
          p cores2(1) by simp
      have cnt: "b_conn_count ?b3 = b_conn_count ?b" using gq by (simp add: count_def Let_def)
      have "conc_inv x cfg (set_task c (Open p) (set_broker ?b3 w))"
      proof (rule first_step_inv [OF inv c node3 cnt])
        show "notified (store_of w) \<subseteq> notified (b_store ?b3)" using others(1) by simp
      next
        fix r e d k i m assume "cores (b_store ?b3) r = Some (e, Some d, k, i, m)" "d \<noteq> c"
        with others(2) show "\<exists>k0. cores (store_of w) r = Some (e, Some d, k0, i, m)" by auto
      next
        fix r e sk k i m assume "cores (store_of w) r = Some (e, sk, k, i, m)"
        with others(3) show "\<exists>e' sk' k' i'. cores (b_store ?b3) r = Some (e', sk', k', i', m)" by auto
      qed (use tk p in auto)
      then show ?thesis using c fr g Granted p(1) by (simp add: serve_first_def)
    qed
  qed
qed (use inv in \<open>auto simp: serve_first_def split: option.splits task.splits\<close>)

section \<open>Background tasks\<close>

lemma upkeep_node: "upkeep_step x b b' \<Longrightarrow> node_step x b b'"
  by (induction rule: upkeep_step.induct)
    (blast intro: node_step.sweeping node_step.replication node_step.catching_up node_step.saving node_step.statistics)+

lemma sys_tick_count: "b_conn_count (sys_tick x v u b) = b_conn_count b"
proof -
  have "b_conn_count (foldl (\<lambda>b (path, v). snd (bus_write x (BusPut (sys_key (b_cfg b) path) (as_bytes v)) b)) b kvs)
      = b_conn_count b" for kvs
    by (induction kvs arbitrary: b) (auto simp: bus_write_def)
  then show ?thesis by (simp add: sys_tick_def)
qed

lemma upkeep_store:
  assumes "upkeep_step x b b'" and "store_wf (b_store b)" and "takeover_inv (b_store b) T"
  shows "takeover_inv (b_store b') T \<and> cores (b_store b') = cores (b_store b) \<and> notified (b_store b') = notified (b_store b)
    \<and> b_conn_count b' = b_conn_count b"
  using assms
proof cases
  case (sweeping now)
  with sweep_quiet(2,3) [OF assms(2)] takeover_sweep [OF assms(3,2)] show ?thesis by simp
next
  case (saving path rs fs)
  have "store_quiet (b_store b) ((b_store b)\<lparr>st_env := (st_env (b_store b))\<lparr>env_fs := fs\<rparr>\<rparr>)"
    using store_wf_maps [OF assms(2)] by (intro store_quiet_env store_quiet_refl) auto
  with takeover_quiet [OF assms(3) this] saving show ?thesis by (simp add: store_quiet_def)
next
  case (statistics version uptime)
  with assms(3) sys_tick_keeps [of x version uptime b] sys_tick_count [of x version uptime b] show ?thesis by simp
qed (use assms(3) in simp_all)

lemma upkeep_inv:
  assumes inv: "conc_inv x cfg w" and u: "upkeep_step x (cw_broker w) b"
  shows "conc_inv x cfg (set_broker b w)"
proof -
  note us = upkeep_store [OF u inv_store [OF inv] conc_invD(3) [OF inv]]
  have node: "node_inv x cfg b" using node_step_inv [OF conc_invD(1) [OF inv] upkeep_node [OF u]] .
  then have "b_cfg b = b_cfg (cw_broker w)" using conc_invD(1) [OF inv] by (simp add: node_inv_def)
  then have counts: "counts_ok (set_broker b w)" using counts_broker [OF conc_invD(2) [OF inv]] us by simp
  have sinks: "sinks_ok (set_broker b w)" using conc_invD(4) [OF inv] us by (simp add: sinks_ok_def)
  have outs: "outs_ok (set_broker b w)" using conc_invD(5) [OF inv] by (simp add: outs_ok_def)
  have grow: "grows w (set_broker b w)" using us by (auto simp: grows_def)
  show ?thesis by (rule conc_inv_grow [OF inv _ counts _ sinks outs grow]) (use node us in simp_all)
qed

section \<open>Deliveries\<close>

lemma sample_inv:
  assumes inv: "conc_inv x cfg w" and s: "hm_get (st_heap (store_of w)) r = Some s"
  shows "conc_inv x cfg (new_sample r ke q payload w)"
proof (cases "keyexpr_to_topic ke (cfg_scope (b_cfg (cw_broker w)))")
  case (Some t)
  let ?w = "new_sample r ke q payload w"
  have eq: "?w = w\<lparr>cw_threads := cw_threads w @ [(r, \<lparr>th_topic = t, th_payload = payload, th_qos = q, th_pc = AtLoop\<rparr>)]\<rparr>"
    by (simp add: new_sample_def Some)
  have op: "open_at ?w = open_at w" "waiting ?w = waiting w" by (simp_all add: eq open_at_def waiting_def fun_eq_iff)
  have f: "cw_broker ?w = cw_broker w" "cw_next ?w = cw_next w" "cw_tasks ?w = cw_tasks w"
    "cw_threads ?w = cw_threads w @ [(r, \<lparr>th_topic = t, th_payload = payload, th_qos = q, th_pc = AtLoop\<rparr>)]"
    by (simp_all add: eq)
  have old: "thread_ok ?w r' pc = thread_ok w r' pc" for r' pc by (simp only: thread_ok_def op f)
  have "thread_ok w r AtLoop" using s by (simp add: thread_ok_def cores_def core_def)
  then show ?thesis
    using inv by (intro conc_invI) (auto simp: conc_inv_def old counts_ok_def sinks_ok_def outs_ok_def op f)
qed (use inv in \<open>simp add: new_sample_def\<close>)

text \<open>What a step of a delivery does to the core of its session and to the kicks.\<close>

lemma deliver_step_core:
  assumes "deliver_step t p q now outcome (pc, s, e) = (pc', s', e')" and "core s = (ep, sk, k, i, m)"
  shows "(core s' = core s \<and> env_notified e' = env_notified e)
    \<or> (core s' = (ep, None, k, i, m) \<and> set (env_notified e) \<subseteq> set (env_notified e')
       \<and> ((\<exists>tx pb. pc = AtSend tx pb \<and> sk = Some tx \<and> (\<forall>k0. k = Some k0 \<longrightarrow> k0 \<in> set (env_notified e')))
          \<or> (\<exists>tx. pc = AtClear tx \<and> sk = Some tx)))"
  using assms
  by (cases pc) (auto simp: deliver_step_def evict_slow_def notify_def core_def next_pkid_def Let_def
      split: option.splits if_splits SendOutcome.splits prod.splits)

lemma deliver_step_next:
  assumes "deliver_step t p q now outcome (pc, s, e) = (pc', s', e')"
  shows "(\<forall>tx pb. pc' = AtSend tx pb \<longrightarrow> pc = AtLoop \<and> sink (inner s) = Some tx \<and> packet_wf (PPublish pb))
    \<and> (\<forall>tx. pc' = AtClear tx \<longrightarrow> (\<exists>pb. pc = AtSend tx pb) \<and> outcome \<noteq> SendOk
         \<and> (outcome = SendTimeout \<and> slow_grace s \<noteq> None \<and> sink (inner s) = Some tx
            \<longrightarrow> (\<forall>k. kick (inner s) = Some k \<longrightarrow> k \<in> set (env_notified e'))))
    \<and> (pc' = AtQueue \<longrightarrow> 0 < max_queue s)"
proof (cases pc)
  case AtLoop
  have "n \<noteq> 0" if "next_pkid s = (n, s')" for n s'
    using that by (auto simp: next_pkid_def draw_pkid_eq Let_def split: if_splits prod.splits)
  with AtLoop assms show ?thesis
    by (auto simp: deliver_step_def Let_def packet_wf_def Publish_new_def split: option.splits if_splits prod.splits)
qed (use assms in \<open>auto simp: deliver_step_def evict_slow_def notify_def Let_def
      split: option.splits if_splits SendOutcome.splits prod.splits\<close>)

lemma told_mono: "told st c oc \<Longrightarrow> notified st \<subseteq> notified st' \<Longrightarrow> told st' c oc"
  by (auto simp: told_def)

lemma push_inv:
  assumes inv: "conc_inv x cfg w" and p: "packet_wf p"
  shows "conc_inv x cfg (push_packet c p w)"
proof (cases "\<exists>oc. hm_get (cw_tasks w) c = Some (Open oc)")
  case True
  then obtain oc where t: "hm_get (cw_tasks w) c = Some (Open oc)" by blast
  then have c: "open_at w c = Some oc" by (simp add: open_at_Some)
  let ?p = "oc\<lparr>oc_out := oc_out oc @ [p], oc_room := oc_room oc - 1\<rparr>"
  have o': "same_owner oc ?p" by (simp add: same_owner_def)
  have "shrinks (store_of w) (store_of w)" using store_wf_maps [OF inv_store [OF inv]] by (simp add: shrinks_quiet store_quiet_refl)
  then have "conc_inv x cfg (set_task c (Open ?p) (set_broker (cw_broker w) w))"
    using takeover_same [OF conc_invD(3) [OF inv] c o'] o' conc_invD(5) [OF inv] c p
    by (intro conn_step_inv [OF inv c conc_invD(1) [OF inv]]) (auto simp: outs_ok_def)
  moreover have "set_broker (cw_broker w) w = w" by (simp add: set_broker_def)
  ultimately show ?thesis using t by (simp add: push_packet_def)
qed (use inv in \<open>auto simp: push_packet_def split: option.splits task.splits\<close>)

text \<open>One move of a delivery, before a packet is handed over.\<close>

lemma move_inv:
  assumes inv: "conc_inv x cfg w" and i: "i < length (cw_threads w)" "cw_threads w ! i = (r, th)"
    and s: "hm_get (st_heap (store_of w)) r = Some s"
    and d: "deliver_step (th_topic th) (th_payload th) (th_qos th) now outcome (th_pc th, s, st_env (store_of w)) = (pc, s', e')"
    and ans: "\<And>tx p. th_pc th = AtSend tx p \<Longrightarrow> channel_answers w r tx outcome"
    and b: "quiet_from ((cw_broker w)\<lparr>b_store := (with_session r s' (store_of w))\<lparr>st_env := e'\<rparr>\<rparr>) b"
    and node: "node_inv x cfg b"
  shows "conc_inv x cfg ((set_broker b w)\<lparr>cw_threads := (cw_threads w)[i := (r, th\<lparr>th_pc := pc\<rparr>)]\<rparr>)"
proof -
  let ?st = "store_of w" and ?st1 = "(with_session r s' (store_of w))\<lparr>st_env := e'\<rparr>"
  let ?w = "(set_broker b w)\<lparr>cw_threads := (cw_threads w)[i := (r, th\<lparr>th_pc := pc\<rparr>)]\<rparr>"
  have th: "(r, th) \<in> set (cw_threads w)" using i by (metis nth_mem)
  note tok = conc_invD(6) [OF inv th]
  note tk = conc_invD(3) [OF inv]
  obtain ep sk k cid m where c: "core s = (ep, sk, k, cid, m)" by (cases "core s")
  then have f: "sink (inner s) = sk" "kick (inner s) = k" "max_queue s = m" by (auto simp: core_def)
  have wf: "hm_wf (st_heap ?st)" using store_wf_maps [OF inv_store [OF inv]] by blast
  have cr: "cores ?st r = Some (ep, sk, k, cid, m)" using s c by (simp add: cores_def)
  have c1: "cores ?st1 r = Some (core s')" "r' \<noteq> r \<Longrightarrow> cores ?st1 r' = cores ?st r'" for r' using wf by (simp_all add: cores_def)
  have reg: "registered ?st1 = registered ?st" by simp
  note dc = deliver_step_core [OF d c]
  have told: "notified ?st \<subseteq> notified ?st1" using dc by auto
  have kept: "\<exists>sk' k'. core s' = (ep, sk', k', cid, m) \<and> (sk' = None \<or> sk' = sk)" using dc c by auto
  have owner: "told ?st1 tx oc"
    if "open_at w tx = Some oc" "cl_session (oc_client oc) = r" "sk = Some tx \<longrightarrow> (\<forall>k0. k = Some k0 \<longrightarrow> k0 \<in> notified ?st1)" for tx oc
  proof (cases "told ?st tx oc")
    case False
    with takeover_invD(1) [OF tk that(1)] have "current ?st tx oc" by (simp add: conn_ok_def)
    with that(2) cr have "sk = Some tx" "k = Some tx" by (auto simp: current_def)
    with that(3) show ?thesis by (simp add: told_def)
  qed (use told_mono told in blast)
  have own_sink: "cl_session (oc_client oc) = r" if "sk = Some tx" "open_at w tx = Some oc" for tx oc
    using takeover_invD(3) [OF tk _ that(2)] cr that(1) by blast
  have tk1: "takeover_inv ?st1 (open_at w)"
  proof (cases "core s' = core s \<and> env_notified e' = env_notified (st_env ?st)")
    case True
    then have "cores ?st1 r' = cores ?st r'" for r' using c1 cr c by (cases "r' = r") auto
    then have "cores ?st1 = cores ?st" by blast
    with True wf have "store_quiet ?st ?st1" by (simp add: store_quiet_def)
    with tk show ?thesis by (rule takeover_quiet)
  next
    case False
    with dc have cl: "core s' = (ep, None, k, cid, m)" and
      why: "(\<exists>tx pb. th_pc th = AtSend tx pb \<and> sk = Some tx \<and> (\<forall>k0. k = Some k0 \<longrightarrow> k0 \<in> notified ?st1))
          \<or> (\<exists>tx. th_pc th = AtClear tx \<and> sk = Some tx)"
      by auto
    show ?thesis
    proof (rule takeover_clear [OF tk cr _ c1(2) reg told])
      show "cores ?st1 r = Some (ep, None, k, cid, m)" using c1(1) cl by simp
    next
      fix tx oc assume tx: "sk = Some tx" "open_at w tx = Some oc"
      from why show "told ?st1 tx oc"
      proof
        assume "\<exists>tx pb. th_pc th = AtSend tx pb \<and> sk = Some tx \<and> (\<forall>k0. k = Some k0 \<longrightarrow> k0 \<in> notified ?st1)"
        with owner [OF tx(2) own_sink [OF tx]] show ?thesis by blast
      next
        assume "\<exists>tx. th_pc th = AtClear tx \<and> sk = Some tx"
        with tx tok have "told ?st tx oc" by (auto simp: thread_ok_def)
        with told_mono told show ?thesis by blast
      qed
    qed
  qed
  have bq: "store_quiet ?st1 (b_store b)" and cnt: "b_conn_count b = b_conn_count (cw_broker w)" using b by (simp_all add: quiet_from_def)
  then have cb: "cores (b_store b) = cores ?st1" "notified (b_store b) = notified ?st1" by (simp_all add: store_quiet_def)
  have op: "open_at ((set_broker b w)\<lparr>cw_threads := ths\<rparr>) = open_at w" "waiting ((set_broker b w)\<lparr>cw_threads := ths\<rparr>) = waiting w" for ths
    by (simp_all add: open_at_def waiting_def fun_eq_iff)
  have fields: "cw_broker ?w = b" "cw_tasks ?w = cw_tasks w" "cw_next ?w = cw_next w"
    "cw_threads ?w = (cw_threads w)[i := (r, th\<lparr>th_pc := pc\<rparr>)]" by simp_all
  have "b_cfg b = b_cfg (cw_broker w)" using node conc_invD(1) [OF inv] by (simp add: node_inv_def)
  with conc_invD(2) [OF inv] cnt have counts: "counts_ok ?w" by (simp add: counts_ok_def)
  have sinks: "sinks_ok ?w"
    unfolding sinks_ok_def
  proof (intro allI impI)
    fix r' e c k' i' m' assume "cores (store_of ?w) r' = Some (e, Some c, k', i', m')"
    then have "cores ?st1 r' = Some (e, Some c, k', i', m')" using cb by simp
    then have "\<exists>k0. cores ?st r' = Some (e, Some c, k0, i', m')"
      using c1 kept cr by (cases "r' = r") auto
    with conc_invD(4) [OF inv] show "c < cw_next ?w \<and> \<not> waiting ?w c" unfolding sinks_ok_def op fields by blast
  qed
  have grow: "grows w ?w"
    unfolding grows_def
  proof (intro conjI allI impI)
    show "notified ?st \<subseteq> notified (store_of ?w)" using told cb by simp
    show "\<exists>e' sk' k' i'. cores (store_of ?w) r' = Some (e', sk', k', i', m')"
      if "cores ?st r' = Some (e, sk, k, i, m')" for r' e sk k i m'
      using that c1 kept cr cb by (cases "r' = r") auto
  qed (auto simp: op)
  have new: "thread_ok ?w r pc"
  proof -
    note dn = deliver_step_next [OF d]
    have 1: "\<exists>e sk k i m. cores (store_of ?w) r = Some (e, sk, k, i, m) \<and> (pc = AtQueue \<longrightarrow> 0 < m)"
      using c1(1) kept cb dn f by auto
    show ?thesis
    proof (cases pc)
      case (AtSend tx pb)
      with dn f have sk: "sk = Some tx" and pw: "packet_wf (PPublish pb)" by auto
      with cr conc_invD(4) [OF inv] have "tx < cw_next w \<and> \<not> waiting w tx" unfolding sinks_ok_def by blast
      with own_sink [OF sk] 1 pw AtSend show ?thesis by (simp add: thread_ok_def op)
    next
      case (AtClear tx)
      with dn obtain pb where pb: "th_pc th = AtSend tx pb" and oc: "outcome \<noteq> SendOk" by auto
      with tok have t: "tx < cw_next w" "\<not> waiting w tx" "\<And>oc. open_at w tx = Some oc \<Longrightarrow> cl_session (oc_client oc) = r"
        by (auto simp: thread_ok_def)
      have "told ?st1 tx oc" if o': "open_at w tx = Some oc" for oc
      proof (cases outcome)
        case SendClosed
        with ans [OF pb] o' have "\<not> oc_writer oc" by (simp add: channel_answers_def)
        then show ?thesis by (simp add: told_def)
      next
        case SendTimeout
        with ans [OF pb] o' s have "slow_grace s \<noteq> None" by (simp add: channel_answers_def)
        with dn AtClear SendTimeout f have "sk = Some tx \<longrightarrow> (\<forall>k0. k = Some k0 \<longrightarrow> k0 \<in> notified ?st1)" by auto
        with owner [OF o' t(3) [OF o']] show ?thesis by blast
      qed (use oc in simp)
      with cb have "told (store_of ?w) tx oc" if "open_at w tx = Some oc" for oc using that by (simp add: told_def)
      with t 1 AtClear show ?thesis by (simp add: thread_ok_def op)
    qed (use 1 in \<open>auto simp: thread_ok_def\<close>)
  qed
  have threads: "thread_ok ?w r' (th_pc th')" if "(r', th') \<in> set (cw_threads ?w)" for r' th'
  proof -
    have "set ((cw_threads w)[i := (r, th\<lparr>th_pc := pc\<rparr>)]) \<subseteq> insert (r, th\<lparr>th_pc := pc\<rparr>) (set (cw_threads w))"
      by (rule set_update_subset_insert)
    with that have "(r', th') = (r, th\<lparr>th_pc := pc\<rparr>) \<or> (r', th') \<in> set (cw_threads w)" unfolding fields by blast
    then show ?thesis using new thread_ok_grows [OF conc_invD(6) [OF inv] grow] by auto
  qed
  show ?thesis
    using node counts takeover_quiet [OF tk1 bq] sinks conc_invD(5) [OF inv] threads
    by (intro conc_invI) (simp_all add: op outs_ok_def)
qed

lemma node_inv_delivery:
  assumes "node_inv x cfg b" and "hm_get (st_heap (b_store b)) r = Some s" and "pc \<noteq> AtQueue \<or> 0 < max_queue s"
    and "deliver_step t p q now outcome (pc, s, st_env (b_store b)) = (pc', s', e')"
  shows "node_inv x cfg (b\<lparr>b_store := (with_session r s' (b_store b))\<lparr>st_env := e'\<rparr>\<rparr>)"
  using node_step_inv [OF assms(1) node_step.delivery [OF assms(2-4)]] .

lemma count_delivery_keeps:
  "node_inv x cfg b \<Longrightarrow> node_inv x cfg (count_delivery d b)"
  "quiet_from b0 b \<Longrightarrow> quiet_from b0 (count_delivery d b)"
  by (cases d; simp add: count_delivery_def node_step_inv [OF _ node_step.counting] quiet.inv_count)+

lemma delivery_inv:
  assumes inv: "conc_inv x cfg w"
    and ans: "\<forall>r th tx p. get_at (cw_threads w) i = Some (r, th) \<and> th_pc th = AtSend tx p \<longrightarrow> channel_answers w r tx outcome"
  shows "conc_inv x cfg (delivery_step i now outcome w)"
proof (cases "get_at (cw_threads w) i")
  case (Some a)
  obtain r th where a: "a = (r, th)" by (cases a)
  have i: "i < length (cw_threads w)" "cw_threads w ! i = (r, th)"
    using Some a by (auto simp: get_at_nth split: if_splits)
  then have th: "(r, th) \<in> set (cw_threads w)" by (metis nth_mem)
  note tok = conc_invD(6) [OF inv th]
  then obtain s where s: "hm_get (st_heap (store_of w)) r = Some s" and q: "th_pc th = AtQueue \<longrightarrow> 0 < max_queue s"
    by (auto simp: thread_ok_def cores_def core_def)
  obtain pc s' e' where d: "deliver_step (th_topic th) (th_payload th) (th_qos th) now outcome (th_pc th, s, st_env (store_of w)) = (pc, s', e')"
    by (metis prod_cases3)
  let ?b1 = "(cw_broker w)\<lparr>b_store := (with_session r s' (store_of w))\<lparr>st_env := e'\<rparr>\<rparr>"
  define b where "b = (case (th_pc th, pc) of (Done _, _) \<Rightarrow> ?b1 | (_, Done d) \<Rightarrow> count_delivery d ?b1 | _ \<Rightarrow> ?b1)"
  from q have "th_pc th \<noteq> AtQueue \<or> 0 < max_queue s" by simp
  from node_inv_delivery [OF conc_invD(1) [OF inv] s this d] have "node_inv x cfg ?b1" .
  then have node: "node_inv x cfg b" by (auto simp: b_def count_delivery_keeps(1) split: deliver_pc.split)
  have "hm_wf (st_heap (store_of w))" using store_wf_maps [OF inv_store [OF inv]] by blast
  then have "quiet_from ?b1 ?b1" by (simp add: quiet_from_def store_quiet_refl)
  then have qb: "quiet_from ?b1 b" by (auto simp: b_def count_delivery_keeps(2) split: deliver_pc.split)
  let ?w = "(set_broker b w)\<lparr>cw_threads := (cw_threads w)[i := (r, th\<lparr>th_pc := pc\<rparr>)]\<rparr>"
  have w: "conc_inv x cfg ?w" using move_inv [OF inv i s d _ qb node] ans Some a by blast
  have step: "delivery_step i now outcome w
      = (case th_pc th of AtSend tx p \<Rightarrow> if outcome = SendOk then push_packet tx (PPublish p) ?w else ?w | _ \<Rightarrow> ?w)"
    by (simp only: delivery_step_def Some a option.case prod.case s d b_def Let_def)
  show ?thesis
  proof (cases "\<exists>tx p. th_pc th = AtSend tx p")
    case True
    then obtain tx p where "th_pc th = AtSend tx p" by blast
    with tok push_inv [OF w, of "PPublish p" tx] w step show ?thesis by (auto simp: thread_ok_def)
  next
    case False
    with w step show ?thesis by (auto split: deliver_pc.split)
  qed
qed (use inv in \<open>simp add: delivery_step_def\<close>)

section \<open>From the start\<close>

definition no_sinks :: "store \<Rightarrow> bool" where
  "no_sinks st \<longleftrightarrow> (\<forall>r e c k i m. cores st r \<noteq> Some (e, Some c, k, i, m))"

lemma no_sinks_quiet: "no_sinks st \<Longrightarrow> store_quiet st st' \<Longrightarrow> no_sinks st'"
  by (simp add: no_sinks_def store_quiet_def)

lemma activate_quiet:
  assumes "store_wf st"
  shows "store_quiet st (snd (activate_subscription scope decl r f q st))"
proof -
  have "store_quiet st st" using store_wf_maps [OF assms] by (simp add: store_quiet_refl)
  then show ?thesis
    by (auto simp: activate_subscription_def core_methods notified_methods split: sum.split intro!: store_quiet_on_session store_quiet_next)
qed

lemma rehydrate_filters_quiet:
  "store_wf st \<Longrightarrow> store_quiet st (foldl (rehydrate_filter acl scope decl who r) st fs)"
proof (induction fs arbitrary: st)
  case Nil
  then show ?case using store_wf_maps by (simp add: store_quiet_refl)
next
  case (Cons fq fs)
  obtain f q where fq: "fq = (f, q)" by (cases fq)
  let ?st = "rehydrate_filter acl scope decl who r st fq"
  have "store_wf ?st" using rehydrate_filters_wf [OF Cons.prems, of acl scope decl who r "[fq]"] by simp
  moreover have "store_quiet st ?st"
    using activate_quiet [OF Cons.prems] store_wf_maps [OF Cons.prems] by (simp add: rehydrate_filter_def fq store_quiet_refl)
  ultimately show ?case using Cons.IH [of ?st] store_quiet_trans by auto
qed

lemma rehydrate_one_no_sinks:
  assumes "store_wf st" and "no_sinks st" and "rehydrate_one qos acl scope decl path st = (out, st')"
  shows "store_wf st' \<and> no_sinks st'"
proof -
  have wf': "store_wf st'" using registry_step_wf [OF registry_step.restore [OF assms(3)] assms(1)] .
  show ?thesis
  proof (cases "load_subs qos (env_fs (st_env st)) path")
    case (Inl e)
    with assms wf' show ?thesis by (auto simp: rehydrate_one_def)
  next
    case (Inr t)
    obtain cid who filters where t: "t = (cid, who, filters)" by (cases t)
    let ?s0 = "SessionState_new (env_fs (st_env st)) cid (reg_max_queue (st_registry st)) (reg_slow_grace (st_registry st))
        (queue_path (reg_queue_dir (st_registry st)) cid) (Some path)"
    let ?s = "?s0\<lparr>inner := (inner ?s0)\<lparr>identity := who\<rparr>\<rparr>"
    obtain r st1 where al: "alloc ?s st = (r, st1)" by fastforce
    have i: "session_inv ?s" using session_new_inv by (simp add: session_inv_def)
    have "core ?s = (0, None, None, cid, reg_max_queue (st_registry st))" using core_new by (simp add: core_def)
    with cores_alloc [OF assms(1) al] assms(2) have ns: "no_sinks st1"
      unfolding no_sinks_def by (metis option.inject prod.inject option.distinct(1))
    have wf1: "store_wf st1" by (rule store_wf_alloc(1) [OF assms(1) i al])
    let ?st2 = "foldl (rehydrate_filter acl scope decl who r) st1 filters"
    have "store_quiet st1 (on_session r (\<lambda>(s, e). (s, persist_subs s e)) ?st2)"
      by (rule store_quiet_on_session [OF rehydrate_filters_quiet [OF wf1]]) simp_all
    from no_sinks_quiet [OF ns this] have "no_sinks (register cid r (on_session r (\<lambda>(s, e). (s, persist_subs s e)) ?st2))"
      by (simp add: no_sinks_def)
    moreover have "st' = register cid r (on_session r (\<lambda>(s, e). (s, persist_subs s e)) ?st2)"
      using assms(3) by (simp add: rehydrate_one_def Inr t al Let_def)
    ultimately show ?thesis using wf' by simp
  qed
qed

lemma rehydrate_no_sinks:
  assumes "store_wf st" and "no_sinks st"
  shows "no_sinks (snd (rehydrate qos acl scope decl st))"
proof -
  have fold: "store_wf st \<and> no_sinks st \<Longrightarrow> no_sinks (snd (foldl (rehydrate_path qos acl scope decl) (n, st) ps))" for n st ps
  proof (induction ps arbitrary: n st)
    case (Cons p ps)
    obtain m st1 where 1: "rehydrate_path qos acl scope decl (n, st) p = (m, st1)" by fastforce
    obtain out st2 where 2: "rehydrate_one qos acl scope decl p st = (out, st2)" by fastforce
    have "st1 = st \<or> st1 = st2" using 1 2 by (auto simp: rehydrate_path_def split: if_splits sum.splits)
    with rehydrate_one_no_sinks [OF _ _ 2] Cons.prems have "store_wf st1 \<and> no_sinks st1" by blast
    with Cons.IH 1 show ?case by simp
  qed simp
  show ?thesis
  proof (cases "reg_queue_dir (st_registry st)")
    case (Some dir)
    with fold [of st 0] assms show ?thesis by (simp add: rehydrate_def case_prod_unfold)
  qed (simp add: rehydrate_def assms)
qed

lemma start_inv:
  assumes "run_node x w qos fs cfg = Inr nd"
  shows "conc_inv x cfg (cnode_start (nd_broker nd))"
proof -
  from assms obtain rs tasks tls where
    "wire w fs (cfg_scope cfg) (map_option (\<lambda>d. path_join d ''retained.dat'') (cfg_data_dir cfg))
       (RetainedStore_default (x_cache x)) = Inr (rs, tasks)" and
    nd: "nd_broker nd = (Broker_new x fs cfg rs)\<lparr>b_store := snd (rehydrate qos (b_acl (Broker_new x fs cfg rs)) (cfg_scope cfg)
        (x_declare x) (b_store (Broker_new x fs cfg rs)))\<rparr>"
    by (elim run_node_Inr) auto
  have wf: "store_wf (b_store (Broker_new x fs cfg rs))"
    using store_init_wf by (simp add: Broker_new_def store_init_def)
  have "no_sinks (b_store (Broker_new x fs cfg rs))" by (simp add: no_sinks_def cores_def Broker_new_def)
  from rehydrate_no_sinks [OF wf this] have "no_sinks (b_store (nd_broker nd))" by (simp add: nd)
  moreover have "b_conn_count (nd_broker nd) = 0" by (simp add: nd Broker_new_def)
  moreover have "node_inv x cfg (nd_broker nd)" using start_ok [OF assms] by (simp add: node_inv_def)
  moreover have "open_at (cnode_start b) = (\<lambda>_. None)" for b :: "('a, 'b) Broker" by (simp add: open_at_def cnode_start_def fun_eq_iff)
  ultimately show ?thesis
    by (intro conc_invI) (auto simp: counts_ok_def sinks_ok_def outs_ok_def no_sinks_def takeover_inv_def, simp_all add: cnode_start_def dom_def)
qed

lemma conc_step_inv:
  assumes "conc_inv x cfg w" and "conc_step x api w w'"
  shows "conc_inv x cfg w'"
  using assms(2,1)
  by cases (auto intro: accept_inv first_inv serve_greet_inv serve_close_inv serve_event_inv guard_inv writer_inv sample_inv delivery_inv upkeep_inv)

interpretation conc_runs: transition_system
  "\<lambda>v. \<exists>w qos fs nd. run_node x (w :: 'z world) qos fs cfg = Inr nd \<and> v = cnode_start (nd_broker nd)" "conc_step x api" "conc_inv x cfg"
  for x api cfg
proof unfold_locales
  fix v assume "\<exists>w qos fs nd. run_node x (w :: 'z world) qos fs cfg = Inr nd \<and> v = cnode_start (nd_broker nd)"
  with start_inv [of x] show "conc_inv x cfg v" by blast
qed (rule conc_step_inv)

end
