(* ===== verification/Concurrent_Refinement.thy ===== *)
theory Concurrent_Refinement
  imports Concurrent_Safety
begin

text \<open>
  The steps of one connection in \<open>Concurrent\<close>, taken without another task in between, are the
  sequential \<open>serve\<close> of \<open>Connection\<close> (\<open>connection.rs\<close>), so that what \<open>Connection_Safety\<close> and
  \<open>Connection_Protocol\<close> show of it holds for a connection of the running node that is left
  alone.
\<close>

section \<open>One connection, left alone\<close>

definition serve_steps ::
    "('c, 'l) extern \<Rightarrow> clocks \<Rightarrow> string \<Rightarrow> nat \<Rightarrow> first_read \<Rightarrow> nat \<Rightarrow> (clocks \<times> event) list \<Rightarrow> clocks \<Rightarrow> nat
       \<Rightarrow> ('c, 'l) cnode \<Rightarrow> ('c, 'l) cnode" where
  "serve_steps x now peer room fr n events last_now c w =
     serve_close x last_now c
       (foldl (\<lambda>w ne. serve_event x ne c w) ((serve_greet x c ^^ n) (serve_first x now peer room fr c w)) events)"

lemma enter_leave [simp]: "enter (leave cn ph oc) (cn_broker cn) = cn"
  by (simp add: enter_def leave_def)

lemma leave_simps [simp]:
  "oc_phase (leave cn ph oc) = ph" "oc_clean (leave cn ph oc) = oc_clean oc" "oc_epoch (leave cn ph oc) = oc_epoch oc"
  by (simp_all add: leave_def)

lemma not_open:
  assumes "open_at w c = None"
  shows "serve_greet x c w = w" and "serve_event x ne c w = w" and "serve_close x now c w = w"
  using assms by (simp_all add: serve_greet_def serve_event_def serve_close_def)

lemma not_open_steps:
  assumes "open_at w c = None"
  shows "serve_close x now c (foldl (\<lambda>w ne. serve_event x ne c w) ((serve_greet x c ^^ n) w) nes) = w"
proof -
  have "(serve_greet x c ^^ n) w = w" by (induction n) (simp_all add: not_open(1) [OF assms])
  moreover have "foldl (\<lambda>w ne. serve_event x ne c w) w nes = w" by (induction nes) (simp_all add: not_open(2) [OF assms])
  ultimately show ?thesis by (simp add: not_open(3) [OF assms])
qed

text \<open>The node at connection \<open>c\<close>: its tasks are a map, and \<open>c\<close> is open in the phase \<open>ph\<close>, about to go on
  from \<open>cn\<close>.\<close>

definition open_in :: "nat \<Rightarrow> phase \<Rightarrow> bool \<Rightarrow> u64 \<Rightarrow> ('c, 'l) conn \<Rightarrow> ('c, 'l) cnode \<Rightarrow> bool" where
  "open_in c ph clean ep cn w \<longleftrightarrow>
     hm_wf (cw_tasks w)
   \<and> (\<exists>oc. open_at w c = Some oc \<and> oc_phase oc = ph \<and> oc_clean oc = clean \<and> oc_epoch oc = ep \<and> enter oc (cw_broker w) = cn)"

lemma open_in_set:
  assumes "hm_wf (cw_tasks w)"
  shows "open_in c ph (oc_clean oc) (oc_epoch oc) cn (set_task c (Open (leave cn ph oc)) (set_broker (cn_broker cn) w))"
  using assms open_at_set [of "set_broker (cn_broker cn) w" c] by (simp add: open_in_def)

lemma left_set:
  "hm_wf (cw_tasks w) \<Longrightarrow> hm_get (cw_tasks (set_task c Leaving (set_broker b w))) c = Some Leaving"
  by simp

lemma greet_steps:
  "open_in c (Greeting gs) clean ep cn w \<Longrightarrow> try_each (greet x clean) gs cn = (r, cn') \<Longrightarrow>
     \<exists>n. let w' = (serve_greet x c ^^ n) w
         in cw_broker w' = cn_broker cn'
          \<and> (case r of Inl _ \<Rightarrow> hm_get (cw_tasks w') c = Some Leaving | Inr _ \<Rightarrow> open_in c Serving clean ep cn' w')"
proof (induction gs arbitrary: cn w)
  case Nil
  then obtain oc where oc: "open_at w c = Some oc" "oc_phase oc = Greeting []" "oc_clean oc = clean" "oc_epoch oc = ep"
    "enter oc (cw_broker w) = cn" "hm_wf (cw_tasks w)" by (auto simp: open_in_def)
  have "serve_greet x c w = set_task c (Open (oc\<lparr>oc_phase := Serving\<rparr>)) w" using oc(1,2) by (simp add: serve_greet_def)
  moreover have "enter (oc\<lparr>oc_phase := Serving\<rparr>) (cw_broker w) = cn" using oc(5) by (simp add: enter_def)
  ultimately have "open_in c Serving clean ep cn (serve_greet x c w)"
    using oc(3,4,6) open_at_set [OF oc(6), of c] by (simp add: open_in_def)
  moreover have "cn_broker cn = cw_broker w" using oc(5) by auto
  moreover have "cw_broker (serve_greet x c w) = cw_broker w" using oc(1,2) by (simp add: serve_greet_def)
  ultimately show ?case using Nil(2) by (intro exI [of _ 1]) auto
next
  case (Cons g gs)
  then obtain oc where oc: "open_at w c = Some oc" "oc_phase oc = Greeting (g # gs)" "oc_clean oc = clean" "oc_epoch oc = ep"
    "enter oc (cw_broker w) = cn" "hm_wf (cw_tasks w)" by (auto simp: open_in_def)
  obtain r1 cn1 where g: "greet x clean g cn = (r1, cn1)" by fastforce
  show ?case
  proof (cases r1)
    case (Inl e)
    with oc g have "serve_greet x c w = set_task c Leaving (set_broker (cn_broker cn1) w)" by (simp add: serve_greet_def)
    with Inl g Cons.prems(2) oc(6) show ?thesis by (intro exI [of _ 1]) (auto simp: Let_def)
  next
    case (Inr u)
    let ?w = "set_task c (Open (leave cn1 (Greeting gs) oc)) (set_broker (cn_broker cn1) w)"
    have "open_in c (Greeting gs) clean ep cn1 ?w" using open_in_set [OF oc(6), of c "Greeting gs" oc cn1] oc(3,4) by simp
    from Cons.IH [OF this] Inr g Cons.prems(2) obtain n where
      n: "let w' = (serve_greet x c ^^ n) ?w in cw_broker w' = cn_broker cn'
          \<and> (case r of Inl _ \<Rightarrow> hm_get (cw_tasks w') c = Some Leaving | Inr _ \<Rightarrow> open_in c Serving clean ep cn' w')" by auto
    have "serve_greet x c w = ?w" using oc g Inr by (simp add: serve_greet_def)
    then have "(serve_greet x c ^^ Suc n) w = (serve_greet x c ^^ n) ?w" by (simp add: funpow_Suc_right del: funpow.simps)
    with n show ?thesis by (intro exI [of _ "Suc n"]) (simp only:)
  qed
qed

lemma event_steps:
  "open_in c Serving clean ep cn w \<Longrightarrow> run x nes cn = (r, cn') \<Longrightarrow>
     open_in c (case r of None \<Rightarrow> Serving | Some res \<Rightarrow> Closing res) clean ep cn' (foldl (\<lambda>w ne. serve_event x ne c w) w nes)"
proof (induction nes arbitrary: cn w)
  case (Cons ne nes)
  then obtain oc where oc: "open_at w c = Some oc" "oc_phase oc = Serving" "oc_clean oc = clean" "oc_epoch oc = ep"
    "enter oc (cw_broker w) = cn" "hm_wf (cw_tasks w)" by (auto simp: open_in_def)
  obtain fl cn1 where e: "run_event x ne cn = (fl, cn1)" by fastforce
  let ?w = "set_task c (Open (leave cn1 (case fl of Continue \<Rightarrow> Serving | Break r \<Rightarrow> Closing r) oc)) (set_broker (cn_broker cn1) w)"
  have s: "serve_event x ne c w = ?w" using oc e by (simp add: serve_event_def)
  have o1: "open_in c (case fl of Continue \<Rightarrow> Serving | Break r \<Rightarrow> Closing r) clean ep cn1 ?w"
    using open_in_set [OF oc(6), of c _ oc cn1] oc(3,4) by simp
  show ?case
  proof (cases fl)
    case Continue
    with o1 s e Cons show ?thesis by simp
  next
    case (Break res)
    have "serve_event x ne c v = v" if "open_in c (Closing res) clean ep cn1 v" for v ne
      using that by (auto simp: serve_event_def open_in_def)
    then have "open_in c (Closing res) clean ep cn1 v \<Longrightarrow> foldl (\<lambda>w ne. serve_event x ne c w) v nes = v" for v
      by (induction nes arbitrary: v) auto
    with o1 s e Break Cons.prems(2) show ?thesis by auto
  qed
qed simp

text \<open>The greeting.\<close>

lemma greet_backlog: "try_each (greet x clean) (map SendBacklog ms) cn = try_each send_backlog_one ms cn"
  by (induction ms arbitrary: cn) (auto simp: greet_def split: prod.split sum.split)

lemma greeting_opens:
  assumes "attach_session now peer tx k room who cp b = (Some oc, b1)"
  shows "\<exists>gs. oc_phase oc = Greeting gs \<and> oc_clean oc = snd (session_name (snd now) cp)
    \<and> open_session x now peer tx k room who cp b =
        (case try_each (greet x (oc_clean oc)) gs (enter oc b1) of
           (Inl e, cn) \<Rightarrow> (Inl e, cn) | (Inr _, cn) \<Rightarrow> (Inr (oc_epoch oc), cn))"
proof -
  obtain cid clean where n: "session_name (snd now) cp = (cid, clean)" by fastforce
  obtain out st where a: "attach cid who clean tx k (b_store (count connections_total_update b)) = (out, st)" by fastforce
  from assms n a obtain ao where out: "out = Some ao" by (auto simp: attach_session_def Let_def)
  let ?gs = "SendConnAck (ao_present ao) # Announce peer # map SendBacklog (ao_backlog ao)"
  have oc: "oc_phase oc = Greeting ?gs" "oc_clean oc = clean"
    using assms n a out by (auto simp: attach_session_def Let_def)
  define cn0 where "cn0 = enter oc b1"
  have c0: "cl_id (cn_client cn0) = cid" "oc_epoch oc = ao_epoch ao"
    using assms n a out by (auto simp: attach_session_def Let_def cn0_def)
  let ?ev = "''connect addr='' @ peer @ '' clean='' @ show_bool clean"
  have op: "open_session x now peer tx k room who cp b =
      (case send (PConnAck Success (ao_present ao)) cn0 of
         (Inl e, cn) \<Rightarrow> (Inl e, cn)
       | (Inr _, cn) \<Rightarrow>
           (case try_each send_backlog_one (ao_backlog ao) (on_broker (publish_client_event x cid ?ev) cn) of
              (Inl e, cn) \<Rightarrow> (Inl e, cn) | (Inr _, cn) \<Rightarrow> (Inr (ao_epoch ao), cn)))"
    using assms n a out by (auto simp: open_session_def attach_session_def Let_def cn0_def enter_def)
  obtain r1 cn1 where s: "send (PConnAck Success (ao_present ao)) cn0 = (r1, cn1)" by fastforce
  then have id: "cl_id (cn_client cn1) = cid" using c0(1) by (auto simp: send_def split: if_splits)
  have "try_each (greet x clean) ?gs cn0 =
      (case r1 of Inl e \<Rightarrow> (Inl e, cn1)
       | Inr _ \<Rightarrow> try_each send_backlog_one (ao_backlog ao) (on_broker (publish_client_event x cid ?ev) cn1))"
    using s id by (cases r1) (simp_all add: greet_def [of _ _ "SendConnAck _"] greet_def [of _ _ "Announce _"] greet_backlog)
  then have "(case try_each (greet x clean) ?gs cn0 of (Inl e, cn) \<Rightarrow> (Inl e, cn) | (Inr _, cn) \<Rightarrow> (Inr (oc_epoch oc), cn))
      = open_session x now peer tx k room who cp b"
    unfolding op s by (cases r1) (simp_all only: c0(2) sum.case prod.case)
  then show ?thesis using oc n by (simp only: cn0_def) auto
qed

section \<open>The refinement\<close>

text \<open>What the steps of connection \<open>c\<close> lead to, against what \<open>serve\<close> returns.\<close>

definition served_as :: "('c, 'l) served \<Rightarrow> nat \<Rightarrow> ('c, 'l) cnode \<Rightarrow> bool" where
  "served_as sv c w \<longleftrightarrow>
     cw_broker w = sv_broker sv
   \<and> (case sv_result sv of
        None \<Rightarrow> \<exists>oc. open_at w c = Some oc \<and> oc_phase oc = Serving \<and> oc_out oc = sv_out sv
      | Some _ \<Rightarrow> hm_get (cw_tasks w) c = Some Leaving)"

lemma close_steps:
  assumes "open_in c (Closing res) clean ep cn w"
  shows "cw_broker (serve_close x now c w) = cn_broker (close_session x now clean ep res cn)
    \<and> hm_get (cw_tasks (serve_close x now c w)) c = Some Leaving"
  using assms by (auto simp: open_in_def serve_close_def)

lemma attached_served:
  assumes wf: "hm_wf (cw_tasks w)" and at: "attach_session now peer c c room who cp b = (Some oc, b1)"
    and w: "w1 = set_task c (Open oc) (set_broker b1 w)"
    and sv: "sv = (case open_session x now peer c c room who cp b of
        (Inl e, cn) \<Rightarrow> \<lparr>sv_result = Some (Inl e), sv_broker = cn_broker cn, sv_out = cn_out cn\<rparr>
      | (Inr ep, cn) \<Rightarrow>
          (case run x nes cn of
             (None, cn) \<Rightarrow> \<lparr>sv_result = None, sv_broker = cn_broker cn, sv_out = cn_out cn\<rparr>
           | (Some r, cn) \<Rightarrow>
               (let cn = close_session x last_now (snd (session_name (snd now) cp)) ep r cn
                in \<lparr>sv_result = Some r, sv_broker = cn_broker cn, sv_out = cn_out cn\<rparr>)))"
  shows "\<exists>n. served_as sv c (serve_close x last_now c (foldl (\<lambda>w ne. serve_event x ne c w) ((serve_greet x c ^^ n) w1) nes))"
proof -
  from greeting_opens [OF at, of x] obtain gs where gs: "oc_phase oc = Greeting gs" "oc_clean oc = snd (session_name (snd now) cp)"
    "open_session x now peer c c room who cp b =
        (case try_each (greet x (oc_clean oc)) gs (enter oc b1) of
           (Inl e, cn) \<Rightarrow> (Inl e, cn) | (Inr _, cn) \<Rightarrow> (Inr (oc_epoch oc), cn))" by blast
  obtain r cn where t: "try_each (greet x (oc_clean oc)) gs (enter oc b1) = (r, cn)" by fastforce
  have "open_in c (Greeting gs) (oc_clean oc) (oc_epoch oc) (enter oc b1) w1"
    using wf gs(1) open_at_set [of "set_broker b1 w" c] by (simp add: open_in_def w)
  from greet_steps [OF this t] obtain n where
    n: "cw_broker ((serve_greet x c ^^ n) w1) = cn_broker cn"
      "case r of Inl _ \<Rightarrow> hm_get (cw_tasks ((serve_greet x c ^^ n) w1)) c = Some Leaving
       | Inr _ \<Rightarrow> open_in c Serving (oc_clean oc) (oc_epoch oc) cn ((serve_greet x c ^^ n) w1)"
    by (auto simp: Let_def)
  show ?thesis
  proof (cases r)
    case (Inl e)
    with n have "open_at ((serve_greet x c ^^ n) w1) c = None" by (simp add: open_at_def)
    from not_open_steps [OF this, of x last_now 0] Inl n sv gs(3) t show ?thesis
      by (intro exI [of _ n]) (simp add: served_as_def)
  next
    case (Inr u)
    obtain r2 cn2 where run: "run x nes cn = (r2, cn2)" by fastforce
    let ?w2 = "foldl (\<lambda>w ne. serve_event x ne c w) ((serve_greet x c ^^ n) w1) nes"
    have o2: "open_in c (case r2 of None \<Rightarrow> Serving | Some res \<Rightarrow> Closing res) (oc_clean oc) (oc_epoch oc) cn2 ?w2"
      using event_steps [OF _ run] n(2) Inr by simp
    show ?thesis
    proof (cases r2)
      case None
      with o2 have "serve_close x last_now c ?w2 = ?w2" by (auto simp: open_in_def serve_close_def)
      with o2 None Inr sv gs(3) t run show ?thesis
        by (intro exI [of _ n]) (auto simp: served_as_def open_in_def)
    next
      case (Some res)
      with o2 close_steps [of c res _ _ cn2 ?w2 x last_now] Inr sv gs(2,3) t run show ?thesis
        by (intro exI [of _ n]) (auto simp: served_as_def Let_def)
    qed
  qed
qed



end
