(* ===== verification/Concurrent_Node.thy ===== *)
theory Concurrent_Node
  imports Concurrent_Refinement
begin

text \<open>
  The properties of a running node with all its connections, deliveries and background tasks at
  once, from its start (\<open>run\<close> in \<open>lib.rs\<close>) through every interleaving of the steps of
  \<open>Concurrent\<close>, with a small run they are tried on.
\<close>

lemma conc_reach:
  assumes "run_node x w qos fs cfg = Inr nd" and "(conc_step x api)\<^sup>*\<^sup>* (cnode_start (nd_broker nd)) v"
  shows "conc_inv x cfg v"
  using conc_runs.inv_reachable [OF _ assms(2)] assms(1) by blast

lemma open_owner:
  assumes "takeover_inv st T" and "T c = Some oc"
  shows "\<exists>s. hm_get (st_heap st) (cl_session (oc_client oc)) = Some s \<and> client_id s = cl_id (oc_client oc)"
  using takeover_invD(1) [OF assms] by (auto simp: conn_ok_def cores_def core_def)

lemma push_tasks: "cw_tasks w = cw_tasks v \<Longrightarrow> cw_tasks (push_packet c p w) = cw_tasks (push_packet c p v)"
  by (simp add: push_packet_def split: option.split task.split)

lemma push_delivery:
  assumes "get_at (cw_threads v) i = Some (r, th)" and "open_at v c = Some oc" and "hm_wf (cw_tasks v)"
    and "open_at (delivery_step i now outcome v) c = Some oc'" and "oc_out oc' \<noteq> oc_out oc"
  shows "\<exists>p. th_pc th = AtSend c p \<and> oc_out oc' = oc_out oc @ [PPublish p]"
proof -
  have tasks: "cw_tasks (delivery_step i now outcome v) = cw_tasks v
      \<or> (\<exists>tx p. th_pc th = AtSend tx p \<and> cw_tasks (delivery_step i now outcome v) = cw_tasks (push_packet tx (PPublish p) v))"
    using assms(1)
    by (auto simp: delivery_step_def Let_def split: option.splits prod.splits deliver_pc.splits intro!: push_tasks)
  have same: "open_at w c = open_at v c" if "cw_tasks w = cw_tasks v" for w :: "('a, 'b) cnode" using that by (simp add: open_at_def)
  have "open_at (push_packet tx p v) c = (if tx = c then Some (oc\<lparr>oc_out := oc_out oc @ [p], oc_room := oc_room oc - 1\<rparr>) else Some oc)" for tx p
    using assms(2,3) by (auto simp: push_packet_def open_at_Some open_at_set split: option.split task.split)
  with assms(2,4,5) tasks same show ?thesis by (auto simp: open_at_def split: if_splits)
qed

section \<open>A small run\<close>

text \<open>A node on the default configuration without TLS; one client connects, subscribes, and a sample
  reaches its subscription.\<close>

definition demo_cfg :: NodeConfig where
  "demo_cfg = NodeConfig_default\<lparr>cfg_tls := None\<rparr>"

definition demo_b0 :: "((string, RetainedEntry list) hashmap, gcra) Broker" where
  "demo_b0 = Broker_new demo_x (env_fs demo_env) demo_cfg (RetainedStore_default list_cache)"

lemma demo_cfg_simps:
  "cfg_tls demo_cfg = None" "cfg_metrics_listen demo_cfg = None" "cfg_health_listen demo_cfg = None" "cfg_data_dir demo_cfg = None"
  "cfg_acl demo_cfg = []" "cfg_auth demo_cfg = AuthConfig_default" "cfg_max_connections demo_cfg = 10000" "cfg_scope demo_cfg = []"
  "cfg_connect_admission_rate demo_cfg = 0" "cfg_max_publish_rate demo_cfg = 0"
  by (simp_all add: demo_cfg_def NodeConfig_default_def)

lemma demo_node: "\<exists>nd. run_node demo_x demo_world qos_std (env_fs demo_env) demo_cfg = Inr nd \<and> nd_broker nd = demo_b0"
proof -
  obtain nd where nd: "run_node demo_x demo_world qos_std (env_fs demo_env) demo_cfg = Inr nd"
    using demo_start [of "env_fs demo_env" None] by (auto simp: demo_cfg_def)
  moreover from nd have "nd_broker nd = demo_b0"
    by (elim run_node_Inr) (auto simp: demo_b0_def wire_def wire_restore_def demo_cfg_simps rehydrate_def Broker_new_def
        SessionRegistry_new_def Let_def demo_x_def split: if_splits)
  ultimately show ?thesis by blast
qed


definition demo_tls_api :: tls_api where "demo_tls_api = w_tls demo_world"

definition demo_login :: Connect where
  "demo_login = demo_connect\<lparr>cp_last_will := None\<rparr>"

definition demo_w1 :: "((string, RetainedEntry list) hashmap, gcra) cnode" where
  "demo_w1 = on_accept demo_tls_api PlainStream (cnode_start demo_b0)"

definition demo_w2 :: "((string, RetainedEntry list) hashmap, gcra) cnode" where
  "demo_w2 = serve_first demo_x (0, 0) ''p'' 9 (FirstPacket (PConnect demo_login)) 0 demo_w1"

definition demo_w2g :: "((string, RetainedEntry list) hashmap, gcra) cnode" where
  "demo_w2g = serve_greet demo_x 0 (serve_greet demo_x 0 (serve_greet demo_x 0 demo_w2))"

definition demo_w3 :: "((string, RetainedEntry list) hashmap, gcra) cnode" where
  "demo_w3 = serve_event demo_x ((1, 1), Recv (PSubscribe 1 [(''a/b'', AtLeastOnce)])) 0 demo_w2g"

definition demo_w4 :: "((string, RetainedEntry list) hashmap, gcra) cnode" where
  "demo_w4 = new_sample 0 ''a/b'' AtLeastOnce [5] demo_w3"

definition demo_w5 :: "((string, RetainedEntry list) hashmap, gcra) cnode" where
  "demo_w5 = delivery_step 0 3 SendOk demo_w4"

lemma demo_b0_facts:
  "b_conn_count demo_b0 = 0" "b_cfg demo_b0 = demo_cfg" "b_admission demo_b0 = None" "b_bus demo_b0 = []"
  "b_auth demo_b0 = Authenticator_new AuthConfig_default" "b_acl demo_b0 = Acl_new [] Allow"
  "b_retained demo_b0 = RetainedStore_default list_cache"
  "b_store demo_b0 = store_init 1000 (Some 5000000000) None demo_env"
proof -
  have "cfg_slow_consumer_grace_ms demo_cfg = 5000" "cfg_max_queued_per_session demo_cfg = 1000"
    by (simp_all add: demo_cfg_def NodeConfig_default_def)
  then show "b_store demo_b0 = store_init 1000 (Some 5000000000) None demo_env"
    by (simp add: demo_b0_def Broker_new_def demo_cfg_simps store_init_def demo_env_def)
qed (simp_all add: demo_b0_def Broker_new_def demo_cfg_simps AuthConfig_default_def ConnectAdmission_new_def)
  
lemma demo_gate: "connect_gate demo_x (0, 0) None demo_login (demo_b0\<lparr>b_conn_count := n\<rparr>) = (Granted '''', demo_b0\<lparr>b_conn_count := n\<rparr>)"
proof -
  have "authenticate (\<lambda>_. []) (Authenticator_new AuthConfig_default) None = Inr ''''" by code_simp
  moreover have u: "demo_b0\<lparr>b_conn_count := n, b_admission := None\<rparr> = demo_b0\<lparr>b_conn_count := n\<rparr>"
    using demo_b0_facts(3) by (cases demo_b0) simp
  ultimately show ?thesis
    by (simp add: connect_gate_def admit_def demo_b0_facts u) (simp add: demo_x_def u demo_login_def demo_connect_def)
qed

definition demo_state :: SessionState where
  "demo_state = (SessionState_new (env_fs demo_env) ''dev1'' 1000 (Some 5000000000) None None)
     \<lparr>inner := \<lparr>epoch = 1, sink = Some 0, kick = Some 0, kick_reason = None, identity = '''', subs = [], queue = [],
        dropped = 0, offline_since = None\<rparr>\<rparr>"

lemma demo_attach:
  "attach ''dev1'' '''' True 0 0 ((store_init 1000 (Some 5000000000) None demo_env)\<lparr>st_env := demo_env\<lparr>env_metrics := m\<rparr>\<rparr>) =
     (Some \<lparr>ao_session = 0, ao_present = False, ao_epoch = 1, ao_backlog = []\<rparr>,
      \<lparr>st_registry = (SessionRegistry_new 1000 (Some 5000000000) None)\<lparr>sessions := [(''dev1'', 0)]\<rparr>,
       st_heap = [(0, demo_state)], st_next = 1, st_env = demo_env\<lparr>env_metrics := m\<rparr>\<rparr>)"
  by (simp add: attach_def attach_clean attach_conn_new cleared_def alloc_def Let_def demo_state_def
        store_init_def SessionRegistry_new_def discard_paths_def queue_path_def subs_path_def discard_file_def register_def hm_insert_def split: option.split)

lemma demo_keeps:
  "b_store (publish_client_event x cid ev b) = b_store b" "b_cfg (publish_client_event x cid ev b) = b_cfg b"
  "b_acl (publish_client_event x cid ev b) = b_acl b" "b_conn_count (publish_client_event x cid ev b) = b_conn_count b"
  "b_retained (publish_client_event x cid ev b) = b_retained b"
  "st_heap (b_store (count f b)) = st_heap (b_store b)" "b_cfg (count f b) = b_cfg b" "b_acl (count f b) = b_acl b"
  "b_conn_count (count f b) = b_conn_count b" "b_retained (count f b) = b_retained b"
  "env_notified (st_env (b_store (count f b))) = env_notified (st_env (b_store b))"
  "st_registry (b_store (count f b)) = st_registry (b_store b)" "b_admission (count f b) = b_admission b"
  "b_auth (count f b) = b_auth b" "b_admission (publish_client_event x cid ev b) = b_admission b"
  "b_auth (publish_client_event x cid ev b) = b_auth b"
  by (simp_all add: publish_client_event_def bus_write_def count_def Let_def)

text \<open>What stays the same of the broker during the run.\<close>

definition demo_kept :: "((string, RetainedEntry list) hashmap, gcra) Broker \<Rightarrow> bool" where
  "demo_kept b \<longleftrightarrow> env_notified (st_env (b_store b)) = [] \<and> b_cfg b = demo_cfg \<and> b_acl b = Acl_new [] Allow
     \<and> b_admission b = None \<and> b_auth b = Authenticator_new AuthConfig_default \<and> b_conn_count b = 1
     \<and> st_registry (b_store b) = (SessionRegistry_new 1000 (Some 5000000000) None)\<lparr>sessions := [(''dev1'', 0)]\<rparr>"

definition demo_client :: Client where
  "demo_client = \<lparr>cl_session = 0, cl_id = ''dev1'', cl_identity = '''', cl_keep_alive = 60, cl_will = None,
     cl_rate = RateLimiter_new 0 0, cl_inflight = []\<rparr>"

definition demo_oc :: oconn where
  "demo_oc = \<lparr>oc_client = demo_client, oc_clean = True, oc_epoch = 1, oc_writer = True, oc_out = [], oc_room = 9,
     oc_phase = Greeting [SendConnAck False, Announce ''p'']\<rparr>"

lemma demo_oc_simps:
  "oc_client demo_oc = demo_client" "oc_clean demo_oc = True" "oc_epoch demo_oc = 1" "oc_writer demo_oc = True"
  "oc_out demo_oc = []" "oc_room demo_oc = 9" "oc_phase demo_oc = Greeting [SendConnAck False, Announce ''p'']"
  "cl_session demo_client = 0" "cl_id demo_client = ''dev1''" "cl_identity demo_client = ''''"
  by (simp_all add: demo_oc_def demo_client_def)

lemma demo_attach_session:
  "\<exists>b. attach_session (0, 0) ''p'' 0 0 9 '''' demo_login (demo_b0\<lparr>b_conn_count := 1\<rparr>) = (Some demo_oc, b)
     \<and> st_heap (b_store b) = [(0, demo_state)] \<and> demo_kept b \<and> b_retained b = RetainedStore_default list_cache"
proof -
  have nm: "session_name 0 demo_login = (''dev1'', True)" by (simp add: session_name_def demo_login_def demo_connect_def)
  obtain m where m: "b_store (count connections_total_update (demo_b0\<lparr>b_conn_count := 1\<rparr>)) =
      (store_init 1000 (Some 5000000000) None demo_env)\<lparr>st_env := demo_env\<lparr>env_metrics := m\<rparr>\<rparr>"
    by (simp add: count_def Let_def demo_b0_facts store_init_def)
  show ?thesis
    by (simp add: attach_session_def nm m demo_attach demo_kept_def demo_keeps demo_b0_facts demo_cfg_simps)
      (simp add: demo_oc_def demo_client_def demo_login_def demo_connect_def demo_env_def)
qed

lemma demo_w2_eq:
  "\<exists>b. demo_w2 = \<lparr>cw_broker = b, cw_tasks = [(0, Open demo_oc)], cw_next = 1, cw_threads = []\<rparr>
     \<and> st_heap (b_store b) = [(0, demo_state)] \<and> demo_kept b \<and> b_retained b = RetainedStore_default list_cache"
proof -
  have w1: "demo_w1 = \<lparr>cw_broker = demo_b0\<lparr>b_conn_count := 1\<rparr>, cw_tasks = [(0, Waiting None)], cw_next = 1, cw_threads = []\<rparr>"
    by (simp add: demo_w1_def on_accept_def spawn_task_def cnode_start_def set_task_def set_broker_def Let_def demo_b0_facts
        demo_cfg_simps hm_insert_def)
  show ?thesis using demo_attach_session
    by (auto simp: demo_w2_def serve_first_def w1 demo_gate set_task_def set_broker_def hm_insert_def)
qed

text \<open>After the greeting.\<close>

definition demo_og :: oconn where
  "demo_og = demo_oc\<lparr>oc_out := [PConnAck Success False], oc_room := 8, oc_phase := Serving\<rparr>"

lemma demo_w2g_eq:
  "\<exists>b. demo_w2g = \<lparr>cw_broker = b, cw_tasks = [(0, Open demo_og)], cw_next = 1, cw_threads = []\<rparr>
     \<and> st_heap (b_store b) = [(0, demo_state)] \<and> demo_kept b \<and> b_retained b = RetainedStore_default list_cache"
proof -
  obtain b where w2: "demo_w2 = \<lparr>cw_broker = b, cw_tasks = [(0, Open demo_oc)], cw_next = 1, cw_threads = []\<rparr>"
    and b: "st_heap (b_store b) = [(0, demo_state)]" "demo_kept b" "b_retained b = RetainedStore_default list_cache"
    using demo_w2_eq by blast
  let ?o1 = "demo_oc\<lparr>oc_out := [PConnAck Success False], oc_room := 8, oc_phase := Greeting [Announce ''p'']\<rparr>"
  have 1: "serve_greet demo_x 0 demo_w2 = \<lparr>cw_broker = b, cw_tasks = [(0, Open ?o1)], cw_next = 1, cw_threads = []\<rparr>"
    by (simp add: serve_greet_def w2 open_at_def demo_oc_simps greet_def enter_def send_def leave_def set_task_def set_broker_def
        hm_insert_def)
  let ?b = "publish_client_event demo_x ''dev1'' (''connect addr='' @ ''p'' @ '' clean='' @ show_bool True) b"
  let ?o2 = "demo_oc\<lparr>oc_out := [PConnAck Success False], oc_room := 8, oc_phase := Greeting []\<rparr>"
  have 2: "serve_greet demo_x 0 (serve_greet demo_x 0 demo_w2) = \<lparr>cw_broker = ?b, cw_tasks = [(0, Open ?o2)], cw_next = 1, cw_threads = []\<rparr>"
    unfolding 1
    by (simp add: serve_greet_def open_at_def demo_oc_simps greet_def enter_def on_broker_def leave_def set_task_def set_broker_def
        hm_insert_def)
  have "demo_w2g = \<lparr>cw_broker = ?b, cw_tasks = [(0, Open demo_og)], cw_next = 1, cw_threads = []\<rparr>"
    unfolding demo_w2g_def 2 by (simp add: serve_greet_def open_at_def set_task_def hm_insert_def demo_og_def)
  moreover have "st_heap (b_store ?b) = [(0, demo_state)]" "demo_kept ?b" "b_retained ?b = RetainedStore_default list_cache"
    using b unfolding demo_kept_def demo_keeps by blast+
  ultimately show ?thesis by blast
qed

lemma demo_subscribe:
  assumes "st_heap (b_store b) = [(0, demo_state)]" and "demo_kept b" and "b_retained b = RetainedStore_default list_cache" and "cl_session cl = 0" and "cl_identity cl = ''''"
  shows "\<exists>b' n. handle_packet demo_x (1, 1) (PSubscribe 1 [(''a/b'', AtLeastOnce)]) \<lparr>cn_client = cl, cn_broker = b, cn_out = out, cn_room = 8\<rparr>
      = (Continue, \<lparr>cn_client = cl, cn_broker = b', cn_out = out @ [PSubAck 1 [SubSuccess AtLeastOnce]], cn_room = 7\<rparr>)
    \<and> st_heap (b_store b') = [(0, fst (insert_sub ''a/b'' AtLeastOnce n (demo_state, demo_env)))] \<and> demo_kept b'"
proof -
  have f: "filter_to_keyexpr ''a/b'' '''' = Inr ''a/b''" by code_simp
  have m: "may_subscribe (Acl_new [] Allow) '''' ''a/b''" by code_simp
  have g: "granted_qos AtLeastOnce = AtLeastOnce" by code_simp
  have c: "cfg_scope demo_cfg = ''''" by (simp add: demo_cfg_simps)
  have e: "subs (inner demo_state) = []" "s_path demo_state = None" by (simp_all add: demo_state_def SessionState_new_def)
  have r: "\<exists>rs. matching_cached list_cache ''a/b'' (RetainedStore_default list_cache) = ([], rs)"
    by (simp add: matching_cached_def RetainedStore_default_def list_cache_def matching_def scan_map_def Let_def)
  show ?thesis
    using assms f m g c r e
    by (auto simp: demo_kept_def handle_packet_def or_break_def handle_subscribe_def subscribe_filter_def activate_subscription_def
        demo_keeps on_broker_def on_session_def send_def granted_filters_def deliver_retained_def demo_x_def hm_insert_def
        insert_sub_def persist_subs_def Let_def split: option.split)
qed

definition demo_sent :: Publish where
  "demo_sent = (Publish_new ''a/b'' AtLeastOnce [5])\<lparr>p_pkid := 1\<rparr>"

text \<open>After the SUBSCRIBE, and after the sample reached its task.\<close>

definition demo_o3 :: oconn where
  "demo_o3 = demo_og\<lparr>oc_out := [PConnAck Success False, PSubAck 1 [SubSuccess AtLeastOnce]], oc_room := 7\<rparr>"

abbreviation demo_fwd :: "deliver_pc \<Rightarrow> thread" where
  "demo_fwd pc \<equiv> \<lparr>th_topic = ''a/b'', th_payload = [5], th_qos = AtLeastOnce, th_pc = pc\<rparr>"

lemma demo_w4_eq:
  "\<exists>b n. demo_w3 = \<lparr>cw_broker = b, cw_tasks = [(0, Open demo_o3)], cw_next = 1, cw_threads = []\<rparr>
     \<and> demo_w4 = \<lparr>cw_broker = b, cw_tasks = [(0, Open demo_o3)], cw_next = 1, cw_threads = [(0, demo_fwd AtLoop)]\<rparr>
     \<and> st_heap (b_store b) = [(0, fst (insert_sub ''a/b'' AtLeastOnce n (demo_state, demo_env)))] \<and> demo_kept b"
proof -
  obtain b where w2: "demo_w2g = \<lparr>cw_broker = b, cw_tasks = [(0, Open demo_og)], cw_next = 1, cw_threads = []\<rparr>"
     and b: "st_heap (b_store b) = [(0, demo_state)]" "demo_kept b" "b_retained b = RetainedStore_default list_cache"
    using demo_w2g_eq by blast
  from demo_subscribe [OF b demo_oc_simps(8,10)] obtain b' n where
    h: "handle_packet demo_x (1, 1) (PSubscribe 1 [(''a/b'', AtLeastOnce)])
         \<lparr>cn_client = demo_client, cn_broker = b, cn_out = [PConnAck Success False], cn_room = 8\<rparr>
      = (Continue, \<lparr>cn_client = demo_client, cn_broker = b', cn_out = [PConnAck Success False] @ [PSubAck 1 [SubSuccess AtLeastOnce]], cn_room = 7\<rparr>)"
    and b': "st_heap (b_store b') = [(0, fst (insert_sub ''a/b'' AtLeastOnce n (demo_state, demo_env)))]" "demo_kept b'" by blast
  have w3: "demo_w3 = \<lparr>cw_broker = b', cw_tasks = [(0, Open demo_o3)], cw_next = 1, cw_threads = []\<rparr>"
    using h by (simp add: demo_w3_def serve_event_def w2 open_at_def demo_o3_def demo_og_def demo_oc_simps enter_def run_event_def
        leave_def set_task_def set_broker_def hm_insert_def)
  have k: "keyexpr_to_topic ''a/b'' '''' = Some ''a/b''" by code_simp
  from b'(2) have "cfg_scope (b_cfg b') = ''''" by (simp add: demo_kept_def demo_cfg_simps)
  then have "demo_w4 = \<lparr>cw_broker = b', cw_tasks = [(0, Open demo_o3)], cw_next = 1, cw_threads = [(0, demo_fwd AtLoop)]\<rparr>"
    by (simp add: demo_w4_def new_sample_def w3 k)
  with w3 b' show ?thesis by blast
qed

lemma demo_w4_facts:
  "cw_threads demo_w4 = [(0, demo_fwd AtLoop)]" "cw_broker demo_w3 = cw_broker demo_w4" "demo_kept (cw_broker demo_w4)"
  "\<exists>n. st_heap (b_store (cw_broker demo_w4)) = [(0, fst (insert_sub ''a/b'' AtLeastOnce n (demo_state, demo_env)))]"
proof -
  obtain b n where w: "demo_w3 = \<lparr>cw_broker = b, cw_tasks = [(0, Open demo_o3)], cw_next = 1, cw_threads = []\<rparr>"
    "demo_w4 = \<lparr>cw_broker = b, cw_tasks = [(0, Open demo_o3)], cw_next = 1, cw_threads = [(0, demo_fwd AtLoop)]\<rparr>"
    "st_heap (b_store b) = [(0, fst (insert_sub ''a/b'' AtLeastOnce n (demo_state, demo_env)))]" "demo_kept b"
    using demo_w4_eq by blast
  show "cw_threads demo_w4 = [(0, demo_fwd AtLoop)]" "cw_broker demo_w3 = cw_broker demo_w4" "demo_kept (cw_broker demo_w4)"
    by (simp_all add: w)
  have "cw_broker demo_w4 = b" by (simp add: w(2))
  with w(3) show "\<exists>n. st_heap (b_store (cw_broker demo_w4)) = [(0, fst (insert_sub ''a/b'' AtLeastOnce n (demo_state, demo_env)))]"
    by blast
qed

lemma demo_w5_eq:
  "open_at demo_w5 0 = Some demo_o3" "get_at (cw_threads demo_w5) 0 = Some (0, demo_fwd (AtSend 0 demo_sent))"
  "open_at (delivery_step 0 4 SendOk demo_w5) 0 = Some (demo_o3\<lparr>oc_out := oc_out demo_o3 @ [PPublish demo_sent], oc_room := 6\<rparr>)"
proof -
  obtain b n where w4: "demo_w4 = \<lparr>cw_broker = b, cw_tasks = [(0, Open demo_o3)], cw_next = 1, cw_threads = [(0, demo_fwd AtLoop)]\<rparr>"
    and b: "st_heap (b_store b) = [(0, fst (insert_sub ''a/b'' AtLeastOnce n (demo_state, demo_env)))]"
    using demo_w4_eq by blast
  have s: "sink (inner demo_state) = Some 0" "pkid demo_state = 1" "slow_grace demo_state = Some 5000000000" "subs (inner demo_state) = []"
    by (simp_all add: demo_state_def SessionState_new_def)
  obtain p where d: "draw_pkid 1 = (1, p)" by (simp add: draw_pkid.simps)
  have w5: "cw_tasks demo_w5 = [(0, Open demo_o3)]" "cw_threads demo_w5 = [(0, demo_fwd (AtSend 0 demo_sent))]"
    "\<exists>s. hm_get (st_heap (b_store (cw_broker demo_w5))) 0 = Some s \<and> slow_grace s = Some 5000000000"
    by (simp_all add: demo_w5_def delivery_step_def w4 b deliver_step_def insert_sub_def Let_def s d next_pkid_def demo_sent_def
        hm_insert_def)
  then show "open_at demo_w5 0 = Some demo_o3" "get_at (cw_threads demo_w5) 0 = Some (0, demo_fwd (AtSend 0 demo_sent))"
    by (simp_all add: open_at_def)
  have "oc_room demo_o3 = 7" by (simp add: demo_o3_def)
  with w5 show "open_at (delivery_step 0 4 SendOk demo_w5) 0 = Some (demo_o3\<lparr>oc_out := oc_out demo_o3 @ [PPublish demo_sent], oc_room := 6\<rparr>)"
    by (auto simp: open_at_def delivery_step_def push_packet_def deliver_step_def hm_insert_def Let_def)
qed

lemma demo_epochs: "epochs_left (b_store demo_b0)"
  by (simp add: epochs_left_def demo_b0_facts store_init_def)

lemma demo_reach:
  "conc_step demo_x demo_tls_api (cnode_start demo_b0) demo_w1" "conc_step demo_x demo_tls_api demo_w1 demo_w2"
  "(conc_step demo_x demo_tls_api)\<^sup>*\<^sup>* demo_w2 demo_w2g" "conc_step demo_x demo_tls_api demo_w2g demo_w3"
proof -
  show "conc_step demo_x demo_tls_api (cnode_start demo_b0) demo_w1"
    unfolding demo_w1_def by (rule conc_step.accept) (simp add: cnode_start_def demo_b0_facts)
  have "b_store (cw_broker demo_w1) = b_store demo_b0"
    by (simp add: demo_w1_def on_accept_def spawn_task_def cnode_start_def Let_def)
  then show "conc_step demo_x demo_tls_api demo_w1 demo_w2"
    unfolding demo_w2_def using demo_epochs by (intro conc_step.first) simp
  show "(conc_step demo_x demo_tls_api)\<^sup>*\<^sup>* demo_w2 demo_w2g"
    unfolding demo_w2g_def by (meson conc_step.greeting rtranclp.rtrancl_into_rtrancl rtranclp.rtrancl_refl)
  show "conc_step demo_x demo_tls_api demo_w2g demo_w3"
    unfolding demo_w3_def by (rule conc_step.event) simp
qed

lemma demo_reach_w2: "(conc_step demo_x demo_tls_api)\<^sup>*\<^sup>* (cnode_start demo_b0) demo_w2"
  using demo_reach(1,2) by (meson rtranclp.rtrancl_into_rtrancl rtranclp.rtrancl_refl)

lemma demo_reach_w4: "(conc_step demo_x demo_tls_api)\<^sup>*\<^sup>* (cnode_start demo_b0) demo_w4"
proof -
  obtain n where "st_heap (b_store (cw_broker demo_w3)) = [(0, fst (insert_sub ''a/b'' AtLeastOnce n (demo_state, demo_env)))]"
    using demo_w4_facts(2,4) by auto
  then have "\<exists>s entry. hm_get (st_heap (b_store (cw_broker demo_w3))) 0 = Some s \<and> hm_get (subs (inner s)) ''a/b'' = Some entry
      \<and> sub_qos entry = AtLeastOnce"
    by (simp add: insert_sub_def Let_def demo_state_def SessionState_new_def)
  then obtain s entry where "hm_get (st_heap (b_store (cw_broker demo_w3))) 0 = Some s" "hm_get (subs (inner s)) ''a/b'' = Some entry"
    "sub_qos entry = AtLeastOnce" by blast
  from conc_step.sample [OF this(1,2), of demo_x demo_tls_api "''a/b''" "[5]"] this(3)
  have "conc_step demo_x demo_tls_api demo_w3 demo_w4" by (simp add: demo_w4_def)
  with demo_reach_w2 demo_reach(3,4) show ?thesis by (meson rtranclp.rtrancl_into_rtrancl rtranclp_trans)
qed

lemma demo_reach_w5: "(conc_step demo_x demo_tls_api)\<^sup>*\<^sup>* (cnode_start demo_b0) demo_w5"
proof -
  have "th_pc th \<noteq> AtSend tx p" if "get_at (cw_threads demo_w4) 0 = Some (r, th)" for r th tx p
    using that demo_w4_facts(1) by auto
  then have "conc_step demo_x demo_tls_api demo_w4 demo_w5"
    unfolding demo_w5_def by (intro conc_step.delivery) blast
  with demo_reach_w4 show ?thesis by (meson rtranclp.rtrancl_into_rtrancl)
qed

text \<open>The same client connects again, to resume its session, while the sample is on its way.\<close>

definition demo_resume :: Connect where
  "demo_resume = demo_login\<lparr>cp_clean_session := False\<rparr>"

definition demo_w6 :: "((string, RetainedEntry list) hashmap, gcra) cnode" where
  "demo_w6 = serve_first demo_x (5, 5) ''q'' 9 (FirstPacket (PConnect demo_resume)) 1 (on_accept demo_tls_api PlainStream demo_w4)"

lemma demo_regate:
  assumes "demo_kept b"
  shows "connect_gate demo_x (5, 5) None demo_resume (b\<lparr>b_conn_count := n\<rparr>) = (Granted '''', b\<lparr>b_conn_count := n\<rparr>)"
proof -
  have "authenticate (\<lambda>_. []) (Authenticator_new AuthConfig_default) None = Inr ''''" by code_simp
  moreover have "b\<lparr>b_conn_count := n, b_admission := None\<rparr> = b\<lparr>b_conn_count := n\<rparr>"
    using assms by (cases b) (simp add: demo_kept_def)
  ultimately show ?thesis
    using assms by (simp add: connect_gate_def admit_def demo_kept_def) (simp add: demo_x_def demo_resume_def demo_login_def demo_connect_def)
qed

lemma demo_w6_eq:
  "\<exists>oc. open_at demo_w6 1 = Some oc \<and> oc_phase oc = Greeting [SendConnAck True, Announce ''q''] \<and> oc_writer oc \<and> oc_room oc = 9
     \<and> oc_out oc = [] \<and> cl_session (oc_client oc) = 0 \<and> 1 \<notin> notified (b_store (cw_broker demo_w6))
     \<and> get_at (cw_threads demo_w6) 0 = Some (0, demo_fwd AtLoop)"
proof -
  obtain b n oc0 where w4: "demo_w4 = \<lparr>cw_broker = b, cw_tasks = [(0, Open oc0)], cw_next = 1,
      cw_threads = [(0, demo_fwd AtLoop)]\<rparr>"
    and b: "st_heap (b_store b) = [(0, fst (insert_sub ''a/b'' AtLeastOnce n (demo_state, demo_env)))]" "demo_kept b"
    using demo_w4_eq by blast
  have nm: "session_name 5 demo_resume = (''dev1'', False)" by (simp add: session_name_def demo_resume_def demo_login_def demo_connect_def)
  let ?b = "b\<lparr>b_conn_count := 2\<rparr>"
  have c: "st_heap (b_store (count connections_total_update ?b)) = st_heap (b_store b)"
    "st_registry (b_store (count connections_total_update ?b)) = st_registry (b_store b)"
    "env_notified (st_env (b_store (count connections_total_update ?b))) = env_notified (st_env (b_store b))"
    by (simp_all add: demo_keeps)
  obtain st' where a: "attach ''dev1'' '''' False 1 1 (b_store (count connections_total_update ?b)) =
      (Some \<lparr>ao_session = 0, ao_present = True, ao_epoch = 2, ao_backlog = []\<rparr>, st')" "notified st' = {0}"
    using b c
    by (simp add: attach_def attach_lookup_def Let_def demo_kept_def register_def attach_conn_def attach_locked_def insert_sub_def
        persist_subs_def demo_state_def SessionState_new_def SessionRegistry_new_def discard_queue_file_def notify_def)
  have w: "on_accept demo_tls_api PlainStream demo_w4 = \<lparr>cw_broker = ?b, cw_tasks = [(0, Open oc0), (1, Waiting None)], cw_next = 2,
      cw_threads = [(0, demo_fwd AtLoop)]\<rparr>"
    using b(2) by (simp add: on_accept_def spawn_task_def w4 Let_def set_task_def set_broker_def demo_kept_def demo_cfg_simps hm_insert_def)
  show ?thesis
    using a demo_regate [OF b(2), of 2]
    unfolding demo_w6_def w by (simp add: serve_first_def attach_session_def nm set_task_def set_broker_def hm_insert_def open_at_def)
qed

lemma demo_reach_w6: "(conc_step demo_x demo_tls_api)\<^sup>*\<^sup>* (cnode_start demo_b0) demo_w6"
proof -
  obtain n where b: "st_heap (b_store (cw_broker demo_w4)) = [(0, fst (insert_sub ''a/b'' AtLeastOnce n (demo_state, demo_env)))]"
    using demo_w4_facts(4) by blast
  let ?v = "on_accept demo_tls_api PlainStream demo_w4"
  have "conc_step demo_x demo_tls_api demo_w4 ?v"
    by (rule conc_step.accept) (use demo_w4_facts(3) in \<open>simp add: demo_kept_def\<close>)
  moreover have "b_store (cw_broker ?v) = b_store (cw_broker demo_w4)" by (simp add: on_accept_def spawn_task_def Let_def)
  then have "epochs_left (b_store (cw_broker ?v))"
    using b by (simp add: epochs_left_def insert_sub_def Let_def demo_state_def)
  then have "conc_step demo_x demo_tls_api ?v demo_w6" unfolding demo_w6_def by (rule conc_step.first)
  ultimately show ?thesis using demo_reach_w4 by (meson rtranclp.rtrancl_into_rtrancl)
qed

section \<open>Properties\<close>





text \<open>(C5) A delivery reaches only its own client: in every such interleaving, whatever packet a locked
  section of a delivery hands to an open connection goes to a connection of the session whose
  subscription the delivery belongs to, under that session's client id, however often the
  client was taken over in between, and it is one well-formed PUBLISH appended to what the
  connection was sent before.\<close>

theorem deliveries_stay_in_session:
  assumes "run_node x w qos fs cfg = Inr nd" and "(conc_step x api)\<^sup>*\<^sup>* (cnode_start (nd_broker nd)) v"
    and "get_at (cw_threads v) i = Some (r, th)" and "open_at v c = Some oc"
    and "open_at (delivery_step i now outcome v) c = Some oc'" and "oc_out oc' \<noteq> oc_out oc"
  shows "cl_session (oc_client oc) = r
    \<and> (\<exists>s. hm_get (st_heap (b_store (cw_broker v))) r = Some s \<and> client_id s = cl_id (oc_client oc))
    \<and> (\<exists>p. oc_out oc' = oc_out oc @ [PPublish p] \<and> packet_wf (PPublish p))"
proof -
  have i: "conc_inv x cfg v" by (rule conc_reach [OF assms(1,2)])
  note n = conc_invD [OF i]
  obtain p where p: "th_pc th = AtSend c p" "oc_out oc' = oc_out oc @ [PPublish p]" using push_delivery [OF assms(3,4) _ assms(5,6)] n(2) by (auto simp: counts_ok_def)
  have "(r, th) \<in> set (cw_threads v)" using assms(3) by (metis get_at_nth nth_mem option.inject option.simps(3))
  with n(6) p(1) have "thread_ok v r (AtSend c p)" by metis
  with assms(4) have "cl_session (oc_client oc) = r" "packet_wf (PPublish p)" by (simp_all add: thread_ok_def)
  with p(2) open_owner [OF n(3) assms(4)] show ?thesis by auto
qed


theorem deliveries_stay_in_session_witness:
  "\<exists>oc oc' p. open_at demo_w5 0 = Some oc \<and> cl_session (oc_client oc) = 0
     \<and> open_at (delivery_step 0 4 SendOk demo_w5) 0 = Some oc' \<and> oc_out oc' = oc_out oc @ [PPublish p] \<and> packet_wf (PPublish p)"
proof -
  obtain nd where nd: "run_node demo_x demo_world qos_std (env_fs demo_env) demo_cfg = Inr nd" "nd_broker nd = demo_b0"
    using demo_node by blast
  have r: "(conc_step demo_x demo_tls_api)\<^sup>*\<^sup>* (cnode_start (nd_broker nd)) demo_w5" using demo_reach_w5 nd(2) by simp
  have "cl_session (oc_client demo_o3) = 0" by (simp add: demo_o3_def demo_og_def demo_oc_simps)
  with deliveries_stay_in_session [OF nd(1) r demo_w5_eq(2,1,3)] demo_w5_eq(1,3) show ?thesis by auto
qed

section \<open>Live traffic before the CONNACK\<close>

text \<open>(C17) \<open>serve\<close> attaches the session before it sends the CONNACK, and means the backlog to go out
  \<open>before any live traffic\<close>. From the attach on the session's channel is the new one, so a
  delivery that runs before the greeting hands its PUBLISH to the new connection ahead of the CONNACK
  and of the backlog.\<close>

theorem live_overtakes_connack:
  assumes "run_node x w qos fs cfg = Inr nd" and "(conc_step x api)\<^sup>*\<^sup>* (cnode_start (nd_broker nd)) v"
    and "open_at v c = Some oc" and "oc_phase oc = Greeting (SendConnAck present # gs)" and "oc_writer oc" and "0 < oc_room oc"
    and "c \<notin> notified (b_store (cw_broker v))"
    and "get_at (cw_threads v) i = Some (cl_session (oc_client oc), th)" and "th_pc th = AtLoop"
  shows "\<exists>v' oc' p. (conc_step x api)\<^sup>*\<^sup>* v v' \<and> open_at v' c = Some oc'
    \<and> oc_out oc' = oc_out oc @ [PPublish p] \<and> p_topic p = th_topic th \<and> oc_phase oc' = Greeting (SendConnAck present # gs)"
proof -
  have n: "takeover_inv (store_of v) (open_at v)" "hm_wf (cw_tasks v)"
    using conc_invD(2,3) [OF conc_reach [OF assms(1,2)]] by (simp_all add: counts_ok_def)
  let ?r = "cl_session (oc_client oc)"
  have "current (store_of v) c oc" using takeover_invD(1) [OF n(1) assms(3)] assms(5,7) by (simp add: conn_ok_def told_def)
  then obtain s where s: "hm_get (st_heap (store_of v)) ?r = Some s" "sink (inner s) = Some c"
    by (auto simp: current_def cores_def core_def)
  obtain pc s1 e1 where d1: "deliver_step (th_topic th) (th_payload th) (th_qos th) 0 SendOk (AtLoop, s, st_env (store_of v)) = (pc, s1, e1)"
    by (metis prod.exhaust)
  then obtain p where p: "pc = AtSend c p" "p_topic p = th_topic th"
    using s(2) by (auto simp: deliver_step_def Let_def Publish_new_def split: if_splits prod.splits)
  let ?v1 = "delivery_step i 0 SendOk v" and ?st1 = "(with_session ?r s1 (store_of v))\<lparr>st_env := e1\<rparr>"
  have i: "i < length (cw_threads v)" using assms(8) by (metis get_at_nth option.simps(3))
  have v1: "?v1 = (set_broker ((cw_broker v)\<lparr>b_store := ?st1\<rparr>) v)\<lparr>cw_threads := (cw_threads v)[i := (?r, th\<lparr>th_pc := pc\<rparr>)]\<rparr>"
    using assms(8,9) s(1) d1 p(1) by (simp add: delivery_step_def Let_def)
  then have g1: "get_at (cw_threads ?v1) i = Some (?r, th\<lparr>th_pc := AtSend c p\<rparr>)" "cw_tasks ?v1 = cw_tasks v"
    "hm_get (st_heap (store_of ?v1)) ?r = Some s1"
    using i p(1) store_wf_maps [OF inv_store [OF conc_reach [OF assms(1,2)]]] by (simp_all add: get_at_nth)
  have o1: "open_at ?v1 c = Some oc" using assms(3) g1(2) by (simp add: open_at_def)
  have d2: "deliver_step (th_topic th) (th_payload th) (th_qos th) 0 SendOk (AtSend c p, s1, st_env (store_of ?v1)) = (Done Sent, s1, st_env (store_of ?v1))"
    by (simp add: deliver_step_def split: option.split)
  have "oc_out oc @ [PPublish p] = oc_out (oc\<lparr>oc_out := oc_out oc @ [PPublish p], oc_room := oc_room oc - 1\<rparr>)" by simp
  moreover have "open_at (delivery_step i 0 SendOk ?v1) c = Some (oc\<lparr>oc_out := oc_out oc @ [PPublish p], oc_room := oc_room oc - 1\<rparr>)"
    using g1 d2 o1 n(2) by (simp add: delivery_step_def Let_def push_packet_def open_at_Some open_at_set)
  moreover have "conc_step x api v ?v1" by (rule conc_step.delivery) (use assms(8,9) in auto)
  moreover have "conc_step x api ?v1 (delivery_step i 0 SendOk ?v1)"
    by (rule conc_step.delivery) (use g1(1) o1 assms(6) in \<open>auto simp: channel_answers_def\<close>)
  ultimately show ?thesis using p(2) assms(4) by (intro exI [of _ "delivery_step i 0 SendOk ?v1"] exI) auto
qed

theorem live_overtakes_connack_witness:
  "\<exists>v' oc' p. (conc_step demo_x demo_tls_api)\<^sup>*\<^sup>* (cnode_start demo_b0) v' \<and> open_at v' 1 = Some oc'
     \<and> oc_out oc' = [PPublish p] \<and> p_topic p = ''a/b'' \<and> oc_phase oc' = Greeting [SendConnAck True, Announce ''q'']"
proof -
  obtain nd where nd: "run_node demo_x demo_world qos_std (env_fs demo_env) demo_cfg = Inr nd" "nd_broker nd = demo_b0"
    using demo_node by blast
  have r: "(conc_step demo_x demo_tls_api)\<^sup>*\<^sup>* (cnode_start (nd_broker nd)) demo_w6" using demo_reach_w6 nd(2) by simp
  obtain oc where oc: "open_at demo_w6 1 = Some oc" "oc_phase oc = Greeting [SendConnAck True, Announce ''q'']" "oc_writer oc"
    "oc_room oc = 9" "oc_out oc = []" "cl_session (oc_client oc) = 0" "1 \<notin> notified (b_store (cw_broker demo_w6))"
    "get_at (cw_threads demo_w6) 0 = Some (0, demo_fwd AtLoop)" using demo_w6_eq by blast
  have "0 < oc_room oc" "get_at (cw_threads demo_w6) 0 = Some (cl_session (oc_client oc), demo_fwd AtLoop)" "th_pc (demo_fwd AtLoop) = AtLoop"
    using oc by simp_all
  from live_overtakes_connack [OF nd(1) r oc(1-3) this(1) oc(7) this(2,3)] oc(5) show ?thesis
    using demo_reach_w6 by simp (meson rtranclp_trans)
qed

end
