(* ===== verification/Spec2Isabelle.thy ===== *)
theory Spec2Isabelle
  imports Keyexpr Connection_Protocol Framing Delivery_Bound Bench Concurrent_Node
begin

text \<open>
  \<^bold>\<open>Entmoot\<close> is an MQTT 3.1.1 broker whose nodes form a mesh over Zenoh. A client publishes and
  subscribes at any node; every accepted PUBLISH is put on the Zenoh bus under a key derived
  from its topic, every subscription is a bus subscriber owned by the client's session, and
  local delivery takes the same way. Nodes replicate retained messages over the bus, keep
  persistent sessions with bounded offline queues, and survive restarts from their files.

  \<^bold>\<open>Parts and theories.\<close> Paths are under \<open>src/crates\<close>; definitions keep the names of the source,
  with the owner as a suffix or prefix where a name is used twice.

  \<^item> \<open>Prelude\<close>, \<open>Bytes\<close>, \<open>Fs\<close>: the parts of the Rust standard library the sources use. Strings are
    their UTF-8 bytes, a \<open>HashMap\<close> is an association list in iteration order (locale \<open>dict\<close>),
    files are a map with injectable faults, big-endian integers and length-prefixed chunks are
    record streams (locale \<open>record_stream\<close>), and \<open>transition_system\<close> is the induction principle
    for step relations.
  \<^item> \<open>Topic\<close>, \<open>Keyexpr\<close>: \<open>entmoot-core/src/topic.rs\<close>, all of it. \<open>Topic\<close> translates the validation,
    both directions of the key mapping, \<open>topic_matches\<close> and \<open>filter_covers\<close>, and shows coverage
    exact. \<open>Keyexpr\<close> states what the code relies on of Zenoh's matching (locale \<open>bus_matching\<close>,
    interpreted on the documented rules) and shows that routing is exact and the internal
    keyspaces are isolated.
  \<^item> \<open>Config\<close>, \<open>Auth\<close>: \<open>entmoot-core/src/config.rs\<close>, \<open>auth.rs\<close>, \<open>staleness.rs\<close> and the flag handling
    of \<open>entmoot-node/src/main.rs\<close>. Logins and access lists are shown to decide exactly what
    they say; flags cannot weaken the file's security settings.
  \<^item> \<open>Retained\<close>: \<open>entmoot-node/src/retained.rs\<close>. The store with its match cache (locale
    \<open>match_cache\<close>), the envelope, the snapshot file and the bodies of the tasks of \<open>wire\<close>. The
    snapshot round trip, catch-up, the refinement to the map of last writes and the convergence of
    replicas are shown.
  \<^item> \<open>Session_Files\<close>, \<open>Metrics\<close>, \<open>Session\<close>, \<open>Registry\<close>: \<open>entmoot-node/src/session.rs\<close>. A session's
    methods are its locked sections; \<open>Session\<close> proves its invariants over every interleaving of
    them, \<open>Delivery_Bound\<close> that a delivery ends in each, by a potential; \<open>Registry\<close> lifts them to
    the registry with its heap of shared sessions, and shows what attach, detach, sweep and
    rehydration do.
  \<^item> \<open>Admission\<close>: \<open>entmoot-node/src/admission.rs\<close> and the token bucket of \<open>connection.rs\<close>; the
    \<open>governor\<close> crate is the locale \<open>governor\<close>, interpreted on the cell rate algorithm it
    documents.
  \<^item> \<open>Connection\<close>: \<open>entmoot-node/src/connection.rs\<close>. The broker record, the packets, one definition
    per handler, the read loop \<open>run\<close> over a list of events, and \<open>serve\<close> from the first packet to
    the last will. \<open>Connection_Safety\<close> shows that a connection writes only where its identity
    may; \<open>Connection_Protocol\<close> what it answers; \<open>Framing\<close> that packets survive the byte stream
    and the split of the connection. \<open>Broker_Invariant\<close> states the changes a connection can make
    as the locales \<open>broker_quiet\<close> (a packet handled) and \<open>broker_invariant\<close> (a whole connection)
    and interprets the latter on \<open>broker_ok\<close>; \<open>Connection_Quiet\<close> interprets the former on
    \<open>quiet_from\<close>: handling a packet attaches and detaches nobody. It also shows that what goes
    out is well-typed.
  \<^item> \<open>Http\<close>: the endpoints of \<open>entmoot-node/src/metrics.rs\<close> and \<open>health.rs\<close> and the \<open>$SYS\<close>
    statistics. \<open>Bench\<close>: the programs under \<open>entmoot-node/examples\<close>, and the benchmark against the
    metrics endpoint.
  \<^item> \<open>Node\<close>, \<open>Node_Safety\<close>: \<open>entmoot-node/src/lib.rs\<close>. The Zenoh settings, TLS, \<open>run\<close> and the
    connection counter; startup, the connection limit, and the invariant of a node that serves
    one connection after the other, as the step relation \<open>node_step\<close>.
  \<^item> \<open>Takeover\<close>, \<open>Concurrent\<close>, \<open>Concurrent_Safety\<close>, \<open>Concurrent_Refinement\<close>,
    \<open>Concurrent_Node\<close>: everything at once. The state
    \<open>cnode\<close> is the broker, the tasks spawned by \<open>spawn_client\<close> from accept to the drop of their
    \<open>ConnGuard\<close>, and the deliveries under way; \<open>conc_step\<close> lets any of them make its next step.
    \<open>Takeover\<close> shows what each operation of the store does to the relation between sessions and
    open connections, \<open>Concurrent_Safety\<close> that every step keeps the invariant \<open>conc_inv\<close>,
    \<open>Concurrent_Refinement\<close> that the steps of one connection, undisturbed, are \<open>serve\<close>, and
    \<open>Concurrent_Node\<close> what follows: the node stays in order, a client has one current connection,
    and a delivery reaches only its own client, which it may reach before the CONNACK does.
  \<^item> This theory composes them: publish to delivery, and publish to retained replica.

  \<^bold>\<open>State and effects.\<close> Handlers take the state and return it. The registry's sessions live in a
  heap (\<open>st_heap\<close>) because registry and connections share them; \<open>env\<close> holds the files, the
  counters and the notified and aborted handles; \<open>b_bus\<close> is what the node wrote to the bus.
  Errors are values of \<open>TopicError\<close>, \<open>CodecError\<close>, \<open>ConnError\<close>, \<open>StartError\<close> and others. Code outside
  the repository (Zenoh, moka, governor, mqttbytes, sha2, rustls, the socket, floating-point
  rounding) is an argument: \<open>extern\<close>, \<open>world\<close>, \<open>cache_api\<close>, \<open>governor_api\<close>, \<open>parse\<close>.

  \<^bold>\<open>Bounds.\<close> Counters, packet ids and epochs are words of their width. \<open>deliver\<close> loops under fuel 5,
  which is shown to be enough when nothing interferes (one attempt, one retry after a broken
  channel, then the queue); with interference the loop is the step relation of \<open>Session\<close>, and
  \<open>Delivery_Bound\<close> bounds its steps. Every other loop is a total function. \<open>conc_step\<close> accepts
  while fewer than \<open>2^64 - 1\<close> connections are counted, and a first packet is handled while no
  session has been attached \<open>2^64 - 1\<close> times, so that neither counter wraps.

  \<^bold>\<open>Granularity.\<close> In \<open>conc_step\<close> the first packet up to the attach, each packet of the greeting
  (CONNACK, client event, backlog), each event of the read loop and the end of a connection are
  one step each; other tasks run in between but not inside: the awaits inside a handler (bus
  writes, a full outbound channel) are not split, and each handler reads the clock once. A delivery is split at every lock and at its send. The outbound
  channel of a connection is the list of the packets handed to it and the number it still takes;
  a kick that was sent may arrive at any later event or never, as \<open>notify_waiters\<close> stores no
  permit. A delivery goes on after its subscription was aborted, and a subscription may have
  several deliveries at once; the code allows fewer interleavings than that.

  \<^bold>\<open>Not modelled.\<close> Logging and timers; TOML and command-line parsing,
  which are arguments of \<open>load_config\<close> and \<open>main_action\<close>; characters outside ASCII in
  \<open>to_lowercase\<close> and in \<open>{:?}\<close>; the percentiles and the printed text of the benchmark. The web
  console, the chaos tests and the scripts hold no Rust code of the node.

  \<^bold>\<open>What modelling showed.\<close> Where the code departs from its comments or from MQTT there is a
  theorem that says so: \<open>resume_ignores_identity\<close>, \<open>connack_failure_leaks_session\<close>,
  \<open>catch_up_may_regress\<close>, \<open>stale_cache_reachable\<close>, \<open>failed_save_not_retried\<close>,
  \<open>restored_session_never_expires\<close>, \<open>clean_session_reused\<close>, \<open>superseded_subscribe_returns\<close>,
  \<open>any_error_is_shed\<close>, \<open>live_overtakes_connack\<close>.
\<close>

section \<open>Across components\<close>

text \<open>What one bus operation on the retained keyspace does to a replica.\<close>

definition replicate_op :: "'c cache_api \<Rightarrow> string \<Rightarrow> bus_op \<Rightarrow> 'c RetainedStore \<Rightarrow> 'c RetainedStore" where
  "replicate_op api scope op s =
     (case op of
        BusPut ke raw \<Rightarrow> on_retained_sample api scope ke Put raw s
      | BusDelete ke \<Rightarrow> on_retained_sample api scope ke Delete [] s)"

lemma replicate_retained_write:
  assumes "rs_wf s"
  shows "retained (replicate_op api scope (retained_write scope now p) s) =
    (retained s)(p_topic p := if p_payload p = [] then None else Some (p_payload p, wire_time now))"
  using assms
  by (simp add: replicate_op_def retained_write_def Let_def on_retained_sample_def codec_simps
      retained_keyexpr_to_topic_def retained_keyexpr_def)



text \<open>(C11) From publisher to late subscriber: a permitted retained publish that was acknowledged puts on
  the bus an operation after which every replica that applies it retains exactly this payload
  for the topic, with the time it was written (in milliseconds), or nothing if the payload was
  empty, and what it retains for other topics is unchanged; and a look-up for a filter then
  returns it if the filter matches the topic.\<close>

theorem end_to_end_retained:
  assumes "scope = cfg_scope (b_cfg (cn_broker cn))" and "handle_publish x now p cn = (Inr (), cn')" and "p_retain p"
    and "may_publish (b_acl (cn_broker cn)) (cl_identity (cn_client cn)) (p_topic p)" and "rs_wf s"
  shows "\<exists>op s'. op \<in> set (drop (length (b_bus (cn_broker cn))) (b_bus (cn_broker cn'))) \<and> s' = replicate_op api scope op s
    \<and> retained s' = (retained s)(p_topic p := if p_payload p = [] then None else Some (p_payload p, wire_time (snd now)))
    \<and> ((\<exists>ts. (p_topic p, p_payload p, ts) \<in> set (scan_map (rs_map s') f)) \<longleftrightarrow> p_payload p \<noteq> [] \<and> topic_matches f (p_topic p))"
proof -
  let ?op = "retained_write scope (snd now) p"
  let ?s = "replicate_op api scope ?op s"
  have "?op \<in> set (drop (length (b_bus (cn_broker cn))) (b_bus (cn_broker cn')))"
    using publish_outcome [OF assms(2)] assms(1,3,4) by auto
  moreover have ret: "retained ?s = (retained s)(p_topic p := if p_payload p = [] then None else Some (p_payload p, wire_time (snd now)))"
    by (rule replicate_retained_write [OF assms(5)])
  moreover have "rs_wf ?s"
    using retained_changes(1) [OF assms(5)] by (simp add: replicate_op_def split: bus_op.split)
  then have "(\<exists>ts. (p_topic p, p_payload p, ts) \<in> set (scan_map (rs_map ?s) f)) \<longleftrightarrow> p_payload p \<noteq> [] \<and> topic_matches f (p_topic p)"
    using ret by (auto simp: rs_wf_def scan_map_iff simp flip: retained_def)
  ultimately show ?thesis by blast
qed

theorem end_to_end_retained_witness:
  "\<exists>op s'. s' = replicate_op list_cache '''' op (RetainedStore_default list_cache) \<and> retained s' ''a/x'' = Some ([5], 0)"
proof -
  let ?p = "(Publish_new ''a/x'' AtMostOnce [5])\<lparr>p_retain := True\<rparr>"
  have t: "topic_to_keyexpr ''a/x'' '''' = Inr ''a/x''" "may_publish demo_rules '''' ''a/x''" by code_simp+
  have "fst (handle_publish demo_x (1, 1) ?p demo_conn) = Inr ()"
    by (simp add: handle_publish_def demo_facts allow_def RateLimiter_new_def Publish_new_def t relay_def bus_write_def
        acknowledge_def Let_def)
  then obtain cn' where h: "handle_publish demo_x (1, 1) ?p demo_conn = (Inr (), cn')" by (metis prod.collapse)
  have "wire_time 1 = 0" by (simp add: wire_time_floor)
  with end_to_end_retained [OF _ h, of "''''" "RetainedStore_default list_cache" list_cache "''#''"] t(2) obtain op where
    "retained (replicate_op list_cache '''' op (RetainedStore_default list_cache)) =
      (retained (RetainedStore_default list_cache))(''a/x'' \<mapsto> ([5], 0))"
    by (auto simp: demo_facts Publish_new_def)
  then have "retained (replicate_op list_cache '''' op (RetainedStore_default list_cache)) ''a/x'' = Some ([5], 0)" by simp
  then show ?thesis by blast
qed

end
